(* ===== verification/Prelude.thy ===== *)
theory Prelude
  imports Main "HOL-Library.Word"
begin

text \<open>
  The vocabulary every component of the development shares: the machine integers and the clock of
  the Rust standard library, the container operations the crate calls (\<open>Vec::pop\<close>,
  \<open>VecDeque::pop_front\<close>, \<open>binary_search_by_key\<close>, \<open>saturating_sub\<close>), and the generic lemmas
  about them that carry the component proofs.

  \<^item> \<open>u32\<close>, \<open>u64\<close> are words, so \<open>+\<close> wraps exactly as an atomic \<open>fetch_add\<close> does.
  \<^item> A \<open>Duration\<close> is a number of nanoseconds and an \<open>Instant\<close> a number of nanoseconds since the
    clock's origin. \<open>Instant::duration_since\<close> saturates at zero, which is subtraction on \<open>nat\<close>.
  \<^item> A \<open>Vec\<close> is a list whose last element is the one \<open>pop\<close> takes.
\<close>

section \<open>Machine integers and time\<close>

type_synonym u8 = "8 word"

type_synonym u32 = "32 word"
type_synonym u64 = "64 word"
type_synonym duration = nat
type_synonym instant = nat

named_theorems rust_simps \<open>facts about the standard-library operations\<close>
named_theorems pool_simps \<open>unfolding rules of the pool's small accessors\<close>

definition duration_since :: "instant \<Rightarrow> instant \<Rightarrow> duration" where
  "duration_since now earlier = now - earlier"

definition from_secs :: "nat \<Rightarrow> duration" where
  "from_secs s = s * 1000000000"

definition from_millis :: "nat \<Rightarrow> duration" where
  "from_millis ms = ms * 1000000"

definition from_micros :: "u64 \<Rightarrow> duration" where
  "from_micros us = unat us * 1000"

definition as_micros_u64 :: "duration \<Rightarrow> u64" where
  "as_micros_u64 d = of_nat (d div 1000)"

text \<open>\<open>Duration::checked_div\<close>: none on a zero divisor, the floor of the nanoseconds otherwise.\<close>

definition duration_checked_div :: "duration \<Rightarrow> u32 \<Rightarrow> duration option" where
  "duration_checked_div d n = (if n = 0 then None else Some (d div unat n))"

definition saturating_sub :: "'a::len word \<Rightarrow> 'a word \<Rightarrow> 'a word" where
  "saturating_sub x y = (if x < y then 0 else x - y)"

text \<open>The cast \<open>as u32\<close> of a length, which keeps the low 32 bits.\<close>

definition as_u32 :: "nat \<Rightarrow> u32" where
  "as_u32 n = of_nat n"

lemma unat_saturating_sub [rust_simps]: "unat (saturating_sub x y) = unat x - unat y"
proof (cases "x < y")
  case True
  then have "unat x < unat y" by (simp add: word_less_nat_alt)
  with True show ?thesis by (simp add: saturating_sub_def)
next
  case False
  then have "y \<le> x" by simp
  with False show ?thesis by (simp add: saturating_sub_def unat_sub)
qed

lemma unat_plus_one:
  fixes x y :: "'a::len word"
  assumes "unat x < unat y"
  shows "unat (x + 1) = unat x + 1"
proof -
  have "unat y < 2 ^ LENGTH('a)" by (rule unsigned_less)
  with assms have "unat x + 1 < 2 ^ LENGTH('a)" by linarith
  then show ?thesis using unat_add_lem [of x 1] by simp
qed

lemma unat_as_u32 [rust_simps]: "n < 2 ^ 32 \<Longrightarrow> unat (as_u32 n) = n"
  by (simp add: as_u32_def unat_of_nat)

lemma as_u32_0 [simp]: "as_u32 0 = 0"
  by (simp add: as_u32_def)

lemma as_u32_Suc: "as_u32 (Suc n) = as_u32 n + 1"
  by (simp add: as_u32_def add.commute)

lemma u32_bound: "unat (x :: u32) < 2 ^ 32"
  using unsigned_less [of x] by simp

lemma u64_bound: "unat (x :: u64) < 2 ^ 64"
  using unsigned_less [of x] by simp

lemma saturating_sub_as_u32 [rust_simps]:
  assumes "n < 2 ^ 32" and "k \<le> n"
  shows "saturating_sub (as_u32 n) (as_u32 k) = as_u32 (n - k)"
proof -
  have "unat (saturating_sub (as_u32 n) (as_u32 k)) = unat (as_u32 (n - k))"
    using assms by (simp add: rust_simps)
  then show ?thesis by (simp add: word_unat_eq_iff)
qed

section \<open>Vectors and queues\<close>

definition vec_push :: "'a list \<Rightarrow> 'a \<Rightarrow> 'a list" where
  "vec_push xs x = xs @ [x]"

definition vec_pop :: "'a list \<Rightarrow> 'a option \<times> 'a list" where
  "vec_pop xs = (if xs = [] then (None, []) else (Some (last xs), butlast xs))"

fun pop_front :: "'a list \<Rightarrow> 'a option \<times> 'a list" where
  "pop_front [] = (None, [])"
| "pop_front (x # xs) = (Some x, xs)"

definition vec_remove :: "nat \<Rightarrow> 'a list \<Rightarrow> 'a list" where
  "vec_remove i xs = take i xs @ drop (Suc i) xs"

lemma vec_pop_push [simp]: "vec_pop (vec_push xs x) = (Some x, xs)"
  by (simp add: vec_pop_def vec_push_def)

lemma vec_pop_None [simp]: "vec_pop xs = (None, ys) \<longleftrightarrow> xs = [] \<and> ys = []"
  by (auto simp: vec_pop_def)

lemma vec_pop_SomeD: "vec_pop xs = (Some x, ys) \<Longrightarrow> xs = ys @ [x]"
  by (auto simp: vec_pop_def split: if_splits)

lemma length_vec_push [simp]: "length (vec_push xs x) = Suc (length xs)"
  by (simp add: vec_push_def)

lemma set_vec_remove_distinct:
  assumes "i < length xs" and "distinct xs"
  shows "set (vec_remove i xs) = set xs - {xs ! i}"
proof -
  have xs: "xs = take i xs @ xs ! i # drop (Suc i) xs"
    using assms(1) by (rule id_take_nth_drop)
  have "distinct (take i xs @ xs ! i # drop (Suc i) xs)"
    using assms(2) xs by simp
  then have "set (take i xs @ xs ! i # drop (Suc i) xs) - {xs ! i}
      = set (take i xs @ drop (Suc i) xs)"
    by auto
  then show ?thesis using xs by (simp add: vec_remove_def)
qed

lemma map_vec_remove: "map f (vec_remove i xs) = vec_remove i (map f xs)"
  by (simp add: vec_remove_def take_map drop_map)

lemma length_vec_remove: "i < length xs \<Longrightarrow> length (vec_remove i xs) = length xs - 1"
  by (simp add: vec_remove_def)

lemma subseq_vec_remove: "sorted_wrt P xs \<Longrightarrow> sorted_wrt P (vec_remove i xs)"
proof -
  assume s: "sorted_wrt P xs"
  have "sorted_wrt P (take i xs @ drop i xs)" using s by simp
  then have "sorted_wrt P (take i xs)"
    and dr: "sorted_wrt P (drop i xs)"
    and "\<forall>x\<in>set (take i xs). \<forall>y\<in>set (drop i xs). P x y"
    unfolding sorted_wrt_append by blast+
  moreover have "set (drop (Suc i) xs) \<subseteq> set (drop i xs)"
    by (rule set_drop_subset_set_drop) simp
  moreover have "sorted_wrt P (drop (Suc i) xs)"
    using s by (rule sorted_wrt_drop)
  ultimately show ?thesis
    unfolding vec_remove_def sorted_wrt_append by blast
qed

lemma strict_sorted_le_last:
  fixes xs :: "'a::linorder list"
  shows "sorted_wrt (<) xs \<Longrightarrow> x \<in> set xs \<Longrightarrow> x \<le> last xs"
proof (induction xs)
  case (Cons a xs)
  then show ?case by (cases "xs = []") (auto intro: less_imp_le)
qed simp

lemma last_Cons_take: "last (a # take k xs) = a \<or> last (a # take k xs) \<in> set xs"
proof (cases "take k xs = []")
  case False
  then have "last (take k xs) \<in> set (take k xs)" by (rule last_in_set)
  then have "last (take k xs) \<in> set xs" by (rule in_set_takeD)
  with False show ?thesis by simp
qed (auto simp del: take_eq_Nil)

lemma filter_not_in_take: "distinct xs \<Longrightarrow> filter (\<lambda>x. x \<notin> set (take k xs)) xs = drop k xs"
proof -
  assume d: "distinct xs"
  have "filter (\<lambda>x. x \<notin> set (take k xs)) (take k xs @ drop k xs) = drop k xs"
    using d by (simp only: filter_append) (auto simp: filter_id_conv
        dest: in_set_takeD set_take_disj_set_drop_if_distinct [OF _ order_refl])
  then show ?thesis by simp
qed

section \<open>Binary search\<close>

text \<open>
  \<open>binary_search_by_key\<close>: \<open>Inr\<close> the position of an element whose key is the one sought,
  \<open>Inl\<close> the place where it would go. On a sequence sorted by distinct keys the result is the
  unique position, whatever probe order an implementation uses.
\<close>

function bsearch :: "('a \<Rightarrow> 'k::linorder) \<Rightarrow> 'k \<Rightarrow> 'a list \<Rightarrow> nat \<Rightarrow> nat \<Rightarrow> nat + nat" where
  "bsearch key k xs lo hi =
     (if hi \<le> lo then Inl lo
      else let mid = lo + (hi - lo) div 2; c = key (xs ! mid)
           in if c = k then Inr mid
              else if c < k then bsearch key k xs (Suc mid) hi
              else bsearch key k xs lo mid)"
  by pat_completeness auto
termination
  by (relation "measure (\<lambda>(key, k, xs, lo, hi). hi - lo)") auto

declare bsearch.simps [simp del]

definition binary_search_by_key :: "'a list \<Rightarrow> 'k::linorder \<Rightarrow> ('a \<Rightarrow> 'k) \<Rightarrow> nat + nat" where
  "binary_search_by_key xs k key = bsearch key k xs 0 (length xs)"

lemma bsearch_Inr:
  "hi \<le> length xs \<Longrightarrow> bsearch key k xs lo hi = Inr p \<Longrightarrow> p < length xs \<and> key (xs ! p) = k"
proof (induction key k xs lo hi rule: bsearch.induct)
  case (1 key k xs lo hi)
  define mid where "mid = lo + (hi - lo) div 2"
  show ?case
  proof (cases "hi \<le> lo")
    case True
    with "1.prems" show ?thesis by (simp add: bsearch.simps [of key k xs lo hi])
  next
    case False
    then have "mid < hi" by (simp add: mid_def)
    with False "1.prems" "1.IH" [OF False mid_def refl] show ?thesis
      by (auto simp: bsearch.simps [of key k xs lo hi] mid_def [symmetric] Let_def split: if_splits)
  qed
qed

lemma bsearch_Inl:
  "sorted (map key xs) \<Longrightarrow> hi \<le> length xs \<Longrightarrow> bsearch key k xs lo hi = Inl p \<Longrightarrow>
   lo \<le> i \<Longrightarrow> i < hi \<Longrightarrow> key (xs ! i) \<noteq> k"
proof (induction key k xs lo hi arbitrary: i rule: bsearch.induct)
  case (1 key k xs lo hi)
  define mid where "mid = lo + (hi - lo) div 2"
  from "1.prems" have lt: "\<not> hi \<le> lo" by simp
  then have mid: "mid < hi" "lo \<le> mid" by (simp_all add: mid_def)
  have le: "key (xs ! a) \<le> key (xs ! b)" if "a \<le> b" "b < length xs" for a b
    using sorted_nth_mono [OF "1.prems"(1), of a b] that by simp
  note eq = bsearch.simps [of key k xs lo hi, folded mid_def, unfolded Let_def]
  from "1.prems"(3) lt have ne: "key (xs ! mid) \<noteq> k"
    by (auto simp: eq mid_def [symmetric])
  show ?case
  proof (cases "key (xs ! mid) < k")
    case True
    show ?thesis
    proof (cases "i \<le> mid")
      case i: True
      have "key (xs ! i) \<le> key (xs ! mid)" using le i mid "1.prems"(2) by simp
      with True show ?thesis by simp
    next
      case False
      have "bsearch key k xs (Suc mid) hi = Inl p"
        using "1.prems"(3) lt ne True by (simp add: eq mid_def [symmetric])
      with "1.IH"(1) [OF lt mid_def refl ne True "1.prems"(1,2)] False "1.prems"(5)
      show ?thesis by simp
    qed
  next
    case ge: False
    show ?thesis
    proof (cases "mid \<le> i")
      case True
      have "key (xs ! mid) \<le> key (xs ! i)" using le True "1.prems"(2,5) by simp
      with ge ne show ?thesis by auto
    next
      case False
      have "bsearch key k xs lo mid = Inl p"
        using "1.prems"(3) lt ne ge by (simp add: eq mid_def [symmetric])
      with "1.IH"(2) [OF lt mid_def refl ne ge "1.prems"(1)] False "1.prems" mid
      show ?thesis by simp
    qed
  qed
qed

lemma binary_search_found:
  "binary_search_by_key xs k key = Inr p \<Longrightarrow> p < length xs \<and> key (xs ! p) = k"
  unfolding binary_search_by_key_def using bsearch_Inr [of "length xs"] by blast

lemma binary_search_missing:
  assumes "sorted (map key xs)" and "binary_search_by_key xs k key = Inl p"
  shows "k \<notin> set (map key xs)"
proof
  assume "k \<in> set (map key xs)"
  then obtain i where "i < length xs" "key (xs ! i) = k"
    by (auto simp: in_set_conv_nth)
  with bsearch_Inl [OF assms(1) order_refl, of k 0 p i] assms(2) show False
    by (simp add: binary_search_by_key_def)
qed

lemma binary_search_hit:
  assumes "sorted (map key xs)" and "k \<in> set (map key xs)"
  obtains p where "binary_search_by_key xs k key = Inr p" and "p < length xs" and "key (xs ! p) = k"
proof (cases "binary_search_by_key xs k key")
  case (Inl p)
  with binary_search_missing [OF assms(1)] assms(2) show ?thesis by blast
next
  case (Inr p)
  with binary_search_found [OF Inr] that show ?thesis by blast
qed

end
