(* ===== verification/Manage.thy ===== *)
theory Manage
  imports Prelude
begin

text \<open>
  \<open>src/src/manage.rs\<close>: the vocabulary between the pool and the manager a user supplies. The
  manager itself is code outside the crate, so it is a parameter of the model: the outcomes of its
  futures \<open>connect\<close> and \<open>is_valid\<close> arrive as inputs of the step that resumes the awaiting
  task (see \<open>Tasks\<close>), and \<open>has_broken\<close>, which is synchronous and takes the connection by
  mutable reference, is a function from a connection to a verdict and the connection it leaves.
\<close>

section \<open>What a lease can fail with\<close>

datatype 'e run_error = User 'e | TimedOut | Closed

type_synonym 'c has_broken = "'c \<Rightarrow> bool \<times> 'c"

text \<open>\<open>impl Display for RunError\<close>; the user's own \<open>Display\<close> is the parameter \<open>show\<close>.\<close>

fun run_error_display :: "('e \<Rightarrow> string) \<Rightarrow> 'e run_error \<Rightarrow> string" where
  "run_error_display show (User e) = show e"
| "run_error_display show TimedOut = ''timed out waiting for a pooled connection''"
| "run_error_display show Closed = ''the connection pool is closed''"

text \<open>\<open>impl Error for RunError\<close>: only a user error has a source.\<close>

fun run_error_source :: "'e run_error \<Rightarrow> 'e option" where
  "run_error_source (User e) = Some e"
| "run_error_source TimedOut = None"
| "run_error_source Closed = None"

lemma run_error_source_iff: "run_error_source r = Some e \<longleftrightarrow> r = User e"
  by (cases r) auto

end
