(* ===== verification/Builder.thy ===== *)
theory Builder
  imports Manage
begin

text \<open>
  \<open>src/src/builder.rs\<close>: the configuration every thread's pool reads, the chainable setters, and
  \<open>Builder::build\<close>, which refuses a zero \<open>max_size\<close> and clamps \<open>min_idle\<close> to it. A
  \<open>Builder\<close> is its configuration (the other field is a phantom marker).
\<close>

section \<open>Configuration\<close>

datatype build_error = ZeroMaxSize

fun build_error_display :: "build_error \<Rightarrow> string" where
  "build_error_display ZeroMaxSize = ''max_size must be at least 1''"

record pool_config =
  max_size :: u32
  min_idle :: u32
  connection_timeout :: duration
  idle_timeout :: "duration option"
  max_lifetime :: "duration option"
  test_on_check_out :: bool
  retry_connection :: bool

definition default_config :: pool_config where
  "default_config =
     \<lparr>max_size = 10, min_idle = 0, connection_timeout = from_secs 30,
      idle_timeout = Some (from_secs (10 * 60)), max_lifetime = Some (from_secs (30 * 60)),
      test_on_check_out = True, retry_connection = False\<rparr>"

section \<open>The builder\<close>

record builder =
  config :: pool_config

definition builder_new :: builder where
  "builder_new = \<lparr>config = default_config\<rparr>"

definition set_max_size :: "u32 \<Rightarrow> builder \<Rightarrow> builder" where
  "set_max_size n b = b\<lparr>config := (config b)\<lparr>max_size := n\<rparr>\<rparr>"

definition set_min_idle :: "u32 \<Rightarrow> builder \<Rightarrow> builder" where
  "set_min_idle n b = b\<lparr>config := (config b)\<lparr>min_idle := n\<rparr>\<rparr>"

definition set_connection_timeout :: "duration \<Rightarrow> builder \<Rightarrow> builder" where
  "set_connection_timeout d b = b\<lparr>config := (config b)\<lparr>connection_timeout := d\<rparr>\<rparr>"

definition set_idle_timeout :: "duration option \<Rightarrow> builder \<Rightarrow> builder" where
  "set_idle_timeout d b = b\<lparr>config := (config b)\<lparr>idle_timeout := d\<rparr>\<rparr>"

definition set_max_lifetime :: "duration option \<Rightarrow> builder \<Rightarrow> builder" where
  "set_max_lifetime d b = b\<lparr>config := (config b)\<lparr>max_lifetime := d\<rparr>\<rparr>"

definition set_test_on_check_out :: "bool \<Rightarrow> builder \<Rightarrow> builder" where
  "set_test_on_check_out yes b = b\<lparr>config := (config b)\<lparr>test_on_check_out := yes\<rparr>\<rparr>"

definition set_retry_connection :: "bool \<Rightarrow> builder \<Rightarrow> builder" where
  "set_retry_connection yes b = b\<lparr>config := (config b)\<lparr>retry_connection := yes\<rparr>\<rparr>"

text \<open>\<open>Builder::build\<close>, up to the \<open>Pool::new\<close> it ends in: the resolved configuration.\<close>

definition build :: "builder \<Rightarrow> build_error + pool_config" where
  "build b =
     (if max_size (config b) = 0 then Inl ZeroMaxSize
      else let cfg = config b
           in Inr (cfg\<lparr>min_idle := min (min_idle cfg) (max_size cfg)\<rparr>))"

lemmas builder_defs = set_max_size_def set_min_idle_def set_connection_timeout_def
  set_idle_timeout_def set_max_lifetime_def set_test_on_check_out_def set_retry_connection_def

text \<open>A configuration a pool can be made with: what \<open>build\<close> guarantees.\<close>

definition valid_config :: "pool_config \<Rightarrow> bool" where
  "valid_config cfg \<longleftrightarrow> 0 < max_size cfg \<and> min_idle cfg \<le> max_size cfg"

lemma build_valid: "build b = Inr cfg \<Longrightarrow> valid_config cfg"
  by (auto simp: build_def valid_config_def Let_def word_neq_0_conv split: if_splits)

lemma valid_config_max_pos: "valid_config cfg \<Longrightarrow> 0 < unat (max_size cfg)"
  by (simp add: valid_config_def word_less_nat_alt)

text \<open>The last setting of a knob wins, and knobs are independent of each other.\<close>

lemma setters_last_wins:
  "set_max_size m (set_max_size n b) = set_max_size m b"
  "set_min_idle m (set_min_idle n b) = set_min_idle m b"
  "set_connection_timeout d (set_connection_timeout d' b) = set_connection_timeout d b"
  by (simp_all add: builder_defs)

lemma setters_commute:
  "set_max_size m (set_min_idle n b) = set_min_idle n (set_max_size m b)"
  "set_max_size m (set_idle_timeout d b) = set_idle_timeout d (set_max_size m b)"
  "set_min_idle n (set_retry_connection y b) = set_retry_connection y (set_min_idle n b)"
  by (simp_all add: builder_defs)

end
