(* ===== verification/Metrics.thy ===== *)
theory Metrics
  imports Prelude
begin

text \<open>
  The counters of \<open>src/src/pool.rs\<close>: the per-thread \<open>Metrics\<close> block, the \<open>State\<close> and
  \<open>Statistics\<close> snapshots taken from it, their sums, and the folding of a dying block into the
  pool's retired totals. Atomic counters wrap, so they are words with plain addition; the gauges
  are decremented with \<open>saturating_sub\<close>. The locale \<open>snapshot_algebra\<close> is the contract a
  snapshot type meets so that summing blocks in any order gives one total; both snapshot types
  interpret it.
\<close>

section \<open>Snapshots\<close>

record pool_state =
  connections :: u32
  idle_connections :: u32
  pending_waiters :: u32

record statistics =
  get_direct :: u64
  get_waited :: u64
  get_timed_out :: u64
  connections_created :: u64
  connections_closed_broken :: u64
  connections_closed_idle_timeout :: u64
  connections_closed_max_lifetime :: u64
  connections_closed_manual :: u64
  total_wait_time :: duration

definition state_default :: pool_state where
  "state_default = \<lparr>connections = 0, idle_connections = 0, pending_waiters = 0\<rparr>"

definition statistics_default :: statistics where
  "statistics_default =
     \<lparr>get_direct = 0, get_waited = 0, get_timed_out = 0, connections_created = 0,
      connections_closed_broken = 0, connections_closed_idle_timeout = 0,
      connections_closed_max_lifetime = 0, connections_closed_manual = 0, total_wait_time = 0\<rparr>"

definition state_add :: "pool_state \<Rightarrow> pool_state \<Rightarrow> pool_state" where
  "state_add a b =
     \<lparr>connections = connections a + connections b,
      idle_connections = idle_connections a + idle_connections b,
      pending_waiters = pending_waiters a + pending_waiters b\<rparr>"

definition statistics_add :: "statistics \<Rightarrow> statistics \<Rightarrow> statistics" where
  "statistics_add a b =
     \<lparr>get_direct = get_direct a + get_direct b,
      get_waited = get_waited a + get_waited b,
      get_timed_out = get_timed_out a + get_timed_out b,
      connections_created = connections_created a + connections_created b,
      connections_closed_broken = connections_closed_broken a + connections_closed_broken b,
      connections_closed_idle_timeout =
        connections_closed_idle_timeout a + connections_closed_idle_timeout b,
      connections_closed_max_lifetime =
        connections_closed_max_lifetime a + connections_closed_max_lifetime b,
      connections_closed_manual = connections_closed_manual a + connections_closed_manual b,
      total_wait_time = total_wait_time a + total_wait_time b\<rparr>"

text \<open>The divisor is \<open>get_waited as u32\<close>: the low half of the counter.\<close>

definition average_wait_time :: "statistics \<Rightarrow> duration" where
  "average_wait_time s =
     (case duration_checked_div (total_wait_time s) (ucast (get_waited s)) of
        None \<Rightarrow> 0 | Some d \<Rightarrow> d)"

section \<open>The block\<close>

record metrics =
  m_connections :: u32
  m_idle :: u32
  m_waiters :: u32
  m_get_direct :: u64
  m_get_waited :: u64
  m_get_timed_out :: u64
  m_created :: u64
  m_closed_broken :: u64
  m_closed_idle_timeout :: u64
  m_closed_max_lifetime :: u64
  m_closed_manual :: u64
  m_wait_micros :: u64

definition metrics_default :: metrics where
  "metrics_default =
     \<lparr>m_connections = 0, m_idle = 0, m_waiters = 0, m_get_direct = 0, m_get_waited = 0,
      m_get_timed_out = 0, m_created = 0, m_closed_broken = 0, m_closed_idle_timeout = 0,
      m_closed_max_lifetime = 0, m_closed_manual = 0, m_wait_micros = 0\<rparr>"

datatype expiry_reason = IdleTimeout | MaxLifetime

definition inc_conn :: "metrics \<Rightarrow> metrics" where
  "inc_conn m = m\<lparr>m_connections := m_connections m + 1\<rparr>"

definition dec_conn :: "u32 \<Rightarrow> metrics \<Rightarrow> metrics" where
  "dec_conn n m = m\<lparr>m_connections := saturating_sub (m_connections m) n\<rparr>"

definition inc_idle :: "metrics \<Rightarrow> metrics" where
  "inc_idle m = m\<lparr>m_idle := m_idle m + 1\<rparr>"

definition dec_idle :: "u32 \<Rightarrow> metrics \<Rightarrow> metrics" where
  "dec_idle n m = m\<lparr>m_idle := saturating_sub (m_idle m) n\<rparr>"

fun metrics_note_expired :: "expiry_reason \<Rightarrow> metrics \<Rightarrow> metrics" where
  "metrics_note_expired IdleTimeout m =
     m\<lparr>m_closed_idle_timeout := m_closed_idle_timeout m + 1\<rparr>"
| "metrics_note_expired MaxLifetime m =
     m\<lparr>m_closed_max_lifetime := m_closed_max_lifetime m + 1\<rparr>"

definition snapshot_state :: "metrics \<Rightarrow> pool_state" where
  "snapshot_state m =
     \<lparr>connections = m_connections m, idle_connections = m_idle m, pending_waiters = m_waiters m\<rparr>"

definition snapshot_statistics :: "metrics \<Rightarrow> statistics" where
  "snapshot_statistics m =
     \<lparr>get_direct = m_get_direct m, get_waited = m_get_waited m,
      get_timed_out = m_get_timed_out m, connections_created = m_created m,
      connections_closed_broken = m_closed_broken m,
      connections_closed_idle_timeout = m_closed_idle_timeout m,
      connections_closed_max_lifetime = m_closed_max_lifetime m,
      connections_closed_manual = m_closed_manual m,
      total_wait_time = from_micros (m_wait_micros m)\<rparr>"

text \<open>
  \<open>retire_into\<close>: each cumulative counter is swapped out (left at zero here) and added to the
  target. The result is the emptied block and the target; the gauges of neither move.
\<close>

definition retire_into :: "metrics \<Rightarrow> metrics \<Rightarrow> metrics \<times> metrics" where
  "retire_into self into =
     (self\<lparr>m_get_direct := 0, m_get_waited := 0, m_get_timed_out := 0, m_created := 0,
           m_closed_broken := 0, m_closed_idle_timeout := 0, m_closed_max_lifetime := 0,
           m_closed_manual := 0, m_wait_micros := 0\<rparr>,
      into\<lparr>m_get_direct := m_get_direct into + m_get_direct self,
           m_get_waited := m_get_waited into + m_get_waited self,
           m_get_timed_out := m_get_timed_out into + m_get_timed_out self,
           m_created := m_created into + m_created self,
           m_closed_broken := m_closed_broken into + m_closed_broken self,
           m_closed_idle_timeout := m_closed_idle_timeout into + m_closed_idle_timeout self,
           m_closed_max_lifetime := m_closed_max_lifetime into + m_closed_max_lifetime self,
           m_closed_manual := m_closed_manual into + m_closed_manual self,
           m_wait_micros := m_wait_micros into + m_wait_micros self\<rparr>)"

text \<open>\<open>Drop for Inner\<close> first zeroes the live gauges.\<close>

definition zero_gauges :: "metrics \<Rightarrow> metrics" where
  "zero_gauges m = m\<lparr>m_connections := 0, m_idle := 0, m_waiters := 0\<rparr>"

lemmas metrics_ops = inc_conn_def dec_conn_def inc_idle_def dec_idle_def zero_gauges_def

section \<open>Summing snapshots\<close>

locale snapshot_algebra =
  fixes add :: "'s \<Rightarrow> 's \<Rightarrow> 's" and zero :: 's
  assumes add_assoc: "add (add a b) c = add a (add b c)"
    and add_comm: "add a b = add b a"
    and add_zero: "add zero a = a"
begin

lemma foldl_shift: "foldl add (add a b) xs = add a (foldl add b xs)"
  by (induction xs arbitrary: b) (simp_all add: add_assoc)

lemma foldl_start: "foldl add a xs = add a (foldl add zero xs)"
  using foldl_shift [of a zero xs] by (simp add: add_comm [of a zero] add_zero)

lemma foldl_append_total:
  "foldl add a (xs @ ys) = add (foldl add a xs) (foldl add zero ys)"
  by (simp add: foldl_start [of "foldl add a xs" ys])

lemma foldl_move_out:
  "foldl add a (xs @ x # ys) = foldl add (add a x) (xs @ ys)"
proof -
  have "foldl add (add a x) xs = add x (foldl add a xs)"
    using foldl_shift [of x a xs] by (simp add: add_comm [of a x])
  then show ?thesis by (simp add: add_comm [of _ x])
qed

lemma foldl_skip_zero: "foldl add a (xs @ zero # ys) = foldl add a (xs @ ys)"
  by (simp only: foldl_move_out add_comm [of a zero] add_zero)

end

lemma state_add_assoc: "state_add (state_add a b) c = state_add a (state_add b c)"
  by (simp add: state_add_def add.assoc)

lemma state_add_comm: "state_add a b = state_add b a"
  by (simp add: state_add_def add.commute)

lemma state_add_default: "state_add state_default a = a"
  by (simp add: state_add_def state_default_def)

interpretation states: snapshot_algebra state_add state_default
  by unfold_locales (rule state_add_assoc state_add_comm state_add_default)+

lemma statistics_add_assoc:
  "statistics_add (statistics_add a b) c = statistics_add a (statistics_add b c)"
  by (simp add: statistics_add_def add.assoc)

lemma statistics_add_comm: "statistics_add a b = statistics_add b a"
  by (simp add: statistics_add_def add.commute)

lemma statistics_add_default: "statistics_add statistics_default a = a"
  by (simp add: statistics_add_def statistics_default_def)

interpretation stats: snapshot_algebra statistics_add statistics_default
  by unfold_locales (rule statistics_add_assoc statistics_add_comm statistics_add_default)+

section \<open>Facts about the block\<close>

lemma retire_into_empties: "snapshot_statistics (fst (retire_into self into)) = statistics_default"
  by (simp add: retire_into_def snapshot_statistics_def statistics_default_def from_micros_def)

lemma retire_into_keeps_gauges:
  "snapshot_state (fst (retire_into self into)) = snapshot_state self"
  "snapshot_state (snd (retire_into self into)) = snapshot_state into"
  by (simp_all add: retire_into_def snapshot_state_def)

text \<open>The wait-time counter is the only one whose snapshot is not additive under wrap-around.\<close>

lemma from_micros_add:
  "unat a + unat b < 2 ^ 64 \<Longrightarrow> from_micros (a + b) = from_micros a + from_micros b"
  by (simp add: from_micros_def unat_word_ariths distrib_right)

lemma retire_into_adds:
  assumes "unat (m_wait_micros into) + unat (m_wait_micros self) < 2 ^ 64"
  shows "snapshot_statistics (snd (retire_into self into))
    = statistics_add (snapshot_statistics into) (snapshot_statistics self)"
  using from_micros_add [OF assms]
  by (simp add: retire_into_def snapshot_statistics_def statistics_add_def)

lemma zero_gauges_state: "snapshot_state (zero_gauges m) = state_default"
  by (simp add: zero_gauges_def snapshot_state_def state_default_def)

lemma zero_gauges_statistics: "snapshot_statistics (zero_gauges m) = snapshot_statistics m"
  by (simp add: zero_gauges_def snapshot_statistics_def)

lemma average_wait_time_ucast:
  "unat (get_waited s) < 2 ^ 32 \<Longrightarrow> unat (ucast (get_waited s) :: u32) = unat (get_waited s)"
  by (simp add: unsigned_ucast_eq unsigned_take_bit_eq take_bit_nat_eq_self)

end
