(* ===== verification/Waiters.thy ===== *)
theory Waiters
  imports Metrics "HOL-Library.Multiset"
begin

text \<open>
  \<open>struct Waiters\<close> of \<open>src/src/pool.rs\<close>: the FIFO of tasks parked in \<open>get\<close>.

  A waker is a value of type \<open>'w\<close>; two wakers \<open>will_wake\<close> the same task when they are equal.
  Calling \<open>waker.wake()\<close> hands the task to the executor, so \<open>woken_log\<close> records the calls in
  the order they are made. \<open>Waiters\<close> and \<open>Inner\<close> hold clones of one \<open>Arc<Metrics>\<close>; the
  model stores that block once, here. It is \<open>None\<close> in a build without the \<open>metrics\<close> feature,
  where every write to it compiles to nothing.

  The locale \<open>wake_queue\<close> states what the pool relies on: a queue of tickets, each handed out
  once, that a wake takes from the front and a withdrawal from anywhere. Its \<open>ledger\<close> lemmas
  account for every ticket a parked task holds: it is queued, or it was woken and not acted on yet.
\<close>

section \<open>The queue\<close>

record 'w waiters =
  w_metrics :: "metrics option"
  next_id :: u64
  woken_upto :: u64
  entries :: "(u64 \<times> 'w) list"
  woken_log :: "'w list"

definition waiters_new :: "metrics option \<Rightarrow> 'w waiters" where
  "waiters_new m =
     \<lparr>w_metrics = m, next_id = 1, woken_upto = 0, entries = [], woken_log = []\<rparr>"

definition waiters_len :: "'w waiters \<Rightarrow> u32" where
  "waiters_len q = as_u32 (length (entries q))"

definition on_metrics :: "(metrics \<Rightarrow> metrics) \<Rightarrow> 'w waiters \<Rightarrow> 'w waiters" where
  "on_metrics f q = q\<lparr>w_metrics := map_option f (w_metrics q)\<rparr>"

definition mirror :: "nat \<Rightarrow> 'w waiters \<Rightarrow> 'w waiters" where
  "mirror len q = on_metrics (\<lambda>m. m\<lparr>m_waiters := as_u32 len\<rparr>) q"

text \<open>Where \<open>wid\<close> is still queued: the guards of \<open>register\<close>'s \<open>if let\<close> chain.\<close>

definition queued_at :: "u64 option \<Rightarrow> 'w waiters \<Rightarrow> nat option" where
  "queued_at wid q =
     (case wid of
        None \<Rightarrow> None
      | Some existing \<Rightarrow>
          if existing > woken_upto q
          then (case binary_search_by_key (entries q) existing fst of
                  Inr pos \<Rightarrow> Some pos
                | Inl _ \<Rightarrow> None)
          else None)"

definition register :: "u64 option \<Rightarrow> 'w \<Rightarrow> 'w waiters \<Rightarrow> u64 option \<times> 'w waiters" where
  "register wid waker q =
     (case queued_at wid q of
        Some pos \<Rightarrow>
          let entry = entries q ! pos
          in (wid, if snd entry = waker then q
                  else q\<lparr>entries := (entries q)[pos := (fst entry, waker)]\<rparr>)
      | None \<Rightarrow>
          let new_id = next_id q;
              q1 = q\<lparr>next_id := new_id + 1, entries := entries q @ [(new_id, waker)]\<rparr>
          in (Some new_id, mirror (length (entries q1)) q1))"

definition unregister :: "u64 \<Rightarrow> 'w waiters \<Rightarrow> bool \<times> 'w waiters" where
  "unregister wid q =
     (if wid \<le> woken_upto q then (False, q)
      else case binary_search_by_key (entries q) wid fst of
             Inr pos \<Rightarrow>
               let q1 = q\<lparr>entries := vec_remove pos (entries q)\<rparr>
               in (True, mirror (length (entries q1)) q1)
           | Inl _ \<Rightarrow> (False, q))"

fun wake_loop :: "nat \<Rightarrow> 'w waiters \<Rightarrow> 'w waiters" where
  "wake_loop 0 q = q"
| "wake_loop (Suc k) q =
     (case pop_front (entries q) of
        (None, _) \<Rightarrow> q
      | (Some (wid, waker), rest) \<Rightarrow>
          let q1 = mirror (length rest) (q\<lparr>entries := rest\<rparr>)
          in wake_loop k (q1\<lparr>woken_upto := wid, woken_log := woken_log q1 @ [waker]\<rparr>))"

definition wake :: "u32 \<Rightarrow> 'w waiters \<Rightarrow> 'w waiters" where
  "wake n q = wake_loop (unat n) q"

text \<open>\<open>u32::try_from(queued).unwrap_or(u32::MAX)\<close>.\<close>

definition wake_all :: "'w waiters \<Rightarrow> 'w waiters" where
  "wake_all q =
     (let queued = length (entries q)
      in wake (if queued < 2 ^ 32 then as_u32 queued else - 1) q)"

lemma on_metrics_sel [simp]:
  "w_metrics (on_metrics f q) = map_option f (w_metrics q)"
  "next_id (on_metrics f q) = next_id q"
  "woken_upto (on_metrics f q) = woken_upto q"
  "entries (on_metrics f q) = entries q"
  "woken_log (on_metrics f q) = woken_log q"
  by (simp_all add: on_metrics_def)

lemma mirror_sel [simp]:
  "w_metrics (mirror n q) = map_option (\<lambda>m. m\<lparr>m_waiters := as_u32 n\<rparr>) (w_metrics q)"
  "next_id (mirror n q) = next_id q"
  "woken_upto (mirror n q) = woken_upto q"
  "entries (mirror n q) = entries q"
  "woken_log (mirror n q) = woken_log q"
  by (simp_all add: mirror_def)

section \<open>The queue's invariant\<close>

definition ticket_ids :: "'w waiters \<Rightarrow> u64 list" where
  "ticket_ids q = map fst (entries q)"

definition was_woken :: "'w waiters \<Rightarrow> u64 \<Rightarrow> bool" where
  "was_woken q wid \<longleftrightarrow> wid \<le> woken_upto q"

definition id_room :: "'w waiters \<Rightarrow> bool" where
  "id_room q \<longleftrightarrow> unat (next_id q) + 1 < 2 ^ 64"

definition queue_inv :: "'w waiters \<Rightarrow> bool" where
  "queue_inv q \<longleftrightarrow>
     sorted_wrt (<) (ticket_ids q) \<and>
     (\<forall>wid \<in> set (ticket_ids q). woken_upto q < wid \<and> wid < next_id q) \<and>
     woken_upto q < next_id q"

text \<open>The gauge another thread reads is the length of the queue.\<close>

definition waiters_mirrored :: "'w waiters \<Rightarrow> bool" where
  "waiters_mirrored q \<longleftrightarrow>
     (case w_metrics q of None \<Rightarrow> True | Some m \<Rightarrow> m_waiters m = waiters_len q)"

lemma queue_inv_new: "queue_inv (waiters_new m)"
  by (simp add: queue_inv_def waiters_new_def ticket_ids_def)

lemma queue_inv_cong:
  "ticket_ids q' = ticket_ids q \<Longrightarrow> woken_upto q' = woken_upto q \<Longrightarrow> next_id q' = next_id q \<Longrightarrow>
   queue_inv q' = queue_inv q"
  by (simp add: queue_inv_def)

lemma queue_inv_distinct: "queue_inv q \<Longrightarrow> distinct (ticket_ids q)"
  by (auto simp: queue_inv_def strict_sorted_iff)

lemma queue_inv_sorted: "queue_inv q \<Longrightarrow> sorted (map fst (entries q))"
  by (auto simp: queue_inv_def strict_sorted_iff ticket_ids_def)

lemma ticket_ids_on_metrics [simp]: "ticket_ids (on_metrics f q) = ticket_ids q"
  by (simp add: ticket_ids_def)

lemma was_woken_on_metrics [simp]: "was_woken (on_metrics f q) = was_woken q"
  by (simp add: was_woken_def fun_eq_iff)

lemma queue_inv_on_metrics [simp]: "queue_inv (on_metrics f q) = queue_inv q"
  by (rule queue_inv_cong) simp_all

lemma length_ticket_ids: "length (ticket_ids q) = length (entries q)"
  by (simp add: ticket_ids_def)

lemma queued_at_Some:
  assumes "queue_inv q" and "wid \<in> set (ticket_ids q)"
  obtains pos where "queued_at (Some wid) q = Some pos" and "pos < length (entries q)"
    and "fst (entries q ! pos) = wid"
proof -
  from assms have "woken_upto q < wid" by (auto simp: queue_inv_def)
  moreover obtain pos where "binary_search_by_key (entries q) wid fst = Inr pos"
    and "pos < length (entries q)" and "fst (entries q ! pos) = wid"
    using binary_search_hit [OF queue_inv_sorted [OF assms(1)]] assms(2)
    unfolding ticket_ids_def by blast
  ultimately show thesis using that by (simp add: queued_at_def)
qed

lemma queued_at_None:
  assumes "\<And>i. wid = Some i \<Longrightarrow> i \<notin> set (ticket_ids q)"
  shows "queued_at wid q = None"
proof (cases wid)
  case (Some i)
  have "binary_search_by_key (entries q) i fst \<noteq> Inr pos" for pos
    using binary_search_found [of "entries q" i fst pos] assms [OF Some]
    by (auto simp: ticket_ids_def)
  with Some show ?thesis by (auto simp: queued_at_def split: sum.splits)
qed (simp add: queued_at_def)

lemma register_queued:
  assumes "queue_inv q" and "wid \<in> set (ticket_ids q)"
  shows "fst (register (Some wid) waker q) = Some wid"
    and "ticket_ids (snd (register (Some wid) waker q)) = ticket_ids q"
    and "was_woken (snd (register (Some wid) waker q)) = was_woken q"
    and "queue_inv (snd (register (Some wid) waker q))"
    and "next_id (snd (register (Some wid) waker q)) = next_id q"
proof -
  obtain pos where pos: "queued_at (Some wid) q = Some pos" "pos < length (entries q)"
    "fst (entries q ! pos) = wid"
    using queued_at_Some [OF assms] by blast
  let ?q = "snd (register (Some wid) waker q)"
  show "fst (register (Some wid) waker q) = Some wid"
    by (simp add: register_def pos Let_def)
  show ids: "ticket_ids ?q = ticket_ids q"
    using pos list_update_id [of "map fst (entries q)" pos]
    by (simp add: register_def ticket_ids_def map_update Let_def)
  show "was_woken ?q = was_woken q"
    by (auto simp: register_def pos was_woken_def fun_eq_iff Let_def)
  show "next_id ?q = next_id q"
    by (auto simp: register_def pos Let_def)
  show "queue_inv ?q"
    using assms(1) ids by (auto simp: queue_inv_def register_def pos Let_def)
qed

lemma register_new:
  assumes "queue_inv q" and "id_room q" and "\<And>i. wid = Some i \<Longrightarrow> i \<notin> set (ticket_ids q)"
  shows "fst (register wid waker q) = Some (next_id q)"
    and "ticket_ids (snd (register wid waker q)) = ticket_ids q @ [next_id q]"
    and "was_woken (snd (register wid waker q)) = was_woken q"
    and "\<not> was_woken q (next_id q)"
    and "queue_inv (snd (register wid waker q))"
proof -
  have none: "queued_at wid q = None" using assms(3) by (rule queued_at_None)
  have step: "next_id q < next_id q + 1"
    using assms(2) unat_add_lem [of "next_id q" 1]
    by (simp add: id_room_def word_less_nat_alt)
  let ?q = "snd (register wid waker q)"
  show "fst (register wid waker q) = Some (next_id q)"
    by (simp add: register_def none Let_def)
  show ids: "ticket_ids ?q = ticket_ids q @ [next_id q]"
    by (simp add: register_def none Let_def ticket_ids_def)
  show "was_woken ?q = was_woken q"
    by (simp add: register_def none Let_def was_woken_def fun_eq_iff)
  show "\<not> was_woken q (next_id q)"
    using assms(1) by (auto simp: queue_inv_def was_woken_def)
  have sel: "next_id ?q = next_id q + 1" "woken_upto ?q = woken_upto q"
    by (simp_all add: register_def none Let_def)
  show "queue_inv ?q"
    unfolding queue_inv_def ids sel using assms(1) step
    by (auto simp: queue_inv_def sorted_wrt_append intro: less_trans)
qed

lemma unregister_queued:
  assumes "queue_inv q" and "wid \<in> set (ticket_ids q)"
  shows "fst (unregister wid q)"
    and "mset (ticket_ids (snd (unregister wid q))) = mset (ticket_ids q) - {#wid#}"
    and "was_woken (snd (unregister wid q)) = was_woken q"
    and "queue_inv (snd (unregister wid q))"
    and "next_id (snd (unregister wid q)) = next_id q"
proof -
  obtain pos where pos: "queued_at (Some wid) q = Some pos" "pos < length (entries q)"
    "fst (entries q ! pos) = wid"
    using queued_at_Some [OF assms] by blast
  then have srch: "binary_search_by_key (entries q) wid fst = Inr pos" and gt: "\<not> wid \<le> woken_upto q"
    by (auto simp: queued_at_def split: if_splits sum.splits)
  let ?q = "snd (unregister wid q)"
  have ids: "ticket_ids ?q = vec_remove pos (ticket_ids q)"
    using gt by (simp add: unregister_def srch Let_def ticket_ids_def map_vec_remove)
  have split: "ticket_ids q = take pos (ticket_ids q) @ wid # drop (Suc pos) (ticket_ids q)"
    using id_take_nth_drop [of pos "ticket_ids q"] pos by (simp add: ticket_ids_def)
  show "fst (unregister wid q)" using gt by (simp add: unregister_def srch Let_def)
  have "mset (ticket_ids q) = add_mset wid (mset (vec_remove pos (ticket_ids q)))"
    by (subst split) (simp add: vec_remove_def)
  then show "mset (ticket_ids ?q) = mset (ticket_ids q) - {#wid#}"
    by (simp add: ids)
  show "was_woken ?q = was_woken q"
    using gt by (simp add: unregister_def srch Let_def was_woken_def fun_eq_iff)
  show nxt: "next_id ?q = next_id q"
    using gt by (simp add: unregister_def srch Let_def)
  have "woken_upto ?q = woken_upto q"
    using gt by (simp add: unregister_def srch Let_def)
  moreover have "set (vec_remove pos (ticket_ids q)) \<subseteq> set (ticket_ids q)"
    by (auto simp: vec_remove_def dest: in_set_takeD in_set_dropD)
  ultimately show "queue_inv ?q"
    using assms(1) by (auto simp: queue_inv_def ids nxt subseq_vec_remove)
qed

text \<open>A withdrawal leaves the others in their order and wakes nobody.\<close>

lemma vec_remove_distinct:
  assumes "i < length xs" and "distinct xs"
  shows "vec_remove i xs = filter (\<lambda>x. x \<noteq> xs ! i) xs"
proof -
  have xs: "xs = take i xs @ xs ! i # drop (Suc i) xs" using assms(1) by (rule id_take_nth_drop)
  then have "distinct (take i xs @ xs ! i # drop (Suc i) xs)" using assms(2) by simp
  then have "filter (\<lambda>x. x \<noteq> xs ! i) (take i xs) = take i xs"
    and "filter (\<lambda>x. x \<noteq> xs ! i) (drop (Suc i) xs) = drop (Suc i) xs"
    by (auto intro!: filter_True)
  then have "filter (\<lambda>x. x \<noteq> xs ! i) (take i xs @ xs ! i # drop (Suc i) xs) = vec_remove i xs"
    by (simp add: vec_remove_def)
  then show ?thesis using xs by simp
qed

lemma unregister_order:
  assumes "queue_inv q" and "wid \<in> set (ticket_ids q)"
  shows "\<exists>q'. unregister wid q = (True, q') \<and> ticket_ids q' = filter (\<lambda>j. j \<noteq> wid) (ticket_ids q)
    \<and> woken_log q' = woken_log q"
proof -
  obtain pos where pos: "queued_at (Some wid) q = Some pos" "pos < length (entries q)"
    "fst (entries q ! pos) = wid"
    using queued_at_Some [OF assms] by blast
  then have srch: "binary_search_by_key (entries q) wid fst = Inr pos" and gt: "\<not> wid \<le> woken_upto q"
    by (auto simp: queued_at_def split: if_splits sum.splits)
  have "vec_remove pos (ticket_ids q) = filter (\<lambda>j. j \<noteq> wid) (ticket_ids q)"
    using vec_remove_distinct [of pos "ticket_ids q"] queue_inv_distinct [OF assms(1)] pos
    by (simp add: ticket_ids_def)
  then show ?thesis
    using gt by (simp add: unregister_def srch Let_def ticket_ids_def map_vec_remove)
qed

lemma unregister_absent:
  assumes "wid \<notin> set (ticket_ids q)"
  shows "unregister wid q = (False, q)"
proof -
  have "binary_search_by_key (entries q) wid fst \<noteq> Inr pos" for pos
    using binary_search_found [of "entries q" wid fst pos] assms by (auto simp: ticket_ids_def)
  then show ?thesis by (auto simp: unregister_def split: sum.splits)
qed

section \<open>Waking\<close>

lemma wake_loop_entries: "entries (wake_loop k q) = drop k (entries q)"
proof (induction k arbitrary: q)
  case (Suc k)
  show ?case
    by (cases "entries q") (auto simp: Suc.IH Let_def split: prod.splits)
qed simp

lemma wake_loop_log: "woken_log (wake_loop k q) = woken_log q @ map snd (take k (entries q))"
proof (induction k arbitrary: q)
  case (Suc k)
  show ?case
    by (cases "entries q") (auto simp: Suc.IH Let_def split: prod.splits)
qed simp

lemma wake_loop_next_id [simp]: "next_id (wake_loop k q) = next_id q"
proof (induction k arbitrary: q)
  case (Suc k)
  show ?case
    by (cases "entries q") (auto simp: Suc.IH Let_def split: prod.splits)
qed simp

lemma wake_loop_woken_upto:
  "woken_upto (wake_loop k q) = last (woken_upto q # map fst (take k (entries q)))"
proof (induction k arbitrary: q)
  case (Suc k)
  show ?case
    by (cases "entries q") (auto simp: Suc.IH Let_def split: prod.splits)
qed simp

lemma wake_loop_add: "wake_loop (j + k) q = wake_loop k (wake_loop j q)"
proof (induction j arbitrary: q)
  case (Suc j)
  have empty: "wake_loop k q = q" if "entries q = []" for k
    using that by (cases k) simp_all
  show ?case
    by (cases "entries q") (auto simp: Suc.IH Let_def empty split: prod.splits)
qed simp

lemma wake_loop_woken_upto_ids:
  "woken_upto (wake_loop k q) = last (woken_upto q # take k (ticket_ids q))"
  by (simp add: wake_loop_woken_upto ticket_ids_def take_map)

lemma wake_loop_ids: "ticket_ids (wake_loop k q) = drop k (ticket_ids q)"
  by (simp add: ticket_ids_def wake_loop_entries drop_map)

text \<open>In an ordered queue a wake marks exactly the tickets it takes off the front.\<close>

lemma wake_loop_was_woken:
  assumes "queue_inv q" and "i \<in> set (ticket_ids q)"
  shows "was_woken (wake_loop k q) i \<longleftrightarrow> i \<in> set (take k (ticket_ids q))"
proof -
  let ?front = "take k (ticket_ids q)" and ?tail = "drop k (ticket_ids q)"
  have sep: "\<forall>x \<in> set ?front. \<forall>y \<in> set ?tail. x < y"
    and srt: "sorted_wrt (<) ?front"
    using assms(1) sorted_wrt_append [of "(<)" ?front ?tail]
    by (simp_all add: queue_inv_def)
  note upto = wake_loop_woken_upto_ids [of k q]
  show ?thesis
  proof (cases "?front = []")
    case True
    then have "woken_upto (wake_loop k q) = woken_upto q" by (simp add: upto del: take_eq_Nil)
    moreover have "i \<notin> set ?front" using True by (simp del: take_eq_Nil)
    ultimately show ?thesis using assms by (auto simp: was_woken_def queue_inv_def)
  next
    case False
    then have last_in: "last ?front \<in> set ?front" by simp
    have le_last: "x \<le> last ?front" if "x \<in> set ?front" for x
      using srt that by (rule strict_sorted_le_last)
    have "i \<in> set ?front \<or> i \<in> set ?tail"
      using assms(2) by (metis Un_iff append_take_drop_id set_append)
    moreover have "\<not> i \<le> last ?front" if "i \<in> set ?tail"
      using sep last_in that by (meson leD)
    ultimately show ?thesis
      using False le_last sep unfolding was_woken_def upto by auto
  qed
qed

lemma wake_loop_was_woken_mono:
  assumes "queue_inv q" and "was_woken q i"
  shows "was_woken (wake_loop k q) i"
proof -
  have "woken_upto q \<le> woken_upto (wake_loop k q)"
    using assms(1) last_Cons_take [of "woken_upto q" k "ticket_ids q"]
    unfolding wake_loop_woken_upto_ids queue_inv_def by auto
  with assms(2) show ?thesis
    by (auto simp: was_woken_def)
qed

lemma wake_loop_inv:
  assumes "queue_inv q"
  shows "queue_inv (wake_loop k q)"
proof -
  let ?q = "wake_loop k q"
  have "was_woken ?q i \<longleftrightarrow> False" if "i \<in> set (drop k (ticket_ids q))" for i
  proof -
    have "i \<notin> set (take k (ticket_ids q))"
      using queue_inv_distinct [OF assms] that
      by (metis IntI append_take_drop_id distinct_append empty_iff)
    then show ?thesis
      using wake_loop_was_woken [OF assms] in_set_dropD [OF that] by blast
  qed
  then have above: "\<forall>i \<in> set (ticket_ids ?q). woken_upto ?q < i"
    by (auto simp: wake_loop_ids was_woken_def not_le)
  have "woken_upto ?q < next_id q"
    using assms last_Cons_take [of "woken_upto q" k "ticket_ids q"]
    unfolding wake_loop_woken_upto_ids queue_inv_def by auto
  with above show ?thesis
    using assms by (auto simp: queue_inv_def wake_loop_ids sorted_wrt_drop dest: in_set_dropD)
qed

lemma wake_entries: "entries (wake n q) = drop (unat n) (entries q)"
  by (simp add: wake_def wake_loop_entries)

lemma wake_next_id [simp]: "next_id (wake n q) = next_id q"
  by (simp add: wake_def)

lemma wake_log: "woken_log (wake n q) = woken_log q @ map snd (take (unat n) (entries q))"
  by (simp add: wake_def wake_loop_log)

lemma wake_all_entries: "length (entries q) < 2 ^ 32 \<Longrightarrow> entries (wake_all q) = []"
  by (simp add: wake_all_def wake_entries rust_simps)

lemma wake_all_log:
  "length (entries q) < 2 ^ 32 \<Longrightarrow> woken_log (wake_all q) = woken_log q @ map snd (entries q)"
  by (simp add: wake_all_def wake_def wake_loop_log rust_simps)

lemma wake_all_next_id [simp]: "next_id (wake_all q) = next_id q"
  by (simp add: wake_all_def Let_def)

lemma wake_all_eq_wake_loop:
  "\<exists>k. wake_all q = wake_loop k q"
  by (auto simp: wake_all_def wake_def Let_def)

section \<open>The gauge\<close>

lemma waiters_mirrored_new: "waiters_mirrored (waiters_new (Some metrics_default))"
  by (simp add: waiters_mirrored_def waiters_new_def metrics_default_def waiters_len_def)

lemma waiters_mirrored_mirror: "waiters_mirrored (mirror (length (entries q)) q)"
  by (simp add: waiters_mirrored_def waiters_len_def split: option.split)

lemma waiters_mirrored_cong:
  "entries q' = entries q \<Longrightarrow> map_option m_waiters (w_metrics q') = map_option m_waiters (w_metrics q)
   \<Longrightarrow> waiters_mirrored q' = waiters_mirrored q"
  by (auto simp: waiters_mirrored_def waiters_len_def split: option.splits)

lemma wake_loop_mirrored: "waiters_mirrored q \<Longrightarrow> waiters_mirrored (wake_loop k q)"
proof (induction k arbitrary: q)
  case (Suc k)
  show ?case
  proof (cases "entries q")
    case Nil
    with Suc.prems show ?thesis by simp
  next
    case (Cons e es)
    obtain wid waker where e: "e = (wid, waker)" by (cases e)
    have "waiters_mirrored ((mirror (length es) (q\<lparr>entries := es\<rparr>))
        \<lparr>woken_upto := wid, woken_log := woken_log q @ [waker]\<rparr>)"
      using waiters_mirrored_mirror [of "q\<lparr>entries := es\<rparr>"]
      by (auto simp: waiters_mirrored_def waiters_len_def split: option.splits)
    with Suc.IH Cons e show ?thesis by (simp add: Let_def)
  qed
qed simp

lemma register_mirrored: "waiters_mirrored q \<Longrightarrow> waiters_mirrored (snd (register i waker q))"
  by (auto simp: register_def Let_def waiters_mirrored_def waiters_len_def
      split: option.splits prod.splits)

lemma unregister_mirrored: "waiters_mirrored q \<Longrightarrow> waiters_mirrored (snd (unregister i q))"
  by (auto simp: unregister_def Let_def waiters_mirrored_def waiters_len_def
      split: option.splits sum.splits)

section \<open>The contract of a wake queue\<close>

text \<open>
  What the pool relies on. \<open>ids\<close> are the tickets queued, oldest first; \<open>woken q i\<close> says
  that ticket \<open>i\<close> has been taken off by a wake; \<open>room\<close> that another ticket can be issued.
\<close>

locale wake_queue =
  fixes ids :: "'q \<Rightarrow> u64 list"
    and woken :: "'q \<Rightarrow> u64 \<Rightarrow> bool"
    and invar :: "'q \<Rightarrow> bool"
    and room :: "'q \<Rightarrow> bool"
    and reg :: "u64 option \<Rightarrow> 'w \<Rightarrow> 'q \<Rightarrow> u64 option \<times> 'q"
    and unreg :: "u64 \<Rightarrow> 'q \<Rightarrow> bool \<times> 'q"
    and wk :: "nat \<Rightarrow> 'q \<Rightarrow> 'q"
  assumes ids_distinct: "invar q \<Longrightarrow> distinct (ids q)"
    and queued_not_woken: "invar q \<Longrightarrow> i \<in> set (ids q) \<Longrightarrow> \<not> woken q i"
    and reg_keeps: "invar q \<Longrightarrow> i \<in> set (ids q) \<Longrightarrow>
      \<exists>q'. reg (Some i) w q = (Some i, q') \<and> invar q' \<and> ids q' = ids q \<and> woken q' = woken q"
    and reg_issues: "invar q \<Longrightarrow> room q \<Longrightarrow> (\<And>i. t = Some i \<Longrightarrow> i \<notin> set (ids q)) \<Longrightarrow>
      \<exists>i q'. reg t w q = (Some i, q') \<and> invar q' \<and> ids q' = ids q @ [i] \<and>
        \<not> woken q i \<and> woken q' = woken q"
    and unreg_queued: "invar q \<Longrightarrow> i \<in> set (ids q) \<Longrightarrow>
      \<exists>q'. unreg i q = (True, q') \<and> invar q' \<and> mset (ids q') = mset (ids q) - {#i#} \<and>
        woken q' = woken q"
    and unreg_gone: "i \<notin> set (ids q) \<Longrightarrow> unreg i q = (False, q)"
    and wk_invar: "invar q \<Longrightarrow> invar (wk k q)"
    and wk_ids: "ids (wk k q) = drop k (ids q)"
    and wk_marks: "invar q \<Longrightarrow> i \<in> set (ids q) \<Longrightarrow> woken (wk k q) i \<longleftrightarrow> i \<in> set (take k (ids q))"
    and wk_mono: "invar q \<Longrightarrow> woken q i \<Longrightarrow> woken (wk k q) i"
begin

text \<open>
  The ledger of the tickets \<open>T\<close> that parked tasks hold: those not woken are exactly the queue.
\<close>

definition ledger :: "'q \<Rightarrow> u64 multiset \<Rightarrow> bool" where
  "ledger q T \<longleftrightarrow> mset (ids q) = {#i \<in># T. \<not> woken q i#}"

definition outstanding :: "'q \<Rightarrow> u64 multiset \<Rightarrow> nat" where
  "outstanding q T = size {#i \<in># T. woken q i#}"

lemma ledger_size: "ledger q T \<Longrightarrow> size T = length (ids q) + outstanding q T"
proof -
  have "size T = size {#i \<in># T. woken q i#} + size {#i \<in># T. \<not> woken q i#}"
    by (metis multiset_partition size_union)
  moreover assume "ledger q T"
  then have "length (ids q) = size {#i \<in># T. \<not> woken q i#}"
    by (metis ledger_def size_mset)
  ultimately show ?thesis by (simp add: outstanding_def)
qed

lemma ledger_cases:
  assumes "ledger q T" and "i \<in># T"
  shows "i \<in> set (ids q) \<or> woken q i"
proof (cases "woken q i")
  case False
  with assms(2) have "i \<in># {#i \<in># T. \<not> woken q i#}" by simp
  with assms(1) show ?thesis by (metis ledger_def set_mset_mset)
qed simp

lemma ledger_wake:
  assumes "invar q" and "ledger q T"
  shows "ledger (wk k q) T"
proof -
  have "i \<in> set (ids q)" if "i \<in># T" "\<not> woken q i" for i
    using ledger_cases [OF assms(2) that(1)] that(2) by simp
  then have "\<not> woken (wk k q) i \<longleftrightarrow> \<not> woken q i \<and> i \<notin> set (take k (ids q))" if "i \<in># T" for i
    using that wk_marks [OF assms(1)] wk_mono [OF assms(1)]
      queued_not_woken [OF assms(1)] in_set_takeD by metis
  then have "{#i \<in># T. \<not> woken (wk k q) i#}
      = {#i \<in># {#i \<in># T. \<not> woken q i#}. i \<notin> set (take k (ids q))#}"
    by (auto simp: filter_filter_mset intro: filter_mset_cong)
  also have "\<dots> = mset (filter (\<lambda>i. i \<notin> set (take k (ids q))) (ids q))"
    using assms(2) by (simp add: ledger_def mset_filter)
  also have "filter (\<lambda>i. i \<notin> set (take k (ids q))) (ids q) = drop k (ids q)"
    using ids_distinct [OF assms(1)] by (rule filter_not_in_take)
  finally show ?thesis by (simp add: ledger_def wk_ids)
qed

lemma outstanding_wake:
  assumes "invar q" and "ledger q T"
  shows "outstanding (wk k q) T = outstanding q T + min k (length (ids q))"
  using ledger_size [OF assms(2)] ledger_size [OF ledger_wake [OF assms, of k]]
  by (simp add: wk_ids)

lemma ledger_issue:
  assumes "ledger q T" and "\<not> woken q i" and "ids q' = ids q @ [i]" and "woken q' = woken q"
  shows "ledger q' (add_mset i T)" and "outstanding q' (add_mset i T) = outstanding q T"
  using assms by (simp_all add: ledger_def outstanding_def)

lemma ledger_drop_woken:
  assumes "ledger q (add_mset i T)" and "woken q i"
  shows "ledger q T" and "outstanding q (add_mset i T) = Suc (outstanding q T)"
  using assms by (simp_all add: ledger_def outstanding_def)

lemma ledger_withdraw:
  assumes "ledger q (add_mset i T)" and "\<not> woken q i"
    and "mset (ids q') = mset (ids q) - {#i#}" and "woken q' = woken q"
  shows "ledger q' T" and "outstanding q' T = outstanding q (add_mset i T)"
  using assms by (simp_all add: ledger_def outstanding_def)

end

lemma register_issues:
  assumes "queue_inv q" and "id_room q" and "\<And>i. t = Some i \<Longrightarrow> i \<notin> set (ticket_ids q)"
  shows "\<exists>i q'. register t w q = (Some i, q') \<and> queue_inv q' \<and> ticket_ids q' = ticket_ids q @ [i] \<and>
    \<not> was_woken q i \<and> was_woken q' = was_woken q"
  using register_new [OF assms] by (metis prod.collapse)

lemma unregister_withdraws:
  assumes "queue_inv q" and "i \<in> set (ticket_ids q)"
  shows "\<exists>q'. unregister i q = (True, q') \<and> queue_inv q' \<and>
    mset (ticket_ids q') = mset (ticket_ids q) - {#i#} \<and> was_woken q' = was_woken q"
  using unregister_queued [OF assms] by (metis prod.collapse)

lemma register_refreshes:
  assumes "queue_inv q" and "i \<in> set (ticket_ids q)"
  shows "\<exists>q'. register (Some i) w q = (Some i, q') \<and> queue_inv q' \<and> ticket_ids q' = ticket_ids q \<and>
    was_woken q' = was_woken q"
  using register_queued [OF assms] by (metis prod.collapse)

lemma queue_inv_not_woken: "queue_inv q \<Longrightarrow> i \<in> set (ticket_ids q) \<Longrightarrow> \<not> was_woken q i"
  by (auto simp: queue_inv_def was_woken_def)

lemmas wake_queue_laws = queue_inv_distinct queue_inv_not_woken register_refreshes register_issues
  unregister_withdraws unregister_absent wake_loop_inv wake_loop_ids wake_loop_was_woken
  wake_loop_was_woken_mono

interpretation wq: wake_queue ticket_ids was_woken queue_inv id_room register unregister wake_loop
  by unfold_locales (fact wake_queue_laws)+

end
