(* ===== verification/Local_Pool.thy ===== *)
theory Local_Pool
  imports Builder Waiters
begin

text \<open>
  One thread's pool, the synchronous half of \<open>src/src/pool.rs\<close>: \<open>Conn\<close>, \<open>expiry\<close>,
  \<open>Inner\<close>, \<open>Held\<close>, \<open>PooledConnection\<close>, \<open>WaitReady\<close>, and the operations \<open>reap\<close>,
  \<open>clear\<close>, \<open>try_reserve\<close>, \<open>pop_fresh_idle\<close>, \<open>ready_now\<close>. The asynchronous
  operations, which run these between two suspension points, are in \<open>Tasks\<close>.

  Operations take the shared half (\<open>Arc<Shared>\<close>: the configuration and the shutdown flag) as an
  argument and pass \<open>Inner\<close> along. A call of \<open>Instant::now()\<close> is an argument; a guard's
  \<open>Drop\<close> is an operation of its own that its owner's exit runs.
\<close>

section \<open>Data\<close>

record shared =
  conf :: pool_config
  closed :: bool

record 'c conn =
  raw :: 'c
  created_at :: instant
  last_used :: instant

record ('c, 'w) inner =
  idle :: "'c conn list"
  slots :: u32
  waiters :: "'w waiters"

text \<open>\<open>max_lifetime\<close> is checked first.\<close>

definition expiry :: "'c conn \<Rightarrow> instant \<Rightarrow> pool_config \<Rightarrow> expiry_reason option" where
  "expiry c now cfg =
     (if (case max_lifetime cfg of
            Some age \<Rightarrow> duration_since now (created_at c) \<ge> age | None \<Rightarrow> False)
      then Some MaxLifetime
      else if (case idle_timeout cfg of
                 Some limit \<Rightarrow> duration_since now (last_used c) \<ge> limit | None \<Rightarrow> False)
      then Some IdleTimeout
      else None)"

text \<open>\<open>LocalPool::new\<close>; \<open>features\<close> says whether the build has the \<open>metrics\<close> feature.\<close>

definition local_pool_new :: "bool \<Rightarrow> ('c, 'w) inner" where
  "local_pool_new features =
     \<lparr>idle = [], slots = 0,
      waiters = waiters_new (if features then Some metrics_default else None)\<rparr>"

section \<open>Inner\<close>

definition inner_connections :: "('c, 'w) inner \<Rightarrow> u32" where
  "inner_connections s = slots s"

definition idle_len :: "('c, 'w) inner \<Rightarrow> u32" where
  "idle_len s = as_u32 (length (idle s))"

definition observe :: "(metrics \<Rightarrow> metrics) \<Rightarrow> ('c, 'w) inner \<Rightarrow> ('c, 'w) inner" where
  "observe f s = s\<lparr>waiters := on_metrics f (waiters s)\<rparr>"

definition take_slot :: "('c, 'w) inner \<Rightarrow> ('c, 'w) inner" where
  "take_slot s = observe inc_conn (s\<lparr>slots := slots s + 1\<rparr>)"

definition release_slots :: "u32 \<Rightarrow> ('c, 'w) inner \<Rightarrow> ('c, 'w) inner" where
  "release_slots n s = observe (dec_conn n) (s\<lparr>slots := saturating_sub (slots s) n\<rparr>)"

definition notify :: "shared \<Rightarrow> u32 \<Rightarrow> ('c, 'w) inner \<Rightarrow> ('c, 'w) inner" where
  "notify sh n s =
     s\<lparr>waiters := (if closed sh then wake_all (waiters s) else wake n (waiters s))\<rparr>"

definition release_slot :: "shared \<Rightarrow> ('c, 'w) inner \<Rightarrow> ('c, 'w) inner" where
  "release_slot sh s = notify sh 1 (release_slots 1 s)"

definition push_idle :: "'c conn \<Rightarrow> ('c, 'w) inner \<Rightarrow> ('c, 'w) inner" where
  "push_idle c s = observe inc_idle (s\<lparr>idle := vec_push (idle s) c\<rparr>)"

definition pop_idle :: "('c, 'w) inner \<Rightarrow> 'c conn option \<times> ('c, 'w) inner" where
  "pop_idle s =
     (case vec_pop (idle s) of
        (None, rest) \<Rightarrow> (None, s\<lparr>idle := rest\<rparr>)
      | (Some c, rest) \<Rightarrow> (Some c, observe (dec_idle 1) (s\<lparr>idle := rest\<rparr>)))"

definition note_expired :: "expiry_reason \<Rightarrow> ('c, 'w) inner \<Rightarrow> ('c, 'w) inner" where
  "note_expired reason s = observe (metrics_note_expired reason) s"

definition note_created :: "('c, 'w) inner \<Rightarrow> ('c, 'w) inner" where
  "note_created s = observe (\<lambda>m. m\<lparr>m_created := m_created m + 1\<rparr>) s"

definition note_broken :: "('c, 'w) inner \<Rightarrow> ('c, 'w) inner" where
  "note_broken s = observe (\<lambda>m. m\<lparr>m_closed_broken := m_closed_broken m + 1\<rparr>) s"

definition note_closed_manual :: "u32 \<Rightarrow> ('c, 'w) inner \<Rightarrow> ('c, 'w) inner" where
  "note_closed_manual n s = observe (\<lambda>m. m\<lparr>m_closed_manual := m_closed_manual m + ucast n\<rparr>) s"

definition note_timed_out :: "('c, 'w) inner \<Rightarrow> ('c, 'w) inner" where
  "note_timed_out s = observe (\<lambda>m. m\<lparr>m_get_timed_out := m_get_timed_out m + 1\<rparr>) s"

text \<open>\<open>record_acquire\<close>: \<open>now\<close> is the clock \<open>start.elapsed()\<close> reads.\<close>

definition record_acquire ::
  "bool \<Rightarrow> instant \<Rightarrow> instant \<Rightarrow> ('c, 'w) inner \<Rightarrow> ('c, 'w) inner" where
  "record_acquire waited start now s =
     observe (\<lambda>m. if waited
               then m\<lparr>m_get_waited := m_get_waited m + 1,
                      m_wait_micros := m_wait_micros m + as_micros_u64 (duration_since now start)\<rparr>
               else m\<lparr>m_get_direct := m_get_direct m + 1\<rparr>) s"

section \<open>Held: a reserved slot, with or without its connection\<close>

record 'c held =
  h_conn :: "'c conn option"
  h_released :: bool

record 'c pooled =
  p_conn :: "'c conn option"

definition held_drop :: "shared \<Rightarrow> 'c held \<Rightarrow> ('c, 'w) inner \<Rightarrow> ('c, 'w) inner" where
  "held_drop sh h s = (if \<not> h_released h then release_slot sh s else s)"

definition into_pooled ::
  "shared \<Rightarrow> 'c held \<Rightarrow> ('c, 'w) inner \<Rightarrow> 'c pooled \<times> ('c, 'w) inner" where
  "into_pooled sh h s =
     (\<lparr>p_conn = h_conn h\<rparr>, held_drop sh (h\<lparr>h_conn := None, h_released := True\<rparr>) s)"

definition into_idle ::
  "shared \<Rightarrow> instant \<Rightarrow> 'c held \<Rightarrow> ('c, 'w) inner \<Rightarrow> ('c, 'w) inner" where
  "into_idle sh now h s =
     (let s1 = (case h_conn h of
                  Some c \<Rightarrow> notify sh 1 (push_idle (c\<lparr>last_used := now\<rparr>) s)
                | None \<Rightarrow> s)
      in held_drop sh (h\<lparr>h_conn := None, h_released := True\<rparr>) s1)"

definition try_reserve ::
  "shared \<Rightarrow> ('c, 'w) inner \<Rightarrow> ('c held \<times> ('c, 'w) inner) option" where
  "try_reserve sh s =
     (let taken = inner_connections s
      in if taken < max_size (conf sh)
         then Some (\<lparr>h_conn = None, h_released = False\<rparr>, take_slot s)
         else None)"

lemma idle_observe [simp]: "idle (observe f s) = idle s"
  by (simp add: observe_def)

lemma idle_notify [simp]: "idle (notify sh n s) = idle s"
  by (simp add: notify_def)

lemma idle_release_slot [simp]: "idle (release_slot sh s) = idle s"
  by (simp add: release_slot_def release_slots_def)

lemma pop_idle_Some_length:
  "pop_idle s = (Some c, s1) \<Longrightarrow> length (idle s) = Suc (length (idle s1))"
  by (auto simp: pop_idle_def dest!: vec_pop_SomeD split: prod.splits option.splits)

function pop_fresh_idle ::
  "shared \<Rightarrow> instant \<Rightarrow> ('c, 'w) inner \<Rightarrow> 'c held option \<times> ('c, 'w) inner" where
  "pop_fresh_idle sh now s =
     (case pop_idle s of
        (None, s1) \<Rightarrow> (None, s1)
      | (Some c, s1) \<Rightarrow>
          (case expiry c now (conf sh) of
             Some reason \<Rightarrow> pop_fresh_idle sh now (release_slot sh (note_expired reason s1))
           | None \<Rightarrow> (Some \<lparr>h_conn = Some c, h_released = False\<rparr>, s1)))"
  by pat_completeness auto
termination
  by (relation "measure (\<lambda>(sh, now, s). length (idle s))")
    (auto simp: note_expired_def dest: pop_idle_Some_length [OF sym])

declare pop_fresh_idle.simps [simp del]

section \<open>PooledConnection\<close>

definition pooled_drop ::
  "'c has_broken \<Rightarrow> shared \<Rightarrow> instant \<Rightarrow> instant \<Rightarrow> 'c pooled \<Rightarrow> ('c, 'w) inner \<Rightarrow> ('c, 'w) inner"
where
  "pooled_drop has_broken sh now1 now2 p s =
     (case p_conn p of
        None \<Rightarrow> s
      | Some c \<Rightarrow>
          if closed sh then release_slot sh (note_closed_manual 1 s)
          else
            (case has_broken (raw c) of
               (broken, r) \<Rightarrow>
                 let c1 = c\<lparr>raw := r\<rparr>
                 in if broken then release_slot sh (note_broken s)
                    else (case expiry c1 now1 (conf sh) of
                            Some reason \<Rightarrow> release_slot sh (note_expired reason s)
                          | None \<Rightarrow> notify sh 1 (push_idle (c1\<lparr>last_used := now2\<rparr>) s))))"

text \<open>\<open>take\<close> panics on an emptied value, which a live \<open>PooledConnection\<close> never is.\<close>

definition pooled_take :: "shared \<Rightarrow> 'c pooled \<Rightarrow> ('c, 'w) inner \<Rightarrow> ('c \<times> ('c, 'w) inner) option" where
  "pooled_take sh p s = map_option (\<lambda>c. (raw c, release_slot sh s)) (p_conn p)"

definition pooled_deref :: "'c pooled \<Rightarrow> 'c option" where
  "pooled_deref p = map_option raw (p_conn p)"

text \<open>\<open>deref_mut\<close>: the holder replaces the connection through the mutable reference.\<close>

definition pooled_deref_mut :: "('c \<Rightarrow> 'c) \<Rightarrow> 'c pooled \<Rightarrow> 'c pooled" where
  "pooled_deref_mut f p = p\<lparr>p_conn := map_option (\<lambda>c. c\<lparr>raw := f (raw c)\<rparr>) (p_conn p)\<rparr>"

section \<open>Maintenance\<close>

text \<open>The loop over \<open>idle.drain(..)\<close>: the expired, the kept, and the counts noted on the way.\<close>

fun reap_scan ::
  "pool_config \<Rightarrow> instant \<Rightarrow> 'c conn list \<Rightarrow> 'c conn list \<Rightarrow> 'c conn list \<Rightarrow> ('c, 'w) inner
   \<Rightarrow> 'c conn list \<times> 'c conn list \<times> ('c, 'w) inner" where
  "reap_scan cfg now [] expired kept s = (expired, kept, s)"
| "reap_scan cfg now (c # cs) expired kept s =
     (case expiry c now cfg of
        Some reason \<Rightarrow> reap_scan cfg now cs (vec_push expired c) kept (note_expired reason s)
      | None \<Rightarrow> reap_scan cfg now cs expired (vec_push kept c) s)"

definition reap :: "shared \<Rightarrow> instant \<Rightarrow> ('c, 'w) inner \<Rightarrow> u32 \<times> ('c, 'w) inner" where
  "reap sh now s =
     (case reap_scan (conf sh) now (idle s) [] [] (s\<lparr>idle := []\<rparr>) of
        (expired, kept, s1) \<Rightarrow>
          let s2 = s1\<lparr>idle := kept\<rparr>;
              reaped = as_u32 (length expired)
          in (reaped,
              if reaped > 0
              then notify sh reaped (release_slots reaped (observe (dec_idle reaped) s2))
              else s2))"

definition clear :: "shared \<Rightarrow> ('c, 'w) inner \<Rightarrow> u32 \<times> ('c, 'w) inner" where
  "clear sh s =
     (let drained = idle s;
          s1 = s\<lparr>idle := []\<rparr>;
          n = as_u32 (length drained);
          s2 = (if n > 0
                then release_slots n (note_closed_manual n (observe (dec_idle n) s1))
                else s1)
      in (n, notify sh n s2))"

section \<open>Waiting for room\<close>

definition ready_now :: "shared \<Rightarrow> ('c, 'w) inner \<Rightarrow> bool" where
  "ready_now sh s \<longleftrightarrow>
     closed sh \<or> idle s \<noteq> [] \<or> inner_connections s < max_size (conf sh)"

record wait_ready =
  wr_id :: "u64 option"
  wr_parked :: bool

definition wait_ready_new :: wait_ready where
  "wait_ready_new = \<lparr>wr_id = None, wr_parked = False\<rparr>"

text \<open>\<open>Future::poll\<close>: \<open>Some\<close> is \<open>Poll::Ready\<close>, \<open>None\<close> is \<open>Poll::Pending\<close>.\<close>

definition wait_ready_poll ::
  "shared \<Rightarrow> 'w \<Rightarrow> wait_ready \<Rightarrow> ('c, 'w) inner \<Rightarrow> bool option \<times> wait_ready \<times> ('c, 'w) inner" where
  "wait_ready_poll sh waker wr s =
     (if ready_now sh s
      then let q1 = (case wr_id wr of
                       Some i \<Rightarrow> snd (unregister i (waiters s))
                     | None \<Rightarrow> waiters s);
               q2 = (if closed sh then wake_all q1 else q1)
           in (Some (wr_parked wr), wr\<lparr>wr_id := None\<rparr>, s\<lparr>waiters := q2\<rparr>)
      else (case register (wr_id wr) waker (waiters s) of
              (i, q) \<Rightarrow> (None, wr\<lparr>wr_id := i, wr_parked := True\<rparr>, s\<lparr>waiters := q\<rparr>)))"

definition wait_ready_drop :: "wait_ready \<Rightarrow> ('c, 'w) inner \<Rightarrow> ('c, 'w) inner" where
  "wait_ready_drop wr s =
     (case wr_id wr of
        None \<Rightarrow> s
      | Some i \<Rightarrow>
          (case unregister i (waiters s) of
             (True, q) \<Rightarrow> s\<lparr>waiters := q\<rparr>
           | (False, q) \<Rightarrow> s\<lparr>waiters := wake 1 q\<rparr>))"

section \<open>Reading the pool\<close>

definition local_state :: "('c, 'w) inner \<Rightarrow> pool_state" where
  "local_state s =
     \<lparr>connections = inner_connections s, idle_connections = idle_len s,
      pending_waiters = waiters_len (waiters s)\<rparr>"

definition local_statistics :: "('c, 'w) inner \<Rightarrow> statistics" where
  "local_statistics s =
     (case w_metrics (waiters s) of
        Some m \<Rightarrow> snapshot_statistics m
      | None \<Rightarrow> statistics_default)"

end
