(* ===== verification/Accounting.thy ===== *)
theory Accounting
  imports Local_Pool
begin

text \<open>
  The accounting invariant of one thread's pool and how every operation of \<open>Local_Pool\<close> moves it.

  \<open>accounts sh h k s\<close>: of the slots counted, \<open>h\<close> are held outside the idle list (reserved or
  leased); the count stays within \<open>max_size\<close>; the gauges another thread reads equal the counts;
  and every connection ever opened is idle, one of \<open>k\<close> outside the idle list, or in one of the
  four closed counters.
\<close>

section \<open>Accounts\<close>

definition closed_total :: "metrics \<Rightarrow> u64" where
  "closed_total m =
     m_closed_broken m + m_closed_idle_timeout m + m_closed_max_lifetime m + m_closed_manual m"

definition books :: "metrics \<Rightarrow> u32 \<times> u32 \<times> u64 \<times> u64" where
  "books m = (m_connections m, m_idle m, m_created m, closed_total m)"

definition queue_books :: "'w waiters \<Rightarrow> (u32 \<times> u32 \<times> u64 \<times> u64) option" where
  "queue_books q = map_option books (w_metrics q)"

definition books_of :: "('c, 'w) inner \<Rightarrow> (u32 \<times> u32 \<times> u64 \<times> u64) option" where
  "books_of s = queue_books (waiters s)"

definition accounts :: "shared \<Rightarrow> nat \<Rightarrow> nat \<Rightarrow> ('c, 'w) inner \<Rightarrow> bool" where
  "accounts sh h k s \<longleftrightarrow>
     length (idle s) + h = unat (slots s) \<and>
     unat (slots s) \<le> unat (max_size (conf sh)) \<and>
     (case books_of s of
        None \<Rightarrow> True
      | Some (c, i, n, x) \<Rightarrow>
          c = slots s \<and> i = as_u32 (length (idle s)) \<and> n = x + of_nat (length (idle s) + k))"

lemma accounts_cong:
  "idle s' = idle s \<Longrightarrow> slots s' = slots s \<Longrightarrow> books_of s' = books_of s \<Longrightarrow>
   accounts sh h k s' = accounts sh h k s"
  by (auto simp: accounts_def split: option.splits)

lemma accounts_idle_bound: "accounts sh h k s \<Longrightarrow> length (idle s) < 2 ^ 32"
  using u32_bound [of "slots s"] by (auto simp: accounts_def)

lemma observe_sel [simp]:
  "slots (observe f s) = slots s"
  "waiters (observe f s) = on_metrics f (waiters s)"
  by (simp_all add: observe_def)

lemma books_of_observe: "books_of (observe f s) = map_option (books \<circ> f) (w_metrics (waiters s))"
  by (simp add: books_of_def queue_books_def option.map_comp comp_def)

lemma books_of_update [simp]:
  "books_of (s\<lparr>idle := xs\<rparr>) = books_of s"
  "books_of (s\<lparr>slots := n\<rparr>) = books_of s"
  by (simp_all add: books_of_def)

lemma queue_books_mirror [simp]: "queue_books (mirror n q) = queue_books q"
  by (cases "w_metrics q") (simp_all add: queue_books_def books_def closed_total_def)

lemma queue_books_update [simp]:
  "queue_books (q\<lparr>entries := es\<rparr>) = queue_books q"
  "queue_books (q\<lparr>next_id := i\<rparr>) = queue_books q"
  "queue_books (q\<lparr>woken_upto := i\<rparr>) = queue_books q"
  "queue_books (q\<lparr>woken_log := l\<rparr>) = queue_books q"
  by (simp_all add: queue_books_def)

lemma wake_loop_books [simp]: "queue_books (wake_loop k q) = queue_books q"
proof (induction k arbitrary: q)
  case (Suc k)
  show ?case by (cases "entries q") (auto simp: Suc.IH Let_def split: prod.splits)
qed simp

lemma wake_books [simp]: "queue_books (wake n q) = queue_books q"
  by (simp add: wake_def)

lemma wake_all_books [simp]: "queue_books (wake_all q) = queue_books q"
  by (simp add: wake_all_def Let_def)

lemma register_books [simp]: "queue_books (snd (register i w q)) = queue_books q"
  by (auto simp: register_def Let_def split: option.splits)

lemma unregister_books [simp]: "queue_books (snd (unregister i q)) = queue_books q"
  by (auto simp: unregister_def Let_def split: sum.splits)

lemma notify_sel [simp]:
  "slots (notify sh n s) = slots s"
  "books_of (notify sh n s) = books_of s"
  by (simp_all add: notify_def books_of_def)

lemma accounts_notify [simp]: "accounts sh h k (notify sh n s) = accounts sh h k s"
  by (rule accounts_cong) simp_all

text \<open>A counter outside the books can be bumped freely.\<close>

lemma accounts_observe_other:
  "(\<And>m. books (f m) = books m) \<Longrightarrow> accounts sh h k (observe f s) = accounts sh h k s"
  by (rule accounts_cong) (simp_all add: books_of_def queue_books_def option.map_comp comp_def)

lemma accounts_record_acquire [simp]:
  "accounts sh h k (record_acquire waited start now s) = accounts sh h k s"
  unfolding record_acquire_def
  by (rule accounts_observe_other) (simp add: books_def closed_total_def)

lemma accounts_note_timed_out [simp]: "accounts sh h k (note_timed_out s) = accounts sh h k s"
  unfolding note_timed_out_def
  by (rule accounts_observe_other) (simp add: books_def closed_total_def)

lemma accounts_try_reserve:
  assumes "accounts sh h k s" and "try_reserve sh s = Some (g, s')"
  shows "accounts sh (Suc h) k s'"
proof -
  have room: "unat (slots s) < unat (max_size (conf sh))"
    and s': "s' = take_slot s"
    using assms(2)
    by (auto simp: try_reserve_def inner_connections_def word_less_nat_alt Let_def split: if_splits)
  have up: "unat (slots s + 1) = unat (slots s) + 1"
    using unat_plus_one [OF room] .
  show ?thesis
    using assms(1) room unfolding s' take_slot_def accounts_def books_of_observe
    by (auto simp: up books_of_def queue_books_def books_def inc_conn_def closed_total_def split: option.splits)
qed

lemma accounts_release_slots:
  assumes "accounts sh (h + unat n) k s"
  shows "accounts sh h k (release_slots n s)"
  using assms unfolding release_slots_def accounts_def books_of_observe
  by (auto simp: rust_simps books_of_def queue_books_def books_def dec_conn_def closed_total_def split: option.splits)

lemma accounts_release_slot: "accounts sh (Suc h) k s \<Longrightarrow> accounts sh h k (release_slot sh s)"
  unfolding release_slot_def using accounts_release_slots [of sh h 1 k s] by simp

lemma accounts_push_idle:
  assumes "accounts sh (Suc h) (Suc k) s"
  shows "accounts sh h k (push_idle c s)"
  using assms unfolding push_idle_def accounts_def books_of_observe
  by (auto simp: books_of_def queue_books_def books_def inc_idle_def closed_total_def as_u32_Suc split: option.splits)

lemma accounts_pop_idle:
  assumes "accounts sh h k s" and "pop_idle s = (Some c, s')"
  shows "accounts sh (Suc h) (Suc k) s'"
proof -
  obtain rest where v: "vec_pop (idle s) = (Some c, rest)"
    and s': "s' = observe (dec_idle 1) (s\<lparr>idle := rest\<rparr>)"
    using assms(2) by (auto simp: pop_idle_def split: prod.splits option.splits)
  have len: "length (idle s) = Suc (length rest)"
    using vec_pop_SomeD [OF v] by simp
  have "saturating_sub (as_u32 (Suc (length rest))) 1 = as_u32 (length rest)"
    using saturating_sub_as_u32 [of "Suc (length rest)" 1] accounts_idle_bound [OF assms(1)] len
    by (simp add: as_u32_Suc [of 0, simplified])
  with assms(1) len show ?thesis unfolding s' accounts_def books_of_observe
    by (auto simp: books_of_def queue_books_def books_def dec_idle_def closed_total_def split: option.splits)
qed

lemma accounts_note_created: "accounts sh h k s \<Longrightarrow> accounts sh h (Suc k) (note_created s)"
  unfolding note_created_def accounts_def books_of_observe
  by (auto simp: books_of_def queue_books_def books_def closed_total_def split: option.splits)

text \<open>Counting a close takes one connection off the outside.\<close>

lemma accounts_count_close:
  assumes "accounts sh h (Suc k) s"
    and "\<And>m. books (f m) = (m_connections m, m_idle m, m_created m, closed_total m + 1)"
  shows "accounts sh h k (observe f s)"
proof -
  have "books_of (observe f s) = map_option (\<lambda>(c, i, n, x). (c, i, n, x + 1)) (books_of s)"
    by (cases "w_metrics (waiters s)")
      (simp_all add: books_of_def queue_books_def assms(2), simp add: books_def)
  with assms(1) show ?thesis
    by (auto simp: accounts_def split: option.splits)
qed

lemma accounts_note_broken: "accounts sh h (Suc k) s \<Longrightarrow> accounts sh h k (note_broken s)"
  unfolding note_broken_def
  by (erule accounts_count_close) (simp add: books_def closed_total_def)

lemma accounts_note_expired: "accounts sh h (Suc k) s \<Longrightarrow> accounts sh h k (note_expired r s)"
  unfolding note_expired_def
  by (erule accounts_count_close) (cases r; simp add: books_def closed_total_def)

lemma accounts_note_closed_manual:
  "accounts sh h (Suc k) s \<Longrightarrow> accounts sh h k (note_closed_manual 1 s)"
  unfolding note_closed_manual_def
  by (erule accounts_count_close) (simp add: books_def closed_total_def)

lemma accounts_pop_fresh_idle:
  "accounts sh h k s \<Longrightarrow> pop_fresh_idle sh now s = (r, s') \<Longrightarrow>
   (case r of None \<Rightarrow> accounts sh h k s' | Some g \<Rightarrow> accounts sh (Suc h) (Suc k) s')"
proof (induction sh now s rule: pop_fresh_idle.induct)
  case (1 sh now s)
  show ?case
  proof (cases "fst (pop_idle s)")
    case None
    then have "idle s = []" and "snd (pop_idle s) = s"
      by (auto simp: pop_idle_def split: prod.splits option.splits)
    with "1.prems" None show ?thesis
      by (auto simp: pop_fresh_idle.simps [of sh now s] split: prod.splits)
  next
    case (Some c)
    then obtain s1 where p: "pop_idle s = (Some c, s1)" by (cases "pop_idle s") auto
    have a: "accounts sh (Suc h) (Suc k) s1"
      using "1.prems"(1) p by (rule accounts_pop_idle)
    show ?thesis
    proof (cases "expiry c now (conf sh)")
      case None
      with p "1.prems"(2) a show ?thesis by (auto simp: pop_fresh_idle.simps [of sh now s])
    next
      case (Some reason)
      have "accounts sh h k (release_slot sh (note_expired reason s1))"
        using a by (intro accounts_release_slot accounts_note_expired)
      with "1.IH" [OF p [symmetric] refl Some] "1.prems"(2) p Some show ?thesis
        by (simp add: pop_fresh_idle.simps [of sh now s])
    qed
  qed
qed

lemma pop_fresh_idle_held:
  "pop_fresh_idle sh now s = (Some g, s') \<Longrightarrow> (\<exists>c. h_conn g = Some c) \<and> \<not> h_released g"
proof (induction sh now s rule: pop_fresh_idle.induct)
  case (1 sh now s)
  from "1.prems" "1.IH" show ?case
    by (auto simp: pop_fresh_idle.simps [of sh now s] split: prod.splits option.splits)
qed

lemma pop_fresh_idle_None: "pop_fresh_idle sh now s = (None, s') \<Longrightarrow> idle s' = []"
proof (induction sh now s rule: pop_fresh_idle.induct)
  case (1 sh now s)
  from "1.prems" "1.IH" show ?case
    by (auto simp: pop_fresh_idle.simps [of sh now s] pop_idle_def split: prod.splits option.splits)
qed

section \<open>Reap and clear\<close>

abbreviation expired_at :: "pool_config \<Rightarrow> instant \<Rightarrow> 'c conn \<Rightarrow> bool" where
  "expired_at cfg now c \<equiv> expiry c now cfg \<noteq> None"

lemma note_expired_sel [simp]:
  "idle (note_expired r s) = idle s" "slots (note_expired r s) = slots s"
  "entries (waiters (note_expired r s)) = entries (waiters s)"
  by (simp_all add: note_expired_def)

lemma books_of_note_expired:
  "books_of (note_expired r s) = map_option (\<lambda>(c, i, n, x). (c, i, n, x + 1)) (books_of s)"
  by (cases "w_metrics (waiters s)"; cases r)
    (simp_all add: note_expired_def books_of_def queue_books_def books_def closed_total_def)

lemma reap_scan_eq:
  "reap_scan cfg now cs ex kp s =
     (ex @ filter (expired_at cfg now) cs, kp @ filter (\<lambda>c. \<not> expired_at cfg now c) cs,
      fold note_expired (List.map_filter (\<lambda>c. expiry c now cfg) cs) s)"
  by (induction cs arbitrary: ex kp s) (simp_all add: vec_push_def map_filter_simps split: option.split)

lemma length_map_filter: "length (List.map_filter f xs) = length (filter (\<lambda>x. f x \<noteq> None) xs)"
  by (induction xs) (simp_all add: map_filter_simps split: option.split)

lemma fold_note_expired_sel [simp]:
  "idle (fold note_expired rs s) = idle s" "slots (fold note_expired rs s) = slots s"
  by (induction rs arbitrary: s) simp_all

lemma books_of_fold_note_expired:
  "books_of (fold note_expired rs s)
     = map_option (\<lambda>(c, i, n, x). (c, i, n, x + of_nat (length rs))) (books_of s)"
proof (induction rs arbitrary: s)
  case Nil
  show ?case by (cases "books_of s") auto
next
  case (Cons r rs)
  show ?case by (cases "books_of s") (auto simp: Cons.IH books_of_note_expired algebra_simps)
qed

text \<open>Taking \<open>n\<close> connections off the idle list and counting them closed.\<close>

lemma accounts_drop_idle:
  assumes "accounts sh h k s" and "length (idle s') + n = length (idle s)" and "slots s' = slots s"
    and "books_of s' =
      map_option (\<lambda>(c, i, m, x). (c, saturating_sub i (as_u32 n), m, x + of_nat n)) (books_of s)"
  shows "accounts sh (h + n) k s'"
proof -
  have n: "n \<le> length (idle s)" "length (idle s) - n = length (idle s')" using assms(2) by simp_all
  have "saturating_sub (as_u32 (length (idle s))) (as_u32 n) = as_u32 (length (idle s'))"
    using saturating_sub_as_u32 [OF accounts_idle_bound [OF assms(1)] n(1)] n(2) by simp
  moreover have "(of_nat (length (idle s)) :: u64) = of_nat (length (idle s')) + of_nat n"
    using arg_cong [OF assms(2), of "of_nat :: nat \<Rightarrow> u64"] by simp
  ultimately show ?thesis
    using assms by (auto simp: accounts_def algebra_simps split: option.splits)
qed

lemma books_of_dec_idle:
  "books_of (observe (dec_idle n) s)
     = map_option (\<lambda>(c, i, m, x). (c, saturating_sub i n, m, x)) (books_of s)"
  by (cases "w_metrics (waiters s)")
    (simp_all add: books_of_def queue_books_def books_def dec_idle_def closed_total_def)

lemma books_of_note_closed_manual:
  "books_of (note_closed_manual n s)
     = map_option (\<lambda>(c, i, m, x). (c, i, m, x + ucast n)) (books_of s)"
  by (cases "w_metrics (waiters s)")
    (simp_all add: note_closed_manual_def books_of_def queue_books_def books_def closed_total_def)

lemma ucast_as_u32: "n < 2 ^ 32 \<Longrightarrow> (ucast (as_u32 n) :: u64) = of_nat n"
  by (simp add: as_u32_def ucast_eq uint_nat unat_of_nat)

lemma as_u32_pos: "n < 2 ^ 32 \<Longrightarrow> 0 < as_u32 n \<longleftrightarrow> 0 < n"
  by (simp add: word_less_nat_alt rust_simps)

lemma partition_length:
  "length (filter (\<lambda>x. \<not> P x) xs) + length (filter P xs) = length xs"
  using sum_length_filter_compl [of P xs] by simp

lemma idle_update_same: "idle s = xs \<Longrightarrow> s\<lparr>idle := xs\<rparr> = s"
  by (cases s) simp

lemma accounts_reap:
  assumes "accounts sh h k s"
  shows "accounts sh h k (snd (reap sh now s))"
proof -
  let ?ex = "filter (expired_at (conf sh) now) (idle s)"
  let ?kp = "filter (\<lambda>c. \<not> expired_at (conf sh) now c) (idle s)"
  let ?rs = "List.map_filter (\<lambda>c. expiry c now (conf sh)) (idle s)"
  let ?s2 = "(fold note_expired ?rs (s\<lparr>idle := []\<rparr>))\<lparr>idle := ?kp\<rparr>"
  have len: "length ?kp + length ?ex = length (idle s)" by (rule partition_length)
  then have lt: "length ?ex < 2 ^ 32" using accounts_idle_bound [OF assms] by linarith
  have rs: "length ?rs = length ?ex" by (simp add: length_map_filter)
  have a: "accounts sh (h + length ?ex) k (observe (dec_idle (as_u32 (length ?ex))) ?s2)"
  proof (rule accounts_drop_idle [OF assms])
    show "books_of (observe (dec_idle (as_u32 (length ?ex))) ?s2) = map_option (\<lambda>(c, i, m, x).
        (c, saturating_sub i (as_u32 (length ?ex)), m, x + of_nat (length ?ex))) (books_of s)"
      by (cases "books_of s") (auto simp: books_of_dec_idle books_of_fold_note_expired rs)
  qed (use len in simp_all)
  show ?thesis
  proof (cases "?ex = []")
    case True
    then have "?rs = []" and "?kp = idle s"
      using rs by (auto simp: filter_empty_conv intro: filter_True)
    then have "snd (reap sh now s) = s"
      using True by (simp add: reap_def reap_scan_eq Let_def idle_update_same)
    with assms show ?thesis by simp
  next
    case False
    then have "0 < as_u32 (length ?ex)" using as_u32_pos [OF lt] by simp
    then show ?thesis
      using accounts_release_slots [of sh h "as_u32 (length ?ex)" k] a lt
      by (simp add: reap_def reap_scan_eq Let_def rust_simps)
  qed
qed

lemma accounts_clear:
  assumes "accounts sh h k s"
  shows "accounts sh h k (snd (clear sh s))"
proof -
  let ?n = "length (idle s)" and ?s1 = "s\<lparr>idle := []\<rparr>"
  have lt: "?n < 2 ^ 32" using assms by (rule accounts_idle_bound)
  have a: "accounts sh (h + ?n) k
      (note_closed_manual (as_u32 ?n) (observe (dec_idle (as_u32 ?n)) ?s1))"
    (is "accounts _ _ _ ?s3")
  proof (rule accounts_drop_idle [OF assms])
    show "books_of ?s3 = map_option (\<lambda>(c, i, m, x).
        (c, saturating_sub i (as_u32 ?n), m, x + of_nat ?n)) (books_of s)"
      by (cases "books_of s")
        (auto simp: books_of_dec_idle books_of_note_closed_manual ucast_as_u32 [OF lt])
  qed (simp_all add: note_closed_manual_def)
  show ?thesis
  proof (cases "idle s = []")
    case True
    with assms show ?thesis by (simp add: clear_def idle_update_same)
  next
    case False
    then show ?thesis
      using accounts_release_slots [of sh h "as_u32 ?n" k] a lt
      by (simp add: clear_def Let_def as_u32_pos [OF lt] rust_simps)
  qed
qed

end
