(* ===== verification/Rationing.thy ===== *)
theory Rationing
  imports Accounting
begin

text \<open>
  The wake-up invariant of one thread's pool and how every operation of \<open>Local_Pool\<close> moves it.

  \<open>owed sh d T s\<close>: every ticket in \<open>T\<close> is queued or was woken, and while somebody is queued on
  an open pool there are at least as many woken waiters yet to act as there are units of capacity
  free (idle connections plus slots never taken), up to a debt of \<open>d\<close> wakes. A debt of zero
  between steps is what rules out a lost wake-up. The proofs rest on the interpretation \<open>wq\<close> of
  the contract \<open>wake_queue\<close>.
\<close>

section \<open>Capacity and debt\<close>

definition capacity :: "shared \<Rightarrow> ('c, 'w) inner \<Rightarrow> nat" where
  "capacity sh s = length (idle s) + (unat (max_size (conf sh)) - unat (slots s))"

definition owed :: "shared \<Rightarrow> nat \<Rightarrow> u64 multiset \<Rightarrow> ('c, 'w) inner \<Rightarrow> bool" where
  "owed sh d T s \<longleftrightarrow>
     queue_inv (waiters s) \<and> waiters_mirrored (waiters s) \<and> wq.ledger (waiters s) T \<and>
     (\<not> closed sh \<longrightarrow> ticket_ids (waiters s) \<noteq> [] \<longrightarrow>
        capacity sh s \<le> wq.outstanding (waiters s) T + d)"

lemma owed_mono: "owed sh d T s \<Longrightarrow> d \<le> e \<Longrightarrow> owed sh e T s"
  by (auto simp: owed_def)

lemma owed_queue_inv: "owed sh d T s \<Longrightarrow> queue_inv (waiters s)"
  by (simp add: owed_def)

text \<open>An operation that leaves the queue alone moves the debt by what it frees.\<close>

lemma owed_same_queue:
  assumes "owed sh d T s" and "waiters s' = waiters s" and "capacity sh s' + d \<le> capacity sh s + e"
  shows "owed sh e T s'"
  using assms by (auto simp: owed_def)

lemma owed_observe:
  assumes "owed sh d T s" and "\<And>m. m_waiters (f m) = m_waiters m"
    and "waiters s' = on_metrics f (waiters s)" and "capacity sh s' + d \<le> capacity sh s + e"
  shows "owed sh e T s'"
proof -
  have "waiters_mirrored (on_metrics f (waiters s)) = waiters_mirrored (waiters s)"
    by (rule waiters_mirrored_cong)
      (simp_all add: assms(2) option.map_comp comp_def)
  with assms show ?thesis
    by (auto simp: owed_def wq.ledger_def wq.outstanding_def)
qed

lemma owed_wake_loop:
  assumes "owed sh (d + k) T s"
  shows "owed sh d T (s\<lparr>waiters := wake_loop k (waiters s)\<rparr>)"
proof -
  let ?q = "wake_loop k (waiters s)"
  have inv: "queue_inv (waiters s)" and led: "wq.ledger (waiters s) T"
    using assms by (simp_all add: owed_def)
  have "capacity sh s \<le> wq.outstanding ?q T + d"
    if "\<not> closed sh" and "ticket_ids ?q \<noteq> []"
  proof -
    have "k < length (ticket_ids (waiters s))"
      using that(2) by (simp add: wake_loop_ids)
    moreover have "capacity sh s \<le> wq.outstanding (waiters s) T + (d + k)"
      using assms that calculation by (auto simp: owed_def)
    ultimately show ?thesis
      using wq.outstanding_wake [OF inv led, of k] by simp
  qed
  then show ?thesis
    using assms wake_loop_inv [OF inv] wq.ledger_wake [OF inv led] wake_loop_mirrored
    by (auto simp: owed_def capacity_def)
qed

lemma owed_wake: "owed sh (d + unat n) T s \<Longrightarrow> owed sh d T (s\<lparr>waiters := wake n (waiters s)\<rparr>)"
  unfolding wake_def by (rule owed_wake_loop)

text \<open>On a closed pool nothing is rationed, so any wake keeps the invariant.\<close>

lemma owed_closed: "closed sh \<Longrightarrow> owed sh d T s \<Longrightarrow> owed sh e T s"
  by (auto simp: owed_def)

lemma owed_wake_all:
  assumes "closed sh" and "owed sh d T s"
  shows "owed sh e T (s\<lparr>waiters := wake_all (waiters s)\<rparr>)"
proof -
  obtain k where k: "wake_all (waiters s) = wake_loop k (waiters s)"
    using wake_all_eq_wake_loop by blast
  show ?thesis unfolding k by (rule owed_wake_loop) (rule owed_closed [OF assms])
qed

lemma owed_notify: "owed sh (d + unat n) T s \<Longrightarrow> owed sh d T (notify sh n s)"
  unfolding notify_def by (cases "closed sh") (auto intro: owed_wake owed_wake_all)

section \<open>Slots and idle connections\<close>

lemma owed_release_slots:
  assumes "owed sh d T s"
  shows "owed sh (d + unat n) T (release_slots n s)"
proof (rule owed_observe [OF assms])
  show "waiters (release_slots n s) = on_metrics (dec_conn n) (waiters s)"
    by (simp add: release_slots_def)
  show "capacity sh (release_slots n s) + d \<le> capacity sh s + (d + unat n)"
    by (simp add: capacity_def release_slots_def rust_simps)
qed (simp add: dec_conn_def)

lemma owed_release_slot: "owed sh d T s \<Longrightarrow> owed sh d T (release_slot sh s)"
  unfolding release_slot_def by (intro owed_notify owed_release_slots)

lemma owed_push_idle:
  assumes "owed sh d T s"
  shows "owed sh d T (notify sh 1 (push_idle c s))"
proof (rule owed_notify, rule owed_observe [OF assms])
  show "waiters (push_idle c s) = on_metrics inc_idle (waiters s)"
    by (simp add: push_idle_def)
  show "capacity sh (push_idle c s) + d \<le> capacity sh s + (d + unat (1 :: u32))"
    by (simp add: capacity_def push_idle_def)
qed (simp add: inc_idle_def)

lemma pop_idle_Some:
  assumes "pop_idle s = (Some c, s')"
  shows "waiters s' = on_metrics (dec_idle 1) (waiters s)"
    and "slots s' = slots s"
    and "idle s = idle s' @ [c]"
    and "capacity sh s = Suc (capacity sh s')"
  using assms
  by (auto simp: pop_idle_def capacity_def dest!: vec_pop_SomeD split: prod.splits option.splits)

lemma owed_pop_idle:
  assumes "owed sh d T s" and "pop_idle s = (Some c, s')"
  shows "owed sh (d - 1) T s'"
  by (rule owed_observe [OF assms(1) _ pop_idle_Some(1) [OF assms(2)]])
    (use pop_idle_Some(4) [OF assms(2)] in \<open>simp_all add: dec_idle_def\<close>)

lemma owed_note_expired: "owed sh d T s \<Longrightarrow> owed sh d T (note_expired r s)"
  by (erule owed_observe [where f = "metrics_note_expired r"])
    (cases r; simp add: note_expired_def capacity_def)+

lemma owed_note_created: "owed sh d T s \<Longrightarrow> owed sh d T (note_created s)"
  unfolding note_created_def by (erule owed_observe) (simp_all add: capacity_def)

lemma owed_note_broken: "owed sh d T s \<Longrightarrow> owed sh d T (note_broken s)"
  unfolding note_broken_def by (erule owed_observe) (simp_all add: capacity_def)

lemma owed_note_closed_manual: "owed sh d T s \<Longrightarrow> owed sh d T (note_closed_manual n s)"
  unfolding note_closed_manual_def by (erule owed_observe) (simp_all add: capacity_def)

lemma owed_note_timed_out: "owed sh d T s \<Longrightarrow> owed sh d T (note_timed_out s)"
  unfolding note_timed_out_def by (erule owed_observe) (simp_all add: capacity_def)

lemma owed_record_acquire: "owed sh d T s \<Longrightarrow> owed sh d T (record_acquire w a b s)"
  unfolding record_acquire_def by (erule owed_observe) (simp_all add: capacity_def)

lemmas owed_notes = owed_note_expired owed_note_created owed_note_broken owed_note_closed_manual
  owed_note_timed_out owed_record_acquire

lemma owed_try_reserve:
  assumes "owed sh d T s" and "try_reserve sh s = Some (g, s')"
  shows "owed sh (d - 1) T s'"
proof -
  have room: "unat (slots s) < unat (max_size (conf sh))" and s': "s' = take_slot s"
    using assms(2)
    by (auto simp: try_reserve_def inner_connections_def word_less_nat_alt Let_def split: if_splits)
  show ?thesis
  proof (rule owed_observe [OF assms(1)])
    show "waiters s' = on_metrics inc_conn (waiters s)" by (simp add: s' take_slot_def)
    show "capacity sh s' + d \<le> capacity sh s + (d - 1)"
      using room unat_plus_one [OF room] by (simp add: s' take_slot_def capacity_def)
  qed (simp add: inc_conn_def)
qed

text \<open>
  Discarding an expired connection frees the slot it held: the capacity is what it was, and the wake
  it sends pays one unit of debt or is a spare.
\<close>

lemma owed_pop_fresh_idle:
  "owed sh d T s \<Longrightarrow> pop_fresh_idle sh now s = (r, s') \<Longrightarrow>
   (case r of None \<Rightarrow> owed sh d T s' | Some g \<Rightarrow> owed sh (d - 1) T s')"
proof (induction sh now s rule: pop_fresh_idle.induct)
  case (1 sh now s)
  show ?case
  proof (cases "fst (pop_idle s)")
    case None
    then have "pop_idle s = (None, s)"
      by (auto simp: pop_idle_def idle_update_same split: prod.splits option.splits)
    with "1.prems" show ?thesis by (auto simp: pop_fresh_idle.simps [of sh now s])
  next
    case (Some c)
    then obtain s1 where p: "pop_idle s = (Some c, s1)" by (cases "pop_idle s") auto
    have o: "owed sh (d - 1) T s1" using "1.prems"(1) p by (rule owed_pop_idle)
    show ?thesis
    proof (cases "expiry c now (conf sh)")
      case None
      with p "1.prems"(2) o show ?thesis by (auto simp: pop_fresh_idle.simps [of sh now s])
    next
      case (Some reason)
      have "owed sh d T (release_slot sh (note_expired reason s1))"
        by (rule owed_mono [OF owed_release_slot [OF owed_note_expired [OF o]]]) simp
      with "1.IH" [OF p [symmetric] refl Some] "1.prems"(2) p Some show ?thesis
        by (simp add: pop_fresh_idle.simps [of sh now s])
    qed
  qed
qed

section \<open>Reap and clear\<close>

lemma fold_note_expired_owed: "owed sh d T s \<Longrightarrow> owed sh d T (fold note_expired rs s)"
  by (induction rs arbitrary: s) (simp_all add: owed_note_expired)

lemma fold_note_expired_idle:
  "fold note_expired rs (s\<lparr>idle := xs\<rparr>) = (fold note_expired rs s)\<lparr>idle := xs\<rparr>"
proof (induction rs arbitrary: s)
  case (Cons r rs)
  have "note_expired r (s\<lparr>idle := xs\<rparr>) = (note_expired r s)\<lparr>idle := xs\<rparr>"
    by (simp add: note_expired_def observe_def)
  with Cons.IH show ?case by simp
qed simp

lemma owed_fewer_idle:
  assumes "owed sh d T s" and "length xs \<le> length (idle s)"
  shows "owed sh d T (s\<lparr>idle := xs\<rparr>)"
  by (rule owed_same_queue [OF assms(1)]) (use assms(2) in \<open>simp_all add: capacity_def\<close>)

lemma owed_dec_idle: "owed sh d T s \<Longrightarrow> owed sh d T (observe (dec_idle n) s)"
  by (erule owed_observe [where f = "dec_idle n"]) (simp_all add: dec_idle_def capacity_def)

lemma owed_reap:
  assumes "owed sh d T s"
  shows "owed sh d T (snd (reap sh now s))"
proof -
  let ?kp = "filter (\<lambda>c. \<not> expired_at (conf sh) now c) (idle s)"
  let ?rs = "List.map_filter (\<lambda>c. expiry c now (conf sh)) (idle s)"
  have kept: "owed sh d T ((fold note_expired ?rs s)\<lparr>idle := ?kp\<rparr>)"
    using fold_note_expired_owed [OF assms] by (rule owed_fewer_idle) simp
  have freed: "owed sh d T (notify sh n (release_slots n (observe (dec_idle n)
      ((fold note_expired ?rs s)\<lparr>idle := ?kp\<rparr>))))" for n
    using kept by (intro owed_notify owed_release_slots owed_dec_idle)
  show ?thesis
    using kept freed
    by (simp add: reap_def reap_scan_eq fold_note_expired_idle Let_def split: if_split)
qed

lemma owed_clear:
  assumes "owed sh d T s"
  shows "owed sh d T (snd (clear sh s))"
proof -
  have empty: "owed sh d T (s\<lparr>idle := []\<rparr>)" using assms by (rule owed_fewer_idle) simp
  have "owed sh d T (notify sh n (release_slots n (note_closed_manual n (observe (dec_idle n)
      (s\<lparr>idle := []\<rparr>)))))" for n
    using empty by (intro owed_notify owed_release_slots owed_note_closed_manual owed_dec_idle)
  moreover have "owed sh d T (notify sh 0 (s\<lparr>idle := []\<rparr>))"
    using empty by (intro owed_notify) simp
  ultimately show ?thesis
    by (auto simp: clear_def Let_def word_neq_0_conv [symmetric])
qed

section \<open>Waiting\<close>

text \<open>The ticket a waiting future holds, as a multiset of none or one.\<close>

definition ticket :: "wait_ready \<Rightarrow> u64 multiset" where
  "ticket wr = (case wr_id wr of None \<Rightarrow> {#} | Some i \<Rightarrow> {#i#})"

lemma ticket_new [simp]: "ticket wait_ready_new = {#}"
  by (simp add: ticket_def wait_ready_new_def)

text \<open>Giving a ticket back: unwoken, it frees nothing; woken, its unit of capacity is now owed.\<close>

lemma owed_surrender:
  assumes "owed sh d (add_mset i T) s"
  shows "owed sh (if fst (unregister i (waiters s)) then d else Suc d) T
    (s\<lparr>waiters := snd (unregister i (waiters s))\<rparr>)"
proof -
  let ?q = "waiters s"
  have inv: "queue_inv ?q" and led: "wq.ledger ?q (add_mset i T)" and mir: "waiters_mirrored ?q"
    using assms by (simp_all add: owed_def)
  show ?thesis
  proof (cases "i \<in> set (ticket_ids ?q)")
    case True
    then obtain q' where q': "unregister i ?q = (True, q')" "queue_inv q'"
      "mset (ticket_ids q') = mset (ticket_ids ?q) - {#i#}" "was_woken q' = was_woken ?q"
      using unregister_withdraws [OF inv] by blast
    have nw: "\<not> was_woken ?q i" using inv True by (rule queue_inv_not_woken)
    have "wq.ledger q' T" "wq.outstanding q' T = wq.outstanding ?q (add_mset i T)"
      using wq.ledger_withdraw [OF led nw q'(3,4)] by simp_all
    moreover have "ticket_ids ?q \<noteq> []" using True by auto
    moreover have "waiters_mirrored q'" using unregister_mirrored [OF mir, of i] q'(1) by simp
    ultimately show ?thesis using assms q' by (auto simp: owed_def capacity_def)
  next
    case False
    then have w: "was_woken ?q i" using wq.ledger_cases [OF led, of i] by simp
    show ?thesis
      using assms wq.ledger_drop_woken [OF led w] unregister_absent [OF False]
      by (auto simp: owed_def capacity_def)
  qed
qed

lemma owed_wait_ready_drop:
  assumes "owed sh d (ticket wr + T) s"
  shows "owed sh d T (wait_ready_drop wr s)"
proof (cases "wr_id wr")
  case None
  with assms show ?thesis by (simp add: wait_ready_drop_def ticket_def)
next
  case (Some i)
  obtain b q where u: "unregister i (waiters s) = (b, q)" by (cases "unregister i (waiters s)")
  have "owed sh (if b then d else Suc d) T (s\<lparr>waiters := q\<rparr>)"
    using owed_surrender [of sh d i T s] assms Some u by (simp add: ticket_def)
  then show ?thesis
    using owed_wake [of sh d 1 T "s\<lparr>waiters := q\<rparr>"]
    by (cases b) (simp_all add: wait_ready_drop_def Some u)
qed

lemma not_ready_capacity: "\<not> ready_now sh s \<Longrightarrow> capacity sh s = 0"
  by (simp add: ready_now_def capacity_def inner_connections_def word_less_nat_alt)

lemma owed_wait_ready_ready:
  assumes "owed sh d (ticket wr + T) s" and "wait_ready_poll sh w wr s = (Some b, wr', s')"
  shows "owed sh (Suc d) T s'" and "idle s' = idle s" and "slots s' = slots s"
    and "books_of s' = books_of s" and "ready_now sh s" and "b = wr_parked wr"
proof -
  have rd: "ready_now sh s" and b: "b = wr_parked wr"
    and s': "s' = s\<lparr>waiters := (let q1 = (case wr_id wr of Some i \<Rightarrow> snd (unregister i (waiters s))
        | None \<Rightarrow> waiters s) in if closed sh then wake_all q1 else q1)\<rparr>"
    using assms(2) by (auto simp: wait_ready_poll_def Let_def split: if_splits prod.splits)
  define q1 where "q1 = (case wr_id wr of Some i \<Rightarrow> snd (unregister i (waiters s)) | None \<Rightarrow> waiters s)"
  have "owed sh (Suc d) T (s\<lparr>waiters := q1\<rparr>)"
  proof (cases "wr_id wr")
    case None
    with assms(1) show ?thesis
      by (auto simp: q1_def ticket_def intro: owed_mono)
  next
    case (Some i)
    then show ?thesis
      using owed_surrender [of sh d i T s] assms(1)
      by (auto simp: q1_def ticket_def split: if_splits intro: owed_mono)
  qed
  then show "owed sh (Suc d) T s'"
    using owed_wake_all [of sh "Suc d" T "s\<lparr>waiters := q1\<rparr>"]
    by (auto simp: s' q1_def [symmetric] Let_def)
  show "idle s' = idle s" "slots s' = slots s" "books_of s' = books_of s"
    by (auto simp: s' books_of_def Let_def split: option.splits)
  show "ready_now sh s" "b = wr_parked wr" by (fact rd b)+
qed

lemma owed_wait_ready_pending:
  assumes "owed sh d (ticket wr + T) s" and "wait_ready_poll sh w wr s = (None, wr', s')"
    and "id_room (waiters s)"
  shows "owed sh 0 (ticket wr' + T) s'" and "idle s' = idle s" and "slots s' = slots s"
    and "books_of s' = books_of s" and "\<not> ready_now sh s" and "wr_id wr' \<noteq> None"
proof -
  let ?q = "waiters s" and ?r = "register (wr_id wr) w (waiters s)"
  have nr: "\<not> ready_now sh s" and s': "s' = s\<lparr>waiters := snd ?r\<rparr>" and wr': "wr_id wr' = fst ?r"
    using assms(2) by (auto simp: wait_ready_poll_def Let_def split: if_splits prod.splits)
  have inv: "queue_inv ?q" and led: "wq.ledger ?q (ticket wr + T)" and mir: "waiters_mirrored ?q"
    using assms(1) by (simp_all add: owed_def)
  have main: "\<exists>i. fst ?r = Some i \<and> queue_inv (snd ?r) \<and> wq.ledger (snd ?r) (add_mset i T)"
  proof (cases "\<exists>i. wr_id wr = Some i \<and> i \<in> set (ticket_ids ?q)")
    case True
    then obtain i where i: "wr_id wr = Some i" "i \<in> set (ticket_ids ?q)" by blast
    show ?thesis
      using register_refreshes [OF inv i(2), of w] led i
      by (auto simp: ticket_def wq.ledger_def)
  next
    case False
    then obtain i q' where r: "?r = (Some i, q')" "queue_inv q'" "ticket_ids q' = ticket_ids ?q @ [i]"
      "\<not> was_woken ?q i" "was_woken q' = was_woken ?q"
      using register_issues [OF inv assms(3), of "wr_id wr" w] by auto
    have "wq.ledger ?q T"
    proof (cases "wr_id wr")
      case None
      with led show ?thesis by (simp add: ticket_def)
    next
      case (Some j)
      then have led': "wq.ledger ?q (add_mset j T)" using led by (simp add: ticket_def)
      then have "was_woken ?q j" using wq.ledger_cases [OF led', of j] False Some by simp
      then show ?thesis using wq.ledger_drop_woken(1) [OF led'] by simp
    qed
    then show ?thesis using wq.ledger_issue(1) [OF _ r(4,3,5)] r by simp
  qed
  have "capacity sh s' = 0"
    using not_ready_capacity [OF nr] by (simp add: s' capacity_def)
  then show "owed sh 0 (ticket wr' + T) s'"
    using main register_mirrored [OF mir, of "wr_id wr" w]
    by (auto simp: owed_def s' wr' ticket_def)
  show "wr_id wr' \<noteq> None" using main wr' by auto
  show "idle s' = idle s" "slots s' = slots s" "books_of s' = books_of s" "\<not> ready_now sh s"
    using nr by (simp_all add: s' books_of_def)
qed

end
