(* ===== verification/Tasks.thy ===== *)
theory Tasks
  imports Rationing
begin

text \<open>
  The asynchronous half of \<open>LocalPool\<close> in \<open>src/src/pool.rs\<close>: \<open>get\<close>, \<open>get_inner\<close>,
  \<open>try_get\<close>, \<open>warm\<close> and \<open>maintain\<close> as the state machines the compiler makes of them. A
  \<open>task\<close> is a future suspended at one of its \<open>await\<close> points, together with the locals it owns
  there (a \<open>WaitReady\<close>, a \<open>Held\<close>), a live \<open>PooledConnection\<close>, or a finished call.

  A step resumes one task and runs it to its next suspension. What an awaited future of the manager
  or the runtime resolves to is part of the event: the outcome of \<open>connect\<close>, the verdict of
  \<open>is_valid\<close> and the connection it leaves, the end of a sleep, the elapse of a timeout. Dropping a
  suspended future runs the \<open>Drop\<close> of the locals it owns. \<open>t1\<close> and \<open>t2\<close> are the clock
  readings of a step: \<open>t1\<close> the one expiry checks and creation stamps use, \<open>t2\<close> the one the start of a
  call, its elapsed time or the return to the idle list use. Nothing orders the two. The waker of task \<open>i\<close> is \<open>i\<close>. The shared shutdown flag is read once per
  step.
\<close>

section \<open>Suspended calls\<close>

datatype ('c, 'e) outcome =
    GetFailed "'e run_error"
  | GetTimedOut "'c conn option"
  | NoConnection
  | Warmed u32
  | WarmFailed "'e run_error"
  | Recycled
  | Taken 'c
  | Abandoned "'c conn option"

text \<open>
  \<open>GetTimedOut\<close> and \<open>Abandoned\<close> carry the connection the call's \<open>Held\<close> owned when it was
  dropped, which no counter records.
\<close>

datatype ('c, 'e) task =
    GetStart
  | GetWaiting wait_ready instant bool
  | GetValidating "'c held" instant bool
  | GetConnecting "'c held" instant bool
  | GetBackoff instant bool
  | TryStart
  | TryValidating "'c held"
  | TryConnecting "'c held"
  | MaintainStart
  | WarmStart
  | WarmConnecting "'c held" u32
  | Leased "'c pooled"
  | Finished "('c, 'e) outcome"

section \<open>get\<close>

text \<open>The tail of every successful checkout.\<close>

definition hand_out ::
  "shared \<Rightarrow> bool \<Rightarrow> instant \<Rightarrow> instant \<Rightarrow> 'c held \<Rightarrow> ('c, nat) inner
   \<Rightarrow> ('c, 'e) task \<times> ('c, nat) inner" where
  "hand_out sh waited start now h s =
     (case into_pooled sh h (record_acquire waited start now s) of (p, s1) \<Rightarrow> (Leased p, s1))"

lemma wait_ready_poll_sel:
  "idle (snd (snd (wait_ready_poll sh w wr s))) = idle s"
  "slots (snd (snd (wait_ready_poll sh w wr s))) = slots s"
  by (auto simp: wait_ready_poll_def Let_def split: prod.splits)

lemma wait_ready_poll_ready: "wait_ready_poll sh w wr s = (Some b, r) \<Longrightarrow> ready_now sh s"
  by (auto simp: wait_ready_poll_def Let_def split: if_splits prod.splits)

lemma wait_ready_drop_sel:
  "idle (wait_ready_drop wr s) = idle s" "slots (wait_ready_drop wr s) = slots s"
  by (auto simp: wait_ready_drop_def split: option.splits prod.splits bool.splits)

lemma pop_fresh_idle_empty: "idle s = [] \<Longrightarrow> pop_fresh_idle sh now s = (None, s)"
  by (simp add: pop_fresh_idle.simps [of sh now s] pop_idle_def vec_pop_def idle_update_same)

text \<open>A pass of the loop that finds nothing to take has just discarded every idle connection.\<close>

lemma lost_race_shrinks:
  assumes "wait_ready_poll sh w wr s = (Some b, wr', s1)" and "\<not> closed sh"
    and "pop_fresh_idle sh now (wait_ready_drop wr' s1) = (None, s2)" and "try_reserve sh s2 = None"
  shows "length (idle s2) < length (idle s)"
proof (cases "idle s")
  case Nil
  have i1: "idle (wait_ready_drop wr' s1) = []" and "slots (wait_ready_drop wr' s1) = slots s"
    using wait_ready_poll_sel [of sh w wr s] assms(1) Nil by (simp_all add: wait_ready_drop_sel)
  moreover have "slots s < max_size (conf sh)"
    using wait_ready_poll_ready [OF assms(1)] assms(2) Nil
    by (simp add: ready_now_def inner_connections_def)
  ultimately show ?thesis
    using assms(3,4) pop_fresh_idle_empty [OF i1, of sh now]
    by (auto simp: try_reserve_def inner_connections_def Let_def split: if_splits)
next
  case Cons
  with pop_fresh_idle_None [OF assms(3)] show ?thesis by simp
qed

text \<open>
  \<open>get_inner\<close> from its \<open>wait_ready().await\<close> on. The end of the loop body (another task took the
  slot) goes round to the head, where the flag is checked and a new wait begins.
\<close>

function get_wait ::
  "shared \<Rightarrow> nat \<Rightarrow> instant \<Rightarrow> instant \<Rightarrow> instant \<Rightarrow> bool \<Rightarrow> wait_ready \<Rightarrow> ('c, nat) inner
   \<Rightarrow> ('c, 'e) task \<times> ('c, nat) inner" where
  "get_wait sh w t1 t2 start waited wr s =
     (case wait_ready_poll sh w wr s of
        (None, wr', s1) \<Rightarrow> (GetWaiting wr' start waited, s1)
      | (Some parked, wr', s1) \<Rightarrow>
          if closed sh then (Finished (GetFailed Closed), wait_ready_drop wr' s1)
          else
            (case pop_fresh_idle sh t1 (wait_ready_drop wr' s1) of
               (Some held, s2) \<Rightarrow>
                 if test_on_check_out (conf sh)
                 then (GetValidating held start (waited \<or> parked), s2)
                 else hand_out sh (waited \<or> parked) start t2 held s2
             | (None, s2) \<Rightarrow>
                 (case try_reserve sh s2 of
                    Some (held, s3) \<Rightarrow> (GetConnecting held start (waited \<or> parked), s3)
                  | None \<Rightarrow>
                      if closed sh then (Finished (GetFailed Closed), s2)
                      else get_wait sh w t1 t2 start (waited \<or> parked) wait_ready_new s2)))"
  by pat_completeness auto
termination
  by (relation "measure (\<lambda>(sh, w, t1, t2, start, waited, wr, s). length (idle s))")
    (auto intro: lost_race_shrinks [OF sym _ sym])

declare get_wait.simps [simp del]

text \<open>The head of \<open>get_inner\<close>'s loop.\<close>

definition get_loop ::
  "shared \<Rightarrow> nat \<Rightarrow> instant \<Rightarrow> instant \<Rightarrow> instant \<Rightarrow> bool \<Rightarrow> ('c, nat) inner
   \<Rightarrow> ('c, 'e) task \<times> ('c, nat) inner" where
  "get_loop sh w t1 t2 start waited s =
     (if closed sh then (Finished (GetFailed Closed), s)
      else get_wait sh w t1 t2 start waited wait_ready_new s)"

text \<open>The first poll of \<open>get\<close>: the flag, the fast path, then \<open>get_inner\<close> under its timeout.\<close>

definition get_start ::
  "shared \<Rightarrow> nat \<Rightarrow> instant \<Rightarrow> instant \<Rightarrow> ('c, nat) inner \<Rightarrow> ('c, 'e) task \<times> ('c, nat) inner" where
  "get_start sh w t1 t2 s =
     (if closed sh then (Finished (GetFailed Closed), s)
      else if \<not> test_on_check_out (conf sh)
      then (case pop_fresh_idle sh t1 s of
              (Some held, s1) \<Rightarrow> hand_out sh False t2 t2 held s1
            | (None, s1) \<Rightarrow> get_loop sh w t1 t2 t2 False s1)
      else get_loop sh w t1 t2 t2 False s)"

text \<open>\<open>is_valid\<close> resolved: it had the connection by mutable reference and leaves \<open>r\<close>.\<close>

definition set_raw :: "'c \<Rightarrow> 'c held \<Rightarrow> 'c held" where
  "set_raw r h = h\<lparr>h_conn := map_option (\<lambda>c. c\<lparr>raw := r\<rparr>) (h_conn h)\<rparr>"

definition get_validated ::
  "shared \<Rightarrow> nat \<Rightarrow> instant \<Rightarrow> instant \<Rightarrow> 'c \<Rightarrow> bool \<Rightarrow> 'c held \<Rightarrow> instant \<Rightarrow> bool \<Rightarrow> ('c, nat) inner
   \<Rightarrow> ('c, 'e) task \<times> ('c, nat) inner" where
  "get_validated sh w t1 t2 r valid held start waited s =
     (if \<not> valid
      then get_loop sh w t1 t2 start waited (held_drop sh (set_raw r held) (note_broken s))
      else hand_out sh waited start t2 (set_raw r held) s)"

definition fill :: "'c \<Rightarrow> instant \<Rightarrow> 'c held \<Rightarrow> 'c held" where
  "fill r now h = h\<lparr>h_conn := Some \<lparr>raw = r, created_at = now, last_used = now\<rparr>\<rparr>"

definition get_connected ::
  "shared \<Rightarrow> instant \<Rightarrow> instant \<Rightarrow> 'c \<Rightarrow> 'c held \<Rightarrow> instant \<Rightarrow> bool \<Rightarrow> ('c, nat) inner
   \<Rightarrow> ('c, 'e) task \<times> ('c, nat) inner" where
  "get_connected sh t1 t2 r held start waited s =
     hand_out sh waited start t2 (fill r t1 held) (note_created s)"

definition get_connect_failed ::
  "shared \<Rightarrow> 'e \<Rightarrow> 'c held \<Rightarrow> instant \<Rightarrow> bool \<Rightarrow> ('c, nat) inner
   \<Rightarrow> ('c, 'e) task \<times> ('c, nat) inner" where
  "get_connect_failed sh e held start waited s =
     (if retry_connection (conf sh) \<and> \<not> closed sh
      then (GetBackoff start waited, held_drop sh held s)
      else (Finished (GetFailed (User e)), held_drop sh held s))"

section \<open>try_get\<close>

text \<open>The \<open>while let\<close> over idle connections, then the attempt to open one.\<close>

definition try_loop ::
  "shared \<Rightarrow> instant \<Rightarrow> instant \<Rightarrow> ('c, nat) inner \<Rightarrow> ('c, 'e) task \<times> ('c, nat) inner" where
  "try_loop sh t1 t2 s =
     (case pop_fresh_idle sh t1 s of
        (Some held, s1) \<Rightarrow>
          if test_on_check_out (conf sh) then (TryValidating held, s1)
          else hand_out sh False t2 t2 held s1
      | (None, s1) \<Rightarrow>
          (case try_reserve sh s1 of
             Some (held, s2) \<Rightarrow> (TryConnecting held, s2)
           | None \<Rightarrow> (Finished NoConnection, s1)))"

definition try_start ::
  "shared \<Rightarrow> instant \<Rightarrow> instant \<Rightarrow> ('c, nat) inner \<Rightarrow> ('c, 'e) task \<times> ('c, nat) inner" where
  "try_start sh t1 t2 s =
     (if closed sh then (Finished (GetFailed Closed), s) else try_loop sh t1 t2 s)"

definition try_validated ::
  "shared \<Rightarrow> instant \<Rightarrow> instant \<Rightarrow> 'c \<Rightarrow> bool \<Rightarrow> 'c held \<Rightarrow> ('c, nat) inner
   \<Rightarrow> ('c, 'e) task \<times> ('c, nat) inner" where
  "try_validated sh t1 t2 r valid held s =
     (if \<not> valid then try_loop sh t1 t2 (held_drop sh (set_raw r held) (note_broken s))
      else hand_out sh False t2 t2 (set_raw r held) s)"

definition try_connected ::
  "shared \<Rightarrow> instant \<Rightarrow> instant \<Rightarrow> 'c \<Rightarrow> 'c held \<Rightarrow> ('c, nat) inner
   \<Rightarrow> ('c, 'e) task \<times> ('c, nat) inner" where
  "try_connected sh t1 t2 r held s =
     hand_out sh False t1 t2 (fill r t1 held) (note_created s)"

section \<open>warm and maintain\<close>

definition warm_loop ::
  "shared \<Rightarrow> u32 \<Rightarrow> ('c, nat) inner \<Rightarrow> ('c, 'e) task \<times> ('c, nat) inner" where
  "warm_loop sh made s =
     (if idle_len s < min_idle (conf sh)
      then (case try_reserve sh s of
              None \<Rightarrow> (Finished (Warmed made), s)
            | Some (held, s1) \<Rightarrow> (WarmConnecting held made, s1))
      else (Finished (Warmed made), s))"

definition warm_start :: "shared \<Rightarrow> ('c, nat) inner \<Rightarrow> ('c, 'e) task \<times> ('c, nat) inner" where
  "warm_start sh s = (if closed sh then (Finished (Warmed 0), s) else warm_loop sh 0 s)"

definition warm_connected ::
  "shared \<Rightarrow> instant \<Rightarrow> instant \<Rightarrow> 'c \<Rightarrow> 'c held \<Rightarrow> u32 \<Rightarrow> ('c, nat) inner
   \<Rightarrow> ('c, 'e) task \<times> ('c, nat) inner" where
  "warm_connected sh t1 t2 r held made s =
     warm_loop sh (made + 1) (into_idle sh t2 (fill r t1 held) (note_created s))"

definition maintain_start ::
  "shared \<Rightarrow> instant \<Rightarrow> ('c, nat) inner \<Rightarrow> ('c, 'e) task \<times> ('c, nat) inner" where
  "maintain_start sh now s = warm_start sh (snd (reap sh now s))"

section \<open>One step of one task\<close>

datatype ('c, 'e) signal =
    Resume
  | Validity 'c bool
  | Connected 'c
  | ConnectFailed 'e
  | Elapsed
  | DropIt
  | TakeIt
  | Use 'c

text \<open>Dropping a suspended future: the locals it owns, and the connection lost with them.\<close>

fun task_cancel ::
  "shared \<Rightarrow> ('c, 'e) task \<Rightarrow> ('c, nat) inner \<Rightarrow> ('c conn option \<times> ('c, nat) inner) option" where
  "task_cancel sh GetStart s = Some (None, s)"
| "task_cancel sh (GetWaiting wr start waited) s = Some (None, wait_ready_drop wr s)"
| "task_cancel sh (GetValidating h start waited) s = Some (h_conn h, held_drop sh h s)"
| "task_cancel sh (GetConnecting h start waited) s = Some (h_conn h, held_drop sh h s)"
| "task_cancel sh (GetBackoff start waited) s = Some (None, s)"
| "task_cancel sh TryStart s = Some (None, s)"
| "task_cancel sh (TryValidating h) s = Some (h_conn h, held_drop sh h s)"
| "task_cancel sh (TryConnecting h) s = Some (h_conn h, held_drop sh h s)"
| "task_cancel sh MaintainStart s = Some (None, s)"
| "task_cancel sh WarmStart s = Some (None, s)"
| "task_cancel sh (WarmConnecting h made) s = Some (h_conn h, held_drop sh h s)"
| "task_cancel sh (Leased p) s = None"
| "task_cancel sh (Finished r) s = None"

text \<open>Whether \<open>get_inner\<close> is running, so that the timeout around it can elapse.\<close>

fun timed :: "('c, 'e) task \<Rightarrow> bool" where
  "timed (GetWaiting wr start waited) = True"
| "timed (GetValidating h start waited) = True"
| "timed (GetConnecting h start waited) = True"
| "timed (GetBackoff start waited) = True"
| "timed t = False"

text \<open>Resuming a task: its first poll, a poll of its wait, or the end of its backoff sleep.\<close>

definition on_resume ::
  "shared \<Rightarrow> nat \<Rightarrow> instant \<Rightarrow> instant \<Rightarrow> ('c, 'e) task \<Rightarrow> ('c, nat) inner
   \<Rightarrow> (('c, 'e) task \<times> ('c, nat) inner) option" where
  "on_resume sh w t1 t2 t s =
     (case t of
        GetStart \<Rightarrow> Some (get_start sh w t1 t2 s)
      | GetWaiting wr start waited \<Rightarrow> Some (get_wait sh w t1 t2 start waited wr s)
      | GetBackoff start waited \<Rightarrow> Some (get_loop sh w t1 t2 start waited s)
      | TryStart \<Rightarrow> Some (try_start sh t1 t2 s)
      | WarmStart \<Rightarrow> Some (warm_start sh s)
      | MaintainStart \<Rightarrow> Some (maintain_start sh t1 s)
      | _ \<Rightarrow> None)"

definition on_validity ::
  "shared \<Rightarrow> nat \<Rightarrow> instant \<Rightarrow> instant \<Rightarrow> 'c \<Rightarrow> bool \<Rightarrow> ('c, 'e) task \<Rightarrow> ('c, nat) inner
   \<Rightarrow> (('c, 'e) task \<times> ('c, nat) inner) option" where
  "on_validity sh w t1 t2 r ok t s =
     (case t of
        GetValidating h start waited \<Rightarrow> Some (get_validated sh w t1 t2 r ok h start waited s)
      | TryValidating h \<Rightarrow> Some (try_validated sh t1 t2 r ok h s)
      | _ \<Rightarrow> None)"

definition on_connected ::
  "shared \<Rightarrow> instant \<Rightarrow> instant \<Rightarrow> 'c \<Rightarrow> ('c, 'e) task \<Rightarrow> ('c, nat) inner
   \<Rightarrow> (('c, 'e) task \<times> ('c, nat) inner) option" where
  "on_connected sh t1 t2 r t s =
     (case t of
        GetConnecting h start waited \<Rightarrow> Some (get_connected sh t1 t2 r h start waited s)
      | TryConnecting h \<Rightarrow> Some (try_connected sh t1 t2 r h s)
      | WarmConnecting h made \<Rightarrow> Some (warm_connected sh t1 t2 r h made s)
      | _ \<Rightarrow> None)"

definition on_connect_failed ::
  "shared \<Rightarrow> 'e \<Rightarrow> ('c, 'e) task \<Rightarrow> ('c, nat) inner
   \<Rightarrow> (('c, 'e) task \<times> ('c, nat) inner) option" where
  "on_connect_failed sh e t s =
     (case t of
        GetConnecting h start waited \<Rightarrow> Some (get_connect_failed sh e h start waited s)
      | TryConnecting h \<Rightarrow> Some (Finished (GetFailed (User e)), held_drop sh h s)
      | WarmConnecting h made \<Rightarrow> Some (Finished (WarmFailed (User e)), held_drop sh h s)
      | _ \<Rightarrow> None)"

text \<open>The timeout around \<open>get_inner\<close>, or around one dial of \<open>warm\<close>, elapses.\<close>

definition on_elapsed ::
  "shared \<Rightarrow> ('c, 'e) task \<Rightarrow> ('c, nat) inner \<Rightarrow> (('c, 'e) task \<times> ('c, nat) inner) option" where
  "on_elapsed sh t s =
     (case t of
        WarmConnecting h made \<Rightarrow> Some (Finished (WarmFailed TimedOut), held_drop sh h s)
      | _ \<Rightarrow>
          if timed t
          then map_option (\<lambda>(lost, s1). (Finished (GetTimedOut lost), note_timed_out s1))
                 (task_cancel sh t s)
          else None)"

text \<open>The owner drops the future or the lease.\<close>

definition on_drop ::
  "'c has_broken \<Rightarrow> shared \<Rightarrow> instant \<Rightarrow> instant \<Rightarrow> ('c, 'e) task \<Rightarrow> ('c, nat) inner
   \<Rightarrow> (('c, 'e) task \<times> ('c, nat) inner) option" where
  "on_drop hb sh t1 t2 t s =
     (case t of
        Leased p \<Rightarrow> Some (Finished Recycled, pooled_drop hb sh t1 t2 p s)
      | _ \<Rightarrow> map_option (\<lambda>(lost, s1). (Finished (Abandoned lost), s1)) (task_cancel sh t s))"

definition on_take ::
  "shared \<Rightarrow> ('c, 'e) task \<Rightarrow> ('c, nat) inner \<Rightarrow> (('c, 'e) task \<times> ('c, nat) inner) option" where
  "on_take sh t s =
     (case t of
        Leased p \<Rightarrow> map_option (\<lambda>(r, s1). (Finished (Taken r), s1)) (pooled_take sh p s)
      | _ \<Rightarrow> None)"

definition on_use ::
  "'c \<Rightarrow> ('c, 'e) task \<Rightarrow> ('c, nat) inner \<Rightarrow> (('c, 'e) task \<times> ('c, nat) inner) option" where
  "on_use r t s =
     (case t of Leased p \<Rightarrow> Some (Leased (pooled_deref_mut (\<lambda>_. r) p), s) | _ \<Rightarrow> None)"

fun task_step ::
  "'c has_broken \<Rightarrow> shared \<Rightarrow> nat \<Rightarrow> instant \<Rightarrow> instant \<Rightarrow> ('c, 'e) signal \<Rightarrow> ('c, 'e) task
   \<Rightarrow> ('c, nat) inner \<Rightarrow> (('c, 'e) task \<times> ('c, nat) inner) option" where
  "task_step hb sh w t1 t2 Resume t s = on_resume sh w t1 t2 t s"
| "task_step hb sh w t1 t2 (Validity r ok) t s = on_validity sh w t1 t2 r ok t s"
| "task_step hb sh w t1 t2 (Connected r) t s = on_connected sh t1 t2 r t s"
| "task_step hb sh w t1 t2 (ConnectFailed e) t s = on_connect_failed sh e t s"
| "task_step hb sh w t1 t2 Elapsed t s = on_elapsed sh t s"
| "task_step hb sh w t1 t2 DropIt t s = on_drop hb sh t1 t2 t s"
| "task_step hb sh w t1 t2 TakeIt t s = on_take sh t s"
| "task_step hb sh w t1 t2 (Use r) t s = on_use r t s"

lemmas signal_defs = on_resume_def on_validity_def on_connected_def on_connect_failed_def
  on_elapsed_def on_drop_def on_take_def on_use_def

section \<open>A thread\<close>

record ('c, 'e) thread =
  th_shared :: shared
  th_pool :: "('c, nat) inner"
  th_tasks :: "('c, 'e) task list"

datatype call = CallGet | CallTryGet | CallWarm | CallMaintain

fun call_task :: "call \<Rightarrow> ('c, 'e) task" where
  "call_task CallGet = GetStart"
| "call_task CallTryGet = TryStart"
| "call_task CallWarm = WarmStart"
| "call_task CallMaintain = MaintainStart"

datatype ('c, 'e) event =
    Call call
  | OnTask nat instant instant "('c, 'e) signal"
  | Reap instant
  | Clear
  | Close

definition thread_new :: "pool_config \<Rightarrow> bool \<Rightarrow> ('c, 'e) thread" where
  "thread_new cfg features =
     \<lparr>th_shared = \<lparr>conf = cfg, closed = False\<rparr>, th_pool = local_pool_new features, th_tasks = []\<rparr>"

text \<open>\<open>Pool::close\<close>.\<close>

definition pool_close :: "shared \<Rightarrow> shared" where
  "pool_close sh = sh\<lparr>closed := True\<rparr>"

fun thread_step ::
  "'c has_broken \<Rightarrow> ('c, 'e) event \<Rightarrow> ('c, 'e) thread \<Rightarrow> ('c, 'e) thread option" where
  "thread_step hb (Call c) th = Some (th\<lparr>th_tasks := th_tasks th @ [call_task c]\<rparr>)"
| "thread_step hb (OnTask i t1 t2 sig) th =
     (if i < length (th_tasks th)
      then map_option
             (\<lambda>(t, s). th\<lparr>th_pool := s, th_tasks := (th_tasks th)[i := t]\<rparr>)
             (task_step hb (th_shared th) i t1 t2 sig (th_tasks th ! i) (th_pool th))
      else None)"
| "thread_step hb (Reap now) th =
     Some (th\<lparr>th_pool := snd (reap (th_shared th) now (th_pool th))\<rparr>)"
| "thread_step hb Clear th = Some (th\<lparr>th_pool := snd (clear (th_shared th) (th_pool th))\<rparr>)"
| "thread_step hb Close th = Some (th\<lparr>th_shared := pool_close (th_shared th)\<rparr>)"

fun thread_run ::
  "'c has_broken \<Rightarrow> ('c, 'e) event list \<Rightarrow> ('c, 'e) thread \<Rightarrow> ('c, 'e) thread option" where
  "thread_run hb [] th = Some th"
| "thread_run hb (e # es) th =
     (case thread_step hb e th of None \<Rightarrow> None | Some th' \<Rightarrow> thread_run hb es th')"

end
