(* ===== verification/Thread_Inv.thy ===== *)
theory Thread_Inv
  imports Tasks
begin

text \<open>
  What the tasks of a thread own, and that every step keeps the books straight. \<open>resources\<close> is
  what a task holds against the pool: slots, connections that are out of the idle list, tickets of
  the wait queue. Resources add up, so they form a commutative monoid and \<open>sum_list\<close> totals a
  thread's. The locale \<open>framed_tasks\<close> lifts a law about one task, stated against an arbitrary
  frame of what the others hold, to a whole list of tasks; it is interpreted on \<open>task_step\<close>.
\<close>

section \<open>Resources\<close>

datatype resources = Resources (slots_held: nat) (conns_out: nat) (tickets: "u64 multiset")

instantiation resources :: comm_monoid_add
begin

definition zero_resources :: resources where
  "zero_resources = Resources 0 0 {#}"

definition plus_resources :: "resources \<Rightarrow> resources \<Rightarrow> resources" where
  "plus_resources a b =
     Resources (slots_held a + slots_held b) (conns_out a + conns_out b) (tickets a + tickets b)"

instance
  by standard (simp_all add: zero_resources_def plus_resources_def)

end

lemma resources_sel [simp]:
  "slots_held (a + b) = slots_held a + slots_held b"
  "conns_out (a + b) = conns_out a + conns_out b"
  "tickets (a + b) = tickets a + tickets b"
  "slots_held 0 = 0" "conns_out 0 = 0" "tickets 0 = {#}"
  by (simp_all add: plus_resources_def zero_resources_def)

lemma resources_zero [simp]: "Resources 0 0 {#} = 0"
  by (simp add: zero_resources_def)

fun outcome_resources :: "('c, 'e) outcome \<Rightarrow> resources" where
  "outcome_resources (Taken r) = Resources 0 1 {#}"
| "outcome_resources (Abandoned (Some c)) = Resources 0 1 {#}"
| "outcome_resources (GetTimedOut (Some c)) = Resources 0 1 {#}"
| "outcome_resources r = Resources 0 0 {#}"

fun resources_of :: "('c, 'e) task \<Rightarrow> resources" where
  "resources_of (GetWaiting wr start waited) = Resources 0 0 (ticket wr)"
| "resources_of (GetValidating h start waited) = Resources 1 1 {#}"
| "resources_of (GetConnecting h start waited) = Resources 1 0 {#}"
| "resources_of (TryValidating h) = Resources 1 1 {#}"
| "resources_of (TryConnecting h) = Resources 1 0 {#}"
| "resources_of (WarmConnecting h made) = Resources 1 0 {#}"
| "resources_of (Leased p) = Resources 1 1 {#}"
| "resources_of (Finished r) = outcome_resources r"
| "resources_of t = Resources 0 0 {#}"

text \<open>The shape of a task's locals: full when validating or leased, empty while dialling.\<close>

fun task_ok :: "('c, 'e) task \<Rightarrow> bool" where
  "task_ok (GetWaiting wr start waited) \<longleftrightarrow> wr_id wr \<noteq> None"
| "task_ok (GetValidating h start waited) \<longleftrightarrow> h_conn h \<noteq> None \<and> \<not> h_released h"
| "task_ok (GetConnecting h start waited) \<longleftrightarrow> h_conn h = None \<and> \<not> h_released h"
| "task_ok (TryValidating h) \<longleftrightarrow> h_conn h \<noteq> None \<and> \<not> h_released h"
| "task_ok (TryConnecting h) \<longleftrightarrow> h_conn h = None \<and> \<not> h_released h"
| "task_ok (WarmConnecting h made) \<longleftrightarrow> h_conn h = None \<and> \<not> h_released h"
| "task_ok (Leased p) \<longleftrightarrow> p_conn p \<noteq> None"
| "task_ok t \<longleftrightarrow> True"

definition pool_inv :: "shared \<Rightarrow> resources \<Rightarrow> ('c, 'w) inner \<Rightarrow> bool" where
  "pool_inv sh r s \<longleftrightarrow>
     accounts sh (slots_held r) (conns_out r) s \<and> owed sh 0 (tickets r) s"

text \<open>A task and the pool agree, given what everybody else holds.\<close>

definition sound :: "shared \<Rightarrow> resources \<Rightarrow> ('c, 'e) task \<Rightarrow> ('c, nat) inner \<Rightarrow> bool" where
  "sound sh f t s \<longleftrightarrow> pool_inv sh (resources_of t + f) s \<and> task_ok t"

definition keeps ::
  "shared \<Rightarrow> resources \<Rightarrow> ('c, 'e) task \<times> ('c, nat) inner \<Rightarrow> bool" where
  "keeps sh f r \<longleftrightarrow> sound sh f (fst r) (snd r)"

lemma keeps_pair [simp]: "keeps sh f (t, s) = sound sh f t s"
  by (simp add: keeps_def)

section \<open>Tickets are issued one at a time\<close>

abbreviation nid :: "('c, 'w) inner \<Rightarrow> u64" where
  "nid s \<equiv> next_id (waiters s)"

lemma unregister_next_id [simp]: "next_id (snd (unregister i q)) = next_id q"
  by (auto simp: unregister_def Let_def split: sum.splits)

lemma nid_simps [simp]:
  "nid (observe f s) = nid s" "nid (notify sh n s) = nid s"
  "nid (release_slots n s) = nid s" "nid (release_slot sh s) = nid s"
  "nid (push_idle c s) = nid s" "nid (note_expired r s) = nid s"
  "nid (note_created s) = nid s" "nid (note_broken s) = nid s"
  "nid (note_closed_manual n s) = nid s" "nid (note_timed_out s) = nid s"
  "nid (record_acquire w a b s) = nid s" "nid (held_drop sh h s) = nid s"
  "nid (snd (into_pooled sh h s)) = nid s"
  by (simp_all add: notify_def release_slots_def release_slot_def push_idle_def note_expired_def
      note_created_def note_broken_def note_closed_manual_def note_timed_out_def record_acquire_def
      held_drop_def into_pooled_def)

lemma nid_into_idle [simp]: "nid (into_idle sh now h s) = nid s"
  by (simp add: into_idle_def Let_def split: option.split)

lemma nid_pop_idle: "pop_idle s = (r, s') \<Longrightarrow> nid s' = nid s"
  by (auto simp: pop_idle_def split: prod.splits option.splits)

lemma nid_try_reserve: "try_reserve sh s = Some (g, s') \<Longrightarrow> nid s' = nid s"
  by (auto simp: try_reserve_def take_slot_def Let_def split: if_splits)

lemma nid_pop_fresh_idle: "pop_fresh_idle sh now s = (r, s') \<Longrightarrow> nid s' = nid s"
proof (induction sh now s rule: pop_fresh_idle.induct)
  case (1 sh now s)
  show ?case
    using "1.prems" "1.IH"
    by (auto simp: pop_fresh_idle.simps [of sh now s] nid_pop_idle
        split: prod.splits option.splits)
qed

lemma nid_fold_note_expired [simp]: "nid (fold note_expired rs s) = nid s"
  by (induction rs arbitrary: s) simp_all

lemma nid_reap [simp]: "nid (snd (reap sh now s)) = nid s"
  by (auto simp: reap_def reap_scan_eq Let_def)

lemma nid_clear [simp]: "nid (snd (clear sh s)) = nid s"
  by (auto simp: clear_def Let_def)

lemma unregister_next_idD: "unregister i q = (b, q') \<Longrightarrow> next_id q' = next_id q"
  using unregister_next_id [of i q] by simp

lemma nid_wait_ready_drop [simp]: "nid (wait_ready_drop wr s) = nid s"
  by (auto simp: wait_ready_drop_def wake_def unregister_next_idD
      split: option.splits prod.splits bool.splits)

lemma nid_wait_ready_poll_ready:
  "wait_ready_poll sh w wr s = (Some b, wr', s') \<Longrightarrow> nid s' = nid s"
  by (auto simp: wait_ready_poll_def Let_def split: if_splits option.splits prod.splits)

lemma register_next_id:
  "next_id (snd (register i w q)) = next_id q \<or> next_id (snd (register i w q)) = next_id q + 1"
  by (auto simp: register_def Let_def split: option.splits)

lemma nid_wait_ready_poll_pending:
  "wait_ready_poll sh w wr s = (None, wr', s') \<Longrightarrow> nid s' = nid s \<or> nid s' = nid s + 1"
  using register_next_id [of "wr_id wr" w "waiters s"]
  by (auto simp: wait_ready_poll_def Let_def split: if_splits prod.splits)

lemma id_room_cong: "nid s' = nid s \<Longrightarrow> id_room (waiters s') = id_room (waiters s)"
  by (simp add: id_room_def)

section \<open>Every suspension point is sound\<close>

lemma wait_ready_drop_empty: "wr_id wr = None \<Longrightarrow> wait_ready_drop wr s = s"
  by (simp add: wait_ready_drop_def)

lemma wait_ready_poll_spent:
  "wait_ready_poll sh w wr s = (Some b, wr', s') \<Longrightarrow> wr_id wr' = None"
  by (auto simp: wait_ready_poll_def Let_def split: if_splits prod.splits)

lemma hand_out_eq:
  "hand_out sh waited start now h s = (Leased \<lparr>p_conn = h_conn h\<rparr>, record_acquire waited start now s)"
  by (simp add: hand_out_def into_pooled_def held_drop_def)

lemma sound_hand_out:
  assumes "accounts sh (Suc h) (Suc k) s" and "owed sh 0 T s" and "h_conn g \<noteq> None"
    and "hand_out sh waited start now g s = (t', s')"
  shows "sound sh (Resources h k T) t' s'"
  using assms by (auto simp: hand_out_eq sound_def pool_inv_def intro: owed_record_acquire)

text \<open>With nothing free, nobody is owed a wake-up.\<close>

lemma owed_exhausted: "owed sh d T s \<Longrightarrow> capacity sh s = 0 \<Longrightarrow> owed sh 0 T s"
  by (auto simp: owed_def)

lemma no_room_capacity:
  "pop_fresh_idle sh now s = (None, s') \<Longrightarrow> try_reserve sh s' = None \<Longrightarrow> capacity sh s' = 0"
  by (auto simp: capacity_def try_reserve_def inner_connections_def word_less_nat_alt Let_def
      dest!: pop_fresh_idle_None split: if_splits)

text \<open>What the waiting loop of \<open>get\<close> does once it is its turn: an idle connection, or a slot to dial in.\<close>

lemma sound_idle_taken:
  assumes "accounts sh h k s" and "owed sh (Suc 0) T s" and q: "pop_fresh_idle sh now s = (Some g, s2)"
    and r: "(if test_on_check_out (conf sh) then (GetValidating g start waited, s2) else hand_out sh waited start t2 g s2) = (t', s')"
  shows "sound sh (Resources h k T) t' s'"
proof -
  have a: "accounts sh (Suc h) (Suc k) s2" and o: "owed sh 0 T s2"
    using accounts_pop_fresh_idle [OF assms(1) q] owed_pop_fresh_idle [OF assms(2) q] by simp_all
  note held = pop_fresh_idle_held [OF q]
  show ?thesis
  proof (cases "test_on_check_out (conf sh)")
    case True
    with r a o held show ?thesis by (auto simp: sound_def pool_inv_def)
  next
    case False
    with r a o held show ?thesis by (intro sound_hand_out [where g = g]) auto
  qed
qed

lemma sound_slot_reserved:
  assumes "accounts sh h k s" and "owed sh (Suc 0) T s" and v: "try_reserve sh s = Some (g, s')"
  shows "sound sh (Resources h k T) (GetConnecting g start waited) s'"
proof -
  have "h_conn g = None" "\<not> h_released g"
    using v by (auto simp: try_reserve_def Let_def split: if_splits)
  with accounts_try_reserve [OF assms(1) v] owed_try_reserve [OF assms(2) v] show ?thesis
    by (auto simp: sound_def pool_inv_def)
qed

lemma sound_get_wait:
  assumes "accounts sh h k s" and "owed sh 0 (ticket wr + T) s" and "id_room (waiters s)"
    and "get_wait sh w t1 t2 start waited wr s = (t', s')"
  shows "sound sh (Resources h k T) t' s'"
  using assms
proof (induction sh w t1 t2 start waited wr s rule: get_wait.induct)
  case (1 sh w t1 t2 start waited wr s)
  obtain r wr' s1 where p: "wait_ready_poll sh w wr s = (r, wr', s1)"
    by (cases "wait_ready_poll sh w wr s")
  note unfold = "1.prems"(4) [unfolded get_wait.simps [of sh w t1 t2 start waited wr s] p]
  show ?case
  proof (cases r)
    case None
    note o = owed_wait_ready_pending [OF "1.prems"(2) p [unfolded None] "1.prems"(3)]
    have "accounts sh h k s1" using "1.prems"(1) o(2-4) accounts_cong by blast
    with o unfold None show ?thesis by (auto simp: sound_def pool_inv_def)
  next
    case (Some parked)
    note rd = p [unfolded Some]
    note o = owed_wait_ready_ready [OF "1.prems"(2) rd]
    have a: "accounts sh h k s1" using "1.prems"(1) o(2-4) accounts_cong by blast
    note wd = wait_ready_drop_empty [OF wait_ready_poll_spent [OF rd], of s1]
    obtain g s2 where q: "pop_fresh_idle sh t1 s1 = (g, s2)" by (cases "pop_fresh_idle sh t1 s1")
    note a2 = accounts_pop_fresh_idle [OF a q] and o2 = owed_pop_fresh_idle [OF o(1) q]
    have n2: "id_room (waiters s2)"
      using "1.prems"(3) nid_pop_fresh_idle [OF q] nid_wait_ready_poll_ready [OF rd] by (simp add: id_room_def)
    consider "closed sh" | held where "\<not> closed sh" "g = Some held"
      | held s3 where "\<not> closed sh" "g = None" "try_reserve sh s2 = Some (held, s3)"
      | "\<not> closed sh" "g = None" "try_reserve sh s2 = None"
      by (cases g; cases "try_reserve sh s2") auto
    then show ?thesis
    proof cases
      case 1
      with unfold Some o(1) a wd show ?thesis by (auto simp: sound_def pool_inv_def intro: owed_closed)
    next
      case 2
      with unfold Some wd q show ?thesis by (intro sound_idle_taken [OF a o(1) q [unfolded 2(2)]]) simp
    next
      case 3
      with unfold Some wd q a2 o2 show ?thesis by (auto intro: sound_slot_reserved)
    next
      case 4
      have "pop_fresh_idle sh t1 (wait_ready_drop wr' s1) = (None, s2)" using q 4 wd by simp
      note IH = "1.IH" [OF rd [symmetric] refl refl 4(1) this [symmetric] refl 4(3) 4(1)]
      have "owed sh 0 (ticket wait_ready_new + T) s2"
        using owed_exhausted [OF _ no_room_capacity [OF q [unfolded 4(2)] 4(3)]] o2 4 by simp
      with unfold Some wd q 4 IH a2 n2 show ?thesis by simp
    qed
  qed
qed

lemma sound_finished:
  "accounts sh h k s \<Longrightarrow> owed sh 0 T s \<Longrightarrow> outcome_resources r = 0 \<Longrightarrow>
   sound sh (Resources h k T) (Finished r) s"
  by (simp add: sound_def pool_inv_def)

lemma sound_get_loop:
  assumes "accounts sh h k s" and "owed sh 0 T s" and "id_room (waiters s)"
  shows "keeps sh (Resources h k T) (get_loop sh w t1 t2 start waited s)"
  using assms
  by (auto simp: get_loop_def keeps_def intro: sound_finished sound_get_wait [OF _ _ _ surjective_pairing])

lemma keeps_hand_out:
  assumes "accounts sh (Suc h) (Suc k) s" and "owed sh 0 T s" and "h_conn g \<noteq> None"
  shows "keeps sh (Resources h k T) (hand_out sh waited start now g s)"
  using sound_hand_out [OF assms surjective_pairing] by (simp add: keeps_def)

lemma sound_get_start:
  assumes "accounts sh h k s" and "owed sh 0 T s" and "id_room (waiters s)"
  shows "keeps sh (Resources h k T) (get_start sh w t1 t2 s)"
proof -
  obtain g s1 where q: "pop_fresh_idle sh t1 s = (g, s1)" by (cases "pop_fresh_idle sh t1 s")
  note a = accounts_pop_fresh_idle [OF assms(1) q] and o = owed_pop_fresh_idle [OF assms(2) q]
    and n = id_room_cong [OF nid_pop_fresh_idle [OF q]]
  show ?thesis
  proof (cases g)
    case None
    with a o n assms q show ?thesis
      by (auto simp: get_start_def intro!: sound_get_loop sound_finished)
  next
    case (Some held)
    with a o assms q pop_fresh_idle_held [OF q [unfolded Some]] show ?thesis
      by (auto simp: get_start_def intro!: sound_get_loop sound_finished keeps_hand_out)
  qed
qed

lemma accounts_held_drop:
  "accounts sh (Suc h) k s \<Longrightarrow> \<not> h_released g \<Longrightarrow> accounts sh h k (held_drop sh g s)"
  by (simp add: held_drop_def accounts_release_slot)

lemma owed_held_drop: "owed sh d T s \<Longrightarrow> owed sh d T (held_drop sh g s)"
  by (simp add: held_drop_def owed_release_slot)

lemma set_raw_sel [simp]:
  "h_released (set_raw r g) = h_released g"
  "h_conn (set_raw r g) = map_option (\<lambda>c. c\<lparr>raw := r\<rparr>) (h_conn g)"
  by (simp_all add: set_raw_def)

lemma fill_sel [simp]:
  "h_released (fill r now g) = h_released g"
  "h_conn (fill r now g) = Some \<lparr>raw = r, created_at = now, last_used = now\<rparr>"
  by (simp_all add: fill_def)

text \<open>A connection that failed its validation is closed and its slot given back.\<close>

lemma reject_held:
  assumes "accounts sh (Suc h) (Suc k) s" and "owed sh 0 T s" and "\<not> h_released g"
  shows "accounts sh h k (held_drop sh g (note_broken s))"
    and "owed sh 0 T (held_drop sh g (note_broken s))"
  using assms
  by (auto intro: accounts_held_drop accounts_note_broken owed_held_drop owed_note_broken)

lemma sound_get_validated:
  assumes "accounts sh (Suc h) (Suc k) s" and "owed sh 0 T s" and "id_room (waiters s)"
    and "h_conn g \<noteq> None" and "\<not> h_released g"
  shows "keeps sh (Resources h k T) (get_validated sh w t1 t2 r ok g start waited s)"
proof (cases ok)
  case True
  with assms show ?thesis by (auto simp: get_validated_def intro!: keeps_hand_out)
next
  case False
  have "\<not> h_released (set_raw r g)" using assms(5) by simp
  note rej = reject_held [OF assms(1,2) this]
  have "id_room (waiters (held_drop sh (set_raw r g) (note_broken s)))"
    using assms(3) by (simp add: id_room_def)
  with rej False show ?thesis by (auto simp: get_validated_def intro!: sound_get_loop)
qed

lemma sound_connected:
  assumes "accounts sh (Suc h) k s" and "owed sh 0 T s"
  shows "keeps sh (Resources h k T) (hand_out sh waited start now (fill r t1 g) (note_created s))"
  using assms by (intro keeps_hand_out accounts_note_created owed_note_created) simp_all

lemma sound_try_loop:
  assumes "accounts sh h k s" and "owed sh 0 T s"
  shows "keeps sh (Resources h k T) (try_loop sh t1 t2 s)"
proof -
  obtain g s1 where q: "pop_fresh_idle sh t1 s = (g, s1)" by (cases "pop_fresh_idle sh t1 s")
  note a = accounts_pop_fresh_idle [OF assms(1) q] and o = owed_pop_fresh_idle [OF assms(2) q]
  show ?thesis
  proof (cases g)
    case (Some held)
    note hd = pop_fresh_idle_held [OF q [unfolded Some]]
    show ?thesis
    proof (cases "test_on_check_out (conf sh)")
      case True
      with a o hd q Some show ?thesis by (auto simp: try_loop_def sound_def pool_inv_def)
    next
      case False
      with a o hd q Some show ?thesis by (auto simp: try_loop_def intro!: keeps_hand_out)
    qed
  next
    case None
    with a o have a1: "accounts sh h k s1" and o1: "owed sh 0 T s1" by simp_all
    show ?thesis
    proof (cases "try_reserve sh s1")
      case v: None
      with q None a1 o1 show ?thesis by (simp add: try_loop_def sound_finished)
    next
      case (Some res)
      obtain held s2 where v: "try_reserve sh s1 = Some (held, s2)" using Some by (cases res) auto
      have "h_conn held = None" "\<not> h_released held"
        using v by (auto simp: try_reserve_def Let_def split: if_splits)
      with accounts_try_reserve [OF a1 v] owed_try_reserve [OF o1 v] q v None show ?thesis
        by (simp add: try_loop_def sound_def pool_inv_def)
    qed
  qed
qed

lemma sound_try_validated:
  assumes "accounts sh (Suc h) (Suc k) s" and "owed sh 0 T s"
    and "h_conn g \<noteq> None" and "\<not> h_released g"
  shows "keeps sh (Resources h k T) (try_validated sh t1 t2 r ok g s)"
proof (cases ok)
  case True
  with assms show ?thesis by (auto simp: try_validated_def intro!: keeps_hand_out)
next
  case False
  have "\<not> h_released (set_raw r g)" using assms(4) by simp
  from reject_held [OF assms(1,2) this] False show ?thesis
    by (auto simp: try_validated_def intro!: sound_try_loop)
qed

lemma sound_warm_loop:
  assumes "accounts sh h k s" and "owed sh 0 T s"
  shows "keeps sh (Resources h k T) (warm_loop sh made s)"
proof (cases "idle_len s < min_idle (conf sh) \<and> try_reserve sh s \<noteq> None")
  case False
  with assms show ?thesis by (cases "try_reserve sh s") (auto simp: warm_loop_def sound_finished)
next
  case True
  then obtain held s1 where v: "try_reserve sh s = Some (held, s1)" by auto
  have "h_conn held = None" "\<not> h_released held"
    using v by (auto simp: try_reserve_def Let_def split: if_splits)
  with accounts_try_reserve [OF assms(1) v] owed_try_reserve [OF assms(2) v] v True show ?thesis
    by (simp add: warm_loop_def sound_def pool_inv_def)
qed

lemma sound_warm_start:
  assumes "accounts sh h k s" and "owed sh 0 T s"
  shows "keeps sh (Resources h k T) (warm_start sh s)"
  using assms by (simp add: warm_start_def sound_finished sound_warm_loop)

lemma sound_warm_connected:
  assumes "accounts sh (Suc h) k s" and "owed sh 0 T s"
  shows "keeps sh (Resources h k T) (warm_connected sh t1 t2 r g made s)"
  unfolding warm_connected_def
proof (rule sound_warm_loop)
  show "accounts sh h k (into_idle sh t2 (fill r t1 g) (note_created s))"
    using assms(1) by (simp add: into_idle_def held_drop_def accounts_push_idle accounts_note_created)
  show "owed sh 0 T (into_idle sh t2 (fill r t1 g) (note_created s))"
    using assms(2) by (simp add: into_idle_def held_drop_def owed_push_idle owed_note_created)
qed

lemma unregister_booksD: "unregister i q = (b, q') \<Longrightarrow> queue_books q' = queue_books q"
  using unregister_books [of i q] by simp

lemma register_booksD: "register i w q = (j, q') \<Longrightarrow> queue_books q' = queue_books q"
  using register_books [of i w q] by simp

lemma books_wait_ready_drop [simp]: "books_of (wait_ready_drop wr s) = books_of s"
  by (auto simp: wait_ready_drop_def books_of_def unregister_booksD
      split: option.splits prod.splits bool.splits)

lemma books_wait_ready_poll: "wait_ready_poll sh w wr s = (r, wr', s') \<Longrightarrow> books_of s' = books_of s"
  by (auto simp: wait_ready_poll_def Let_def books_of_def register_booksD
      split: if_splits option.splits prod.splits)

lemma accounts_wait_ready_drop [simp]:
  "accounts sh h k (wait_ready_drop wr s) = accounts sh h k s"
  by (rule accounts_cong) (simp_all add: wait_ready_drop_sel)

lemma sound_pooled_drop:
  assumes "accounts sh (Suc h) (Suc k) s" and "owed sh 0 T s" and "p_conn p \<noteq> None"
  shows "sound sh (Resources h k T) (Finished Recycled) (pooled_drop hb sh n1 n2 p s)"
proof (rule sound_finished)
  note close = accounts_release_slot [OF accounts_note_broken [OF assms(1)]]
    accounts_release_slot [OF accounts_note_expired [OF assms(1)]]
    accounts_release_slot [OF accounts_note_closed_manual [OF assms(1)]]
  show "accounts sh h k (pooled_drop hb sh n1 n2 p s)"
    using assms(3) close accounts_push_idle [OF assms(1)]
    by (auto simp: pooled_drop_def Let_def split: option.split prod.split)
  show "owed sh 0 T (pooled_drop hb sh n1 n2 p s)"
    using assms(2)
    by (auto simp: pooled_drop_def Let_def split: option.split prod.split
        intro: owed_release_slot owed_notes owed_push_idle)
qed simp

text \<open>
  Dropping a suspended future gives back its slot and its ticket. A connection it was validating is
  closed with it, and counted nowhere.
\<close>

lemma sound_cancel:
  assumes "sound sh (Resources h k T) t s" and "task_cancel sh t s = Some (lost, s')"
  shows "accounts sh h ((if lost = None then 0 else 1) + k) s'" and "owed sh 0 T s'"
  using assms
  by (cases t; auto simp: sound_def pool_inv_def intro: accounts_held_drop owed_held_drop
      owed_wait_ready_drop)+


section \<open>Every step of a task is sound\<close>

lemma sound_cases:
  assumes "sound sh (Resources h k T) t s"
  shows "accounts sh (slots_held (resources_of t) + h) (conns_out (resources_of t) + k) s"
    and "owed sh 0 (tickets (resources_of t) + T) s" and "task_ok t"
  using assms by (simp_all add: sound_def pool_inv_def)

lemma sound_resume:
  assumes "sound sh (Resources h k T) t s" and "id_room (waiters s)"
    and "on_resume sh w t1 t2 t s = Some r"
  shows "keeps sh (Resources h k T) r"
proof (cases t)
  case (GetWaiting wr start waited)
  with assms show ?thesis
    using sound_get_wait [OF _ _ assms(2) surjective_pairing, of sh h k wr T w t1 t2 start waited]
    by (auto simp: on_resume_def keeps_def sound_def pool_inv_def)
qed (use assms sound_cases [OF assms(1)] in \<open>auto simp: on_resume_def maintain_start_def try_start_def
  intro!: sound_get_start sound_get_loop sound_finished sound_try_loop sound_warm_start
    accounts_reap owed_reap\<close>)

lemma sound_validity:
  assumes "sound sh (Resources h k T) t s" and "id_room (waiters s)"
    and "on_validity sh w t1 t2 r ok t s = Some x"
  shows "keeps sh (Resources h k T) x"
  using assms sound_cases [OF assms(1)]
  by (cases t) (auto simp: on_validity_def intro!: sound_get_validated sound_try_validated)

lemma sound_on_connected:
  assumes "sound sh (Resources h k T) t s" and "on_connected sh t1 t2 r t s = Some x"
  shows "keeps sh (Resources h k T) x"
  using assms sound_cases [OF assms(1)]
  by (cases t) (auto simp: on_connected_def get_connected_def try_connected_def
      intro!: sound_connected sound_warm_connected)

lemma sound_connect_failed:
  assumes "sound sh (Resources h k T) t s" and "on_connect_failed sh e t s = Some x"
  shows "keeps sh (Resources h k T) x"
proof -
  have idle_task: "sound sh (Resources h k T) (GetBackoff start waited) s'"
    if "accounts sh h k s'" "owed sh 0 T s'" for start waited s'
    using that by (simp add: sound_def pool_inv_def)
  show ?thesis
    using assms sound_cases [OF assms(1)]
    by (cases t) (auto simp: on_connect_failed_def get_connect_failed_def split: if_splits
        intro!: idle_task sound_finished accounts_held_drop owed_held_drop)
qed

lemma sound_lost:
  assumes "accounts sh h ((if lost = None then 0 else 1) + k) s" and "owed sh 0 T s"
  shows "sound sh (Resources h k T) (Finished (GetTimedOut lost)) s"
    and "sound sh (Resources h k T) (Finished (Abandoned lost)) s"
  using assms by (cases lost; simp add: sound_def pool_inv_def)+

lemma sound_elapsed:
  assumes "sound sh (Resources h k T) t s" and "on_elapsed sh t s = Some x"
  shows "keeps sh (Resources h k T) x"
proof (cases "\<exists>h made. t = WarmConnecting h made")
  case True
  with assms sound_cases [OF assms(1)] show ?thesis
    by (auto simp: on_elapsed_def intro!: sound_finished accounts_held_drop owed_held_drop)
next
  case False
  then obtain lost s1 where c: "task_cancel sh t s = Some (lost, s1)"
    and x: "x = (Finished (GetTimedOut lost), note_timed_out s1)"
    using assms(2) by (cases t) (auto simp: on_elapsed_def split: if_splits)
  from sound_cancel [OF assms(1) c] show ?thesis
    unfolding x keeps_pair by (intro sound_lost owed_note_timed_out) simp_all
qed

lemma sound_drop:
  assumes "sound sh (Resources h k T) t s" and "on_drop hb sh t1 t2 t s = Some x"
  shows "keeps sh (Resources h k T) x"
proof (cases "\<exists>p. t = Leased p")
  case True
  with assms sound_cases [OF assms(1)] show ?thesis
    by (auto simp: on_drop_def intro!: sound_pooled_drop)
next
  case False
  then obtain lost s1 where c: "task_cancel sh t s = Some (lost, s1)"
    and x: "x = (Finished (Abandoned lost), s1)"
    using assms(2) by (cases t) (auto simp: on_drop_def)
  from sound_cancel [OF assms(1) c] show ?thesis
    unfolding x keeps_pair by (intro sound_lost)
qed

lemma sound_take:
  assumes "sound sh (Resources h k T) t s" and "on_take sh t s = Some x"
  shows "keeps sh (Resources h k T) x"
  using assms sound_cases [OF assms(1)]
  by (cases t) (auto simp: on_take_def pooled_take_def sound_def pool_inv_def
      intro!: accounts_release_slot owed_release_slot)

lemma sound_use:
  assumes "sound sh (Resources h k T) t s" and "on_use r t s = Some x"
  shows "keeps sh (Resources h k T) x"
  using assms by (cases t) (auto simp: on_use_def pooled_deref_mut_def sound_def pool_inv_def)

lemmas sound_signals = sound_resume sound_validity sound_on_connected sound_connect_failed
  sound_elapsed sound_drop sound_take sound_use

lemma task_step_sound:
  assumes "sound sh f t s" and "id_room (waiters s)" and "task_step hb sh w t1 t2 sig t s = Some (t', s')"
  shows "sound sh f t' s'"
proof (cases f)
  case (Resources h k T)
  have "keeps sh (Resources h k T) (t', s')"
    using assms unfolding Resources by (cases sig) (auto dest: sound_signals)
  then show ?thesis by (simp add: Resources)
qed

end
