(* ===== verification/Thread_Runs.thy ===== *)
theory Thread_Runs
  imports Thread_Inv
begin

text \<open>
  Runs of a thread: any interleaving of calls, resumptions, cancellations, maintenance and shutdown
  keeps the invariant of \<open>Thread_Inv\<close>. The locale \<open>framed_tasks\<close> is the argument, stated once
  for any pool of tasks whose resources add up: a law about one task, given an arbitrary frame of
  what the others hold, is a law about the list. It is interpreted on \<open>task_step\<close>.
\<close>

section \<open>Tasks that share a pool\<close>

locale framed_tasks =
  fixes inv :: "'r::comm_monoid_add \<Rightarrow> 's \<Rightarrow> bool"
    and res :: "'t \<Rightarrow> 'r"
    and ok :: "'t \<Rightarrow> bool"
    and room :: "'s \<Rightarrow> bool"
    and step :: "nat \<Rightarrow> 'e \<Rightarrow> 't \<Rightarrow> 's \<Rightarrow> ('t \<times> 's) option"
  assumes step_framed:
    "inv (res t + f) s \<Longrightarrow> ok t \<Longrightarrow> room s \<Longrightarrow> step i e t s = Some (t', s') \<Longrightarrow>
     inv (res t' + f) s' \<and> ok t'"
begin

definition group_inv :: "'t list \<Rightarrow> 's \<Rightarrow> bool" where
  "group_inv ts s \<longleftrightarrow> inv (sum_list (map res ts)) s \<and> (\<forall>t \<in> set ts. ok t)"

lemma group_split:
  assumes "i < length ts"
  shows "sum_list (map res (ts[i := t]))
    = res t + (sum_list (map res (take i ts)) + sum_list (map res (drop (Suc i) ts)))"
  using assms by (simp add: upd_conv_take_nth_drop add.commute add.left_commute)

lemma group_step:
  assumes "group_inv ts s" and "room s" and "i < length ts" and "step i e (ts ! i) s = Some (t', s')"
  shows "group_inv (ts[i := t']) s'"
proof -
  let ?f = "sum_list (map res (take i ts)) + sum_list (map res (drop (Suc i) ts))"
  have "inv (res (ts ! i) + ?f) s" and "ok (ts ! i)"
    using assms group_split [of i ts "ts ! i"] by (auto simp: group_inv_def)
  from step_framed [OF this assms(2,4)] have "inv (res t' + ?f) s'" and "ok t'" by simp_all
  then show ?thesis
    using assms(1,3) group_split [of i ts t'] set_update_subset_insert [of ts i t']
    by (auto simp: group_inv_def)
qed

end

definition task_event_step ::
  "'c has_broken \<Rightarrow> shared \<Rightarrow> nat \<Rightarrow> instant \<times> instant \<times> ('c, 'e) signal \<Rightarrow> ('c, 'e) task
   \<Rightarrow> ('c, nat) inner \<Rightarrow> (('c, 'e) task \<times> ('c, nat) inner) option" where
  "task_event_step hb sh i e t s = (case e of (t1, t2, sig) \<Rightarrow> task_step hb sh i t1 t2 sig t s)"

interpretation ft: framed_tasks "pool_inv sh" resources_of task_ok "\<lambda>s. id_room (waiters s)"
  "task_event_step hb sh" for hb sh
  by unfold_locales (auto simp: task_event_step_def sound_def dest!: task_step_sound [rotated 2]
      split: prod.splits)

section \<open>Ticket numbers over a run\<close>

lemma nid_get_wait:
  "get_wait sh w t1 t2 start waited wr s = (t', s') \<Longrightarrow> nid s' = nid s \<or> nid s' = nid s + 1"
proof (induction sh w t1 t2 start waited wr s rule: get_wait.induct)
  case (1 sh w t1 t2 start waited wr s)
  show ?case
    using "1.prems" "1.IH"
    by (auto simp: get_wait.simps [of sh w t1 t2 start waited wr s] hand_out_eq
        dest!: nid_wait_ready_poll_pending nid_wait_ready_poll_ready nid_pop_fresh_idle
          nid_try_reserve split: prod.splits option.splits if_splits)
qed

definition advanced :: "('c, 'w) inner \<Rightarrow> ('c, 'w) inner \<Rightarrow> bool" where
  "advanced s s' \<longleftrightarrow> nid s' = nid s \<or> nid s' = nid s + 1"

lemma advanced_same: "nid s' = nid s \<Longrightarrow> advanced s s'"
  by (simp add: advanced_def)

lemma advanced_from: "advanced s s' \<Longrightarrow> nid s = nid s0 \<Longrightarrow> advanced s0 s'"
  by (simp add: advanced_def)

lemma advanced_get_wait: "advanced s (snd (get_wait sh w t1 t2 start waited wr s))"
  using nid_get_wait [OF surjective_pairing] by (simp add: advanced_def)

lemma advanced_get_loop: "advanced s (snd (get_loop sh w t1 t2 start waited s))"
  by (simp add: get_loop_def advanced_get_wait advanced_same)

lemma advanced_get_start: "advanced s (snd (get_start sh w t1 t2 s))"
proof -
  obtain g s1 where q: "pop_fresh_idle sh t1 s = (g, s1)" by (cases "pop_fresh_idle sh t1 s")
  have "advanced s (snd (get_loop sh w t1 t2 t2 False s1))"
    by (rule advanced_from [OF advanced_get_loop nid_pop_fresh_idle [OF q]])
  then show ?thesis
    using nid_pop_fresh_idle [OF q]
    by (auto simp: get_start_def q hand_out_eq advanced_same advanced_get_loop split: option.split)
qed

lemma advanced_get_validated: "advanced s (snd (get_validated sh w t1 t2 r ok g start waited s))"
  unfolding get_validated_def
  by (auto simp: hand_out_eq intro: advanced_same advanced_from [OF advanced_get_loop])

lemma nid_try_loop: "nid (snd (try_loop sh t1 t2 s)) = nid s"
  by (auto simp: try_loop_def hand_out_eq dest!: nid_pop_fresh_idle nid_try_reserve
      split: prod.splits option.splits)

lemma nid_warm_loop: "nid (snd (warm_loop sh made s)) = nid s"
  by (auto simp: warm_loop_def dest!: nid_try_reserve split: option.splits)

lemma nid_task_cancel: "task_cancel sh t s = Some (lost, s') \<Longrightarrow> nid s' = nid s"
  by (cases t) auto

lemma nid_pooled_drop: "nid (pooled_drop hb sh n1 n2 p s) = nid s"
  by (simp add: pooled_drop_def Let_def split: option.split prod.split)

lemma nid_pooled_take: "pooled_take sh p s = Some (r, s') \<Longrightarrow> nid s' = nid s"
  by (auto simp: pooled_take_def)

lemmas nid_calls = nid_try_loop nid_warm_loop nid_task_cancel nid_pooled_drop nid_pooled_take

lemmas call_defs = get_connected_def try_connected_def warm_connected_def get_connect_failed_def
  try_start_def try_validated_def warm_start_def maintain_start_def

text \<open>What evaluates a step on a concrete thread.\<close>

lemmas step_evals = thread_new_def local_pool_new_def signal_defs call_defs get_start_def get_loop_def
  get_wait.simps wait_ready_poll_def ready_now_def inner_connections_def default_config_def
  wait_ready_new_def wait_ready_drop_def pop_fresh_idle.simps pop_idle_def vec_pop_def vec_push_def
  try_reserve_def take_slot_def observe_def on_metrics_def waiters_new_def hand_out_def into_pooled_def
  held_drop_def record_acquire_def note_created_def fill_def pooled_deref_mut_def pooled_drop_def
  push_idle_def notify_def wake_def expiry_def duration_since_def from_secs_def get_validated_def set_raw_def

lemma task_step_advanced: "task_step hb sh w t1 t2 sig t s = Some x \<Longrightarrow> advanced s (snd x)"
  by (cases sig; cases t)
    (auto simp: signal_defs call_defs hand_out_eq nid_calls split: if_splits
      intro: advanced_same advanced_get_start advanced_get_wait advanced_get_loop
        advanced_get_validated)

section \<open>The invariant of a thread\<close>

definition thread_inv :: "('c, 'e) thread \<Rightarrow> bool" where
  "thread_inv th \<longleftrightarrow>
     pool_inv (th_shared th) (sum_list (map resources_of (th_tasks th))) (th_pool th) \<and>
     (\<forall>t \<in> set (th_tasks th). task_ok t)"

lemma thread_inv_group: "thread_inv th = ft.group_inv (th_shared th) (th_tasks th) (th_pool th)"
  by (simp add: thread_inv_def ft.group_inv_def)

lemma resources_call_task [simp]: "resources_of (call_task c) = 0" "task_ok (call_task c)"
  by (cases c; simp)+

lemma pool_inv_reap: "pool_inv sh r s \<Longrightarrow> pool_inv sh r (snd (reap sh now s))"
  by (simp add: pool_inv_def accounts_reap owed_reap)

lemma pool_inv_clear: "pool_inv sh r s \<Longrightarrow> pool_inv sh r (snd (clear sh s))"
  by (simp add: pool_inv_def accounts_clear owed_clear)

lemma pool_inv_close: "pool_inv sh r s \<Longrightarrow> pool_inv (pool_close sh) r s"
  by (auto simp: pool_inv_def pool_close_def accounts_def owed_def)

lemma pool_inv_new: "pool_inv sh 0 (local_pool_new features)"
  by (auto simp: pool_inv_def local_pool_new_def accounts_def books_of_def queue_books_def books_def
      metrics_default_def closed_total_def owed_def queue_inv_new [unfolded waiters_new_def] waiters_mirrored_def
      waiters_len_def ticket_ids_def waiters_new_def wq.ledger_def)

lemma accounts_new: "accounts sh 0 0 (local_pool_new features)"
  by (rule conjunct1 [OF pool_inv_new [unfolded pool_inv_def resources_sel]])

lemma thread_inv_new: "thread_inv (thread_new cfg features)"
  by (simp add: thread_inv_def thread_new_def pool_inv_new)

lemma thread_gauges:
  assumes "thread_inv th" and "w_metrics (waiters (th_pool th)) = Some m"
  shows "snapshot_state m = local_state (th_pool th)"
proof -
  have "m_connections m = slots (th_pool th)" "m_idle m = as_u32 (length (idle (th_pool th)))"
    using assms by (auto simp: thread_inv_def pool_inv_def accounts_def books_of_def queue_books_def books_def)
  moreover have "m_waiters m = waiters_len (waiters (th_pool th))"
    using assms by (auto simp: thread_inv_def pool_inv_def owed_def waiters_mirrored_def)
  ultimately show ?thesis
    by (simp add: snapshot_state_def local_state_def inner_connections_def idle_len_def)
qed

lemma thread_step_inv:
  assumes "thread_inv th" and "id_room (waiters (th_pool th))" and "thread_step hb e th = Some th'"
  shows "thread_inv th'"
proof (cases e)
  case (OnTask i t1 t2 sig)
  then obtain t s where "i < length (th_tasks th)"
    and "task_event_step hb (th_shared th) i (t1, t2, sig) (th_tasks th ! i) (th_pool th) = Some (t, s)"
    and "th' = th\<lparr>th_pool := s, th_tasks := (th_tasks th)[i := t]\<rparr>"
    using assms(3) by (auto simp: task_event_step_def split: if_splits)
  with ft.group_step [of "th_shared th" "th_tasks th" "th_pool th"] assms(1,2) show ?thesis
    by (simp add: thread_inv_group)
next
  case (Call c)
  with assms(1,3) show ?thesis by (auto simp: thread_inv_def)
next
  case (Reap now)
  with assms(1,3) show ?thesis by (auto simp: thread_inv_def pool_inv_reap)
next
  case Clear
  with assms(1,3) show ?thesis by (auto simp: thread_inv_def pool_inv_clear)
next
  case Close
  with assms(1,3) show ?thesis by (auto simp: thread_inv_def pool_inv_close)
qed

lemma thread_step_advanced: "thread_step hb e th = Some th' \<Longrightarrow> advanced (th_pool th) (th_pool th')"
  by (cases e) (auto simp: advanced_same dest!: task_step_advanced split: if_splits)

lemma unat_plus_one_le: "unat (x + 1 :: u64) \<le> unat x + 1"
  by (simp add: unat_word_ariths)

lemma advanced_unat: "advanced s s' \<Longrightarrow> unat (nid s') \<le> unat (nid s) + 1"
  using unat_plus_one_le by (auto simp: advanced_def)

lemma thread_run_inv:
  assumes "thread_inv th" and "unat (nid (th_pool th)) + length evs + 1 < 2 ^ 64"
    and "thread_run hb evs th = Some th'"
  shows "thread_inv th'"
  using assms
proof (induction evs arbitrary: th)
  case (Cons e es)
  then obtain th1 where st: "thread_step hb e th = Some th1" and rn: "thread_run hb es th1 = Some th'"
    by (auto split: option.splits)
  have room: "id_room (waiters (th_pool th))" using Cons.prems(2) by (simp add: id_room_def)
  have "thread_inv th1" using thread_step_inv [OF Cons.prems(1) room st] .
  moreover have "unat (nid (th_pool th1)) \<le> unat (nid (th_pool th)) + 1"
    using thread_step_advanced [OF st] by (rule advanced_unat)
  ultimately show ?case using Cons.IH rn Cons.prems(2) by simp
qed simp

text \<open>A run from a fresh pool, within the numbering of tickets.\<close>

definition reaches :: "'c has_broken \<Rightarrow> pool_config \<Rightarrow> bool \<Rightarrow> ('c, 'e) event list \<Rightarrow> ('c, 'e) thread \<Rightarrow> bool" where
  "reaches hb cfg features evs th \<longleftrightarrow>
     thread_run hb evs (thread_new cfg features) = Some th \<and> length evs < 2 ^ 64 - 2"

lemma reaches_inv: "reaches hb cfg features evs th \<Longrightarrow> thread_inv th"
  by (auto simp: reaches_def intro: thread_run_inv [OF thread_inv_new]
      simp: thread_new_def local_pool_new_def waiters_new_def)


lemma thread_run_nid:
  "thread_run hb evs th = Some th' \<Longrightarrow> unat (nid (th_pool th')) \<le> unat (nid (th_pool th)) + length evs"
proof (induction evs arbitrary: th)
  case (Cons e es)
  then obtain th1 where st: "thread_step hb e th = Some th1" and rn: "thread_run hb es th1 = Some th'"
    by (auto split: option.splits)
  show ?case using advanced_unat [OF thread_step_advanced [OF st]] Cons.IH [OF rn] by simp
qed simp

lemma reaches_room: "reaches hb cfg features evs th \<Longrightarrow> id_room (waiters (th_pool th))"
  by (auto simp: reaches_def id_room_def thread_new_def local_pool_new_def waiters_new_def
      dest!: thread_run_nid)

end
