(* ===== verification/Walks.thy ===== *)
theory Walks
  imports Thread_Runs "HOL-Library.Sublist"
begin

text \<open>
  What every step of a pool preserves because each of its primitive updates does. All of
  \<open>Local_Pool\<close> and \<open>Tasks\<close> is made of six updates of \<open>Inner\<close>: a write to the counters, to
  the idle list, to the slot count, and the three operations of the wait queue. The locale
  \<open>pool_walk\<close> takes a reflexive and transitive relation the six respect and derives it for every
  operation, every step of a task and every step of a thread. It is interpreted on the presence of
  the metrics block and on the log of wake-ups.
\<close>

locale pool_walk =
  fixes R :: "('c, nat) inner \<Rightarrow> ('c, nat) inner \<Rightarrow> bool"
  assumes walk_refl: "R s s"
    and walk_trans: "R a b \<Longrightarrow> R b c \<Longrightarrow> R a c"
    and walk_observe: "R s (observe f s)"
    and walk_idle: "R s (s\<lparr>idle := xs\<rparr>)"
    and walk_slots: "R s (s\<lparr>slots := n\<rparr>)"
    and walk_wake_loop: "R s (s\<lparr>waiters := wake_loop k (waiters s)\<rparr>)"
    and walk_register: "R s (s\<lparr>waiters := snd (register i w (waiters s))\<rparr>)"
    and walk_unregister: "R s (s\<lparr>waiters := snd (unregister j (waiters s))\<rparr>)"
begin

lemma walk_then:
  "R s t \<Longrightarrow> R s (observe f t)" "R s t \<Longrightarrow> R s (t\<lparr>idle := xs\<rparr>)" "R s t \<Longrightarrow> R s (t\<lparr>slots := n\<rparr>)"
  "R s t \<Longrightarrow> R s (t\<lparr>waiters := wake_loop k (waiters t)\<rparr>)"
  by (blast intro: walk_trans walk_observe walk_idle walk_slots walk_wake_loop)+

lemma walk_wake_all: "R s t \<Longrightarrow> R s (t\<lparr>waiters := wake_all (waiters t)\<rparr>)"
  using wake_all_eq_wake_loop [of "waiters t"] walk_then(4) by metis

lemma walk_notify: "R s t \<Longrightarrow> R s (notify sh n t)"
  by (auto simp: notify_def wake_def intro: walk_then walk_wake_all)

lemma walk_release_slots: "R s t \<Longrightarrow> R s (release_slots n t)"
  by (simp add: release_slots_def walk_then)

lemma walk_release_slot: "R s t \<Longrightarrow> R s (release_slot sh t)"
  by (simp add: release_slot_def walk_notify walk_release_slots)

lemma walk_push_idle: "R s t \<Longrightarrow> R s (push_idle c t)"
  by (simp add: push_idle_def walk_then)

lemma walk_notes:
  "R s t \<Longrightarrow> R s (note_expired r t)" "R s t \<Longrightarrow> R s (note_created t)" "R s t \<Longrightarrow> R s (note_broken t)"
  "R s t \<Longrightarrow> R s (note_closed_manual n t)" "R s t \<Longrightarrow> R s (note_timed_out t)"
  "R s t \<Longrightarrow> R s (record_acquire w a b t)"
  by (simp_all add: note_expired_def note_created_def note_broken_def note_closed_manual_def
      note_timed_out_def record_acquire_def walk_then)

lemma walk_held_drop: "R s t \<Longrightarrow> R s (held_drop sh h t)"
  by (simp add: held_drop_def walk_release_slot)

lemma walk_into_idle: "R s t \<Longrightarrow> R s (into_idle sh now h t)"
  by (simp add: into_idle_def Let_def walk_held_drop walk_notify walk_push_idle split: option.split)

lemma walk_pop_idle: "pop_idle t = (r, t') \<Longrightarrow> R s t \<Longrightarrow> R s t'"
  by (auto simp: pop_idle_def walk_then split: prod.splits option.splits)

lemma walk_try_reserve: "try_reserve sh t = Some (h, t') \<Longrightarrow> R s t \<Longrightarrow> R s t'"
  by (auto simp: try_reserve_def take_slot_def Let_def walk_then split: if_splits)

lemma walk_pop_fresh_idle: "pop_fresh_idle sh now t = (r, t') \<Longrightarrow> R s t \<Longrightarrow> R s t'"
proof (induction sh now t rule: pop_fresh_idle.induct)
  case (1 sh now t)
  obtain c t1 where p: "pop_idle t = (c, t1)" by (cases "pop_idle t")
  with "1.prems"(2) have w: "R s t1" by (auto intro: walk_pop_idle)
  show ?case
  proof (cases "\<exists>c' reason. c = Some c' \<and> expiry c' now (conf sh) = Some reason")
    case True
    then obtain c' reason where c: "c = Some c'" "expiry c' now (conf sh) = Some reason" by blast
    from w have "R s (release_slot sh (note_expired reason t1))"
      by (intro walk_release_slot walk_notes)
    then show ?thesis
      using "1.IH" [OF p [symmetric] c] "1.prems"(1) p c by (simp add: pop_fresh_idle.simps [of sh now t])
  next
    case False
    with p w "1.prems"(1) show ?thesis
      by (auto simp: pop_fresh_idle.simps [of sh now t] split: option.splits)
  qed
qed

lemma walk_fold_note_expired: "R s t \<Longrightarrow> R s (fold note_expired rs t)"
  by (induction rs arbitrary: t) (simp_all add: walk_notes)

lemma walk_reap: "R s t \<Longrightarrow> R s (snd (reap sh now t))"
  by (auto simp: reap_def reap_scan_eq Let_def
      intro!: walk_notify walk_release_slots walk_then walk_fold_note_expired)

lemma walk_clear: "R s t \<Longrightarrow> R s (snd (clear sh t))"
  by (auto simp: clear_def Let_def intro!: walk_notify walk_release_slots walk_then walk_notes)

lemma walk_registerD: "register i w (waiters t) = (j, q) \<Longrightarrow> R s t \<Longrightarrow> R s (t\<lparr>waiters := q\<rparr>)"
  using walk_trans [OF _ walk_register [of t i w], of s] by simp

lemma walk_unregisterD: "unregister i (waiters t) = (b, q) \<Longrightarrow> R s t \<Longrightarrow> R s (t\<lparr>waiters := q\<rparr>)"
  using walk_trans [OF _ walk_unregister [of t i], of s] by simp

lemma walk_after_queue:
  assumes "R s (t\<lparr>waiters := q\<rparr>)"
  shows "R s (t\<lparr>waiters := wake n q\<rparr>)" and "R s (t\<lparr>waiters := wake_all q\<rparr>)"
  using walk_then(4) [OF assms, of "unat n"] walk_wake_all [OF assms] by (simp_all add: wake_def)

lemma walk_wait_ready_poll:
  assumes "wait_ready_poll sh w wr t = (r, wr', t')" and "R s t"
  shows "R s t'"
proof -
  have q: "R s (t\<lparr>waiters := (case wr_id wr of Some i \<Rightarrow> snd (unregister i (waiters t)) | None \<Rightarrow> waiters t)\<rparr>)"
    using assms(2) walk_unregisterD [OF surjective_pairing assms(2)] by (simp split: option.split)
  show ?thesis
    using assms(1) q walk_after_queue(2) [OF q] walk_registerD [OF _ assms(2)]
    by (auto simp: wait_ready_poll_def Let_def split: if_splits prod.splits)
qed

lemma walk_wait_ready_drop: "R s t \<Longrightarrow> R s (wait_ready_drop wr t)"
  by (auto simp: wait_ready_drop_def split: option.split prod.split bool.split
      intro: walk_unregisterD walk_after_queue)

lemma walk_hand_out: "R s t \<Longrightarrow> R s (snd (hand_out sh waited start now h t))"
  by (simp add: hand_out_eq walk_notes)

lemma walk_get_wait: "get_wait sh w t1 t2 start waited wr t = (r, t') \<Longrightarrow> R s t \<Longrightarrow> R s t'"
proof (induction sh w t1 t2 start waited wr t rule: get_wait.induct)
  case (1 sh w t1 t2 start waited wr t)
  obtain a wr' t3 where p: "wait_ready_poll sh w wr t = (a, wr', t3)"
    by (cases "wait_ready_poll sh w wr t")
  obtain g t4 where q: "pop_fresh_idle sh t1 (wait_ready_drop wr' t3) = (g, t4)"
    by (cases "pop_fresh_idle sh t1 (wait_ready_drop wr' t3)")
  have w3: "R s t3" using walk_wait_ready_poll [OF p "1.prems"(2)] .
  have w4: "R s t4" using walk_pop_fresh_idle [OF q walk_wait_ready_drop [OF w3]] .
  show ?case
    using "1.prems"(1) "1.IH" [OF p [symmetric] _ refl _ q [symmetric]] p q w3 w4
      walk_wait_ready_drop [OF w3] walk_hand_out [OF w4] walk_try_reserve [OF _ w4]
    by (auto simp: get_wait.simps [of sh w t1 t2 start waited wr t] hand_out_eq walk_notes
        split: option.splits if_splits)
qed

lemma walk_get_loop: "R s t \<Longrightarrow> R s (snd (get_loop sh w t1 t2 start waited t))"
  using walk_get_wait [OF surjective_pairing] by (auto simp: get_loop_def)

lemma walk_get_start:
  assumes "R s t"
  shows "R s (snd (get_start sh w t1 t2 t))"
proof -
  obtain g t' where q: "pop_fresh_idle sh t1 t = (g, t')" by (cases "pop_fresh_idle sh t1 t")
  have "R s t'" using walk_pop_fresh_idle [OF q assms] .
  with assms q show ?thesis
    by (auto simp: get_start_def intro: walk_get_loop walk_hand_out split: option.split)
qed

lemma walk_try_loop:
  assumes "R s t"
  shows "R s (snd (try_loop sh t1 t2 t))"
proof -
  obtain g t' where q: "pop_fresh_idle sh t1 t = (g, t')" by (cases "pop_fresh_idle sh t1 t")
  have "R s t'" using walk_pop_fresh_idle [OF q assms] .
  with q show ?thesis
    by (auto simp: try_loop_def intro: walk_hand_out walk_try_reserve split: option.split)
qed

lemma walk_warm_loop: "R s t \<Longrightarrow> R s (snd (warm_loop sh made t))"
  by (auto simp: warm_loop_def intro: walk_try_reserve split: option.split)

lemma walk_pooled_drop: "R s t \<Longrightarrow> R s (pooled_drop hb sh n1 n2 p t)"
  by (auto simp: pooled_drop_def Let_def split: option.split prod.split
      intro!: walk_release_slot walk_notes walk_notify walk_push_idle)

lemma walk_task_cancel: "task_cancel sh x t = Some (lost, t') \<Longrightarrow> R s t \<Longrightarrow> R s t'"
  by (cases x) (auto intro: walk_held_drop walk_wait_ready_drop)

lemmas walk_ops = walk_get_start walk_get_loop walk_try_loop walk_warm_loop walk_hand_out
  walk_held_drop walk_into_idle walk_notes walk_reap walk_pooled_drop walk_release_slot walk_refl

lemma walk_task_step:
  assumes "task_step hb sh w t1 t2 sig x s = Some y"
  shows "R s (snd y)"
proof (cases sig)
  case Resume
  with assms show ?thesis
    by (cases x) (auto simp: signal_defs call_defs intro!: walk_ops walk_get_wait [OF surjective_pairing])
next
  case Elapsed
  with assms walk_task_cancel [OF _ walk_refl] show ?thesis
    by (cases x) (auto simp: signal_defs intro!: walk_ops walk_wait_ready_drop split: if_splits)
next
  case DropIt
  with assms walk_task_cancel [OF _ walk_refl] show ?thesis
    by (cases x) (auto simp: signal_defs intro!: walk_ops walk_wait_ready_drop)
qed (use assms in \<open>cases x; auto simp: signal_defs call_defs get_validated_def pooled_take_def
  split: if_splits intro!: walk_ops\<close>)+

lemma walk_thread_step: "thread_step hb e th = Some th' \<Longrightarrow> R (th_pool th) (th_pool th')"
  by (cases e) (auto intro!: walk_refl walk_reap walk_clear dest: walk_task_step split: if_splits)

lemma walk_thread_run: "thread_run hb es th = Some th' \<Longrightarrow> R (th_pool th) (th_pool th')"
proof (induction es arbitrary: th)
  case (Cons e es)
  then show ?case
    by (auto split: option.splits intro: walk_trans [OF walk_thread_step])
qed (simp add: walk_refl)

end

section \<open>The metrics block stays\<close>

definition metered :: "('c, 'w) inner \<Rightarrow> bool" where
  "metered s \<longleftrightarrow> w_metrics (waiters s) \<noteq> None"

lemma wake_loop_metered: "(w_metrics (wake_loop k q) = None) = (w_metrics q = None)"
proof (induction k arbitrary: q)
  case (Suc k)
  show ?case by (cases "entries q") (auto simp: Suc.IH Let_def split: prod.splits)
qed simp

interpretation metered: pool_walk "\<lambda>s s' :: ('c, nat) inner. metered s' = metered s"
  by unfold_locales
    (auto simp: metered_def observe_def wake_loop_metered register_def unregister_def Let_def
      split: option.splits sum.splits)

section \<open>The log of wake-ups only grows\<close>

definition wakes_from :: "('c, 'w) inner \<Rightarrow> ('c, 'w) inner \<Rightarrow> 'w list" where
  "wakes_from s s' = drop (length (woken_log (waiters s))) (woken_log (waiters s'))"

interpretation log_grows:
  pool_walk "\<lambda>s s' :: ('c, nat) inner. prefix (woken_log (waiters s)) (woken_log (waiters s'))"
  by unfold_locales
    (auto simp: observe_def wake_loop_log register_def unregister_def Let_def
      split: option.splits sum.splits)

end
