(* ===== verification/Registry.thy ===== *)
theory Registry
  imports Walks
begin

text \<open>
  \<open>Pool\<close> and the rest of \<open>Shared\<close> in \<open>src/src/pool.rs\<close>: the part that crosses threads. A
  process is the shared configuration and flag, the registry of metrics blocks, the retired block,
  and one \<open>LocalPool\<close> per \<open>Pool::local()\<close> call. A \<open>Weak<Metrics>\<close> in the registry is the
  number of the pool whose block it points to; it upgrades as long as that pool has not been
  dropped. \<open>Inner\<close> is reference counted: its \<open>Drop\<close> runs once no call or lease holds it.

  Threads interleave step by step. What each one guarantees, \<open>thread_inv\<close>, is lifted to all of
  them, and the totals \<open>Pool::state\<close> and \<open>Pool::statistics\<close> report are related to what the
  threads report themselves.
\<close>

section \<open>The process\<close>

record ('c, 'e) local_pool =
  lp_inner :: "('c, nat) inner"
  lp_tasks :: "('c, 'e) task list"

record ('c, 'e) process =
  pr_features :: bool
  pr_shared :: shared
  registry :: "nat list"
  retired :: metrics
  pools :: "('c, 'e) local_pool option list"

definition pool_new :: "bool \<Rightarrow> pool_config \<Rightarrow> ('c, 'e) process" where
  "pool_new features cfg =
     \<lparr>pr_features = features, pr_shared = \<lparr>conf = cfg, closed = False\<rparr>, registry = [],
      retired = metrics_default, pools = []\<rparr>"

definition pool_max_size :: "('c, 'e) process \<Rightarrow> u32" where
  "pool_max_size p = max_size (conf (pr_shared p))"

definition pool_is_closed :: "('c, 'e) process \<Rightarrow> bool" where
  "pool_is_closed p = closed (pr_shared p)"

text \<open>\<open>Weak::strong_count() > 0\<close>.\<close>

definition alive :: "('c, 'e) process \<Rightarrow> nat \<Rightarrow> bool" where
  "alive p i \<longleftrightarrow> i < length (pools p) \<and> pools p ! i \<noteq> None"

definition block_of :: "('c, 'e) process \<Rightarrow> nat \<Rightarrow> metrics option" where
  "block_of p i =
     (if i < length (pools p)
      then Option.bind (pools p ! i) (\<lambda>lp. w_metrics (waiters (lp_inner lp)))
      else None)"

text \<open>\<open>Pool::local\<close>: prune the registry, register the new block, add the pool.\<close>

definition pool_local :: "('c, 'e) process \<Rightarrow> ('c, 'e) process" where
  "pool_local p =
     p\<lparr>registry := (if pr_features p
                    then vec_push (filter (alive p) (registry p)) (length (pools p))
                    else registry p),
       pools := pools p @ [Some \<lparr>lp_inner = local_pool_new (pr_features p), lp_tasks = []\<rparr>]\<rparr>"

text \<open>
  \<open>for_each_live_block\<close>: visit the blocks that upgrade, in registry order, and keep only those.
\<close>

fun visit_live ::
  "('c, 'e) process \<Rightarrow> ('a \<Rightarrow> metrics \<Rightarrow> 'a) \<Rightarrow> nat list \<Rightarrow> 'a \<Rightarrow> 'a \<times> nat list" where
  "visit_live p f [] a = (a, [])"
| "visit_live p f (i # is) a =
     (case block_of p i of
        Some m \<Rightarrow> (case visit_live p f is (f a m) of (b, kept) \<Rightarrow> (b, i # kept))
      | None \<Rightarrow> visit_live p f is a)"

definition for_each_live_block ::
  "('a \<Rightarrow> metrics \<Rightarrow> 'a) \<Rightarrow> 'a \<Rightarrow> ('c, 'e) process \<Rightarrow> 'a \<times> ('c, 'e) process" where
  "for_each_live_block f a p =
     (case visit_live p f (registry p) a of (b, kept) \<Rightarrow> (b, p\<lparr>registry := kept\<rparr>))"

definition process_state :: "('c, 'e) process \<Rightarrow> pool_state \<times> ('c, 'e) process" where
  "process_state p =
     (if pr_features p
      then for_each_live_block (\<lambda>st m. state_add st (snapshot_state m)) state_default p
      else (state_default, p))"

definition process_statistics :: "('c, 'e) process \<Rightarrow> statistics \<times> ('c, 'e) process" where
  "process_statistics p =
     (if pr_features p
      then for_each_live_block (\<lambda>st m. statistics_add st (snapshot_statistics m))
             (snapshot_statistics (retired p)) p
      else (statistics_default, p))"

text \<open>
  \<open>Drop for Inner\<close>. The value drops when the last handle does, which needs every call to be over
  and every lease returned; the block's counters move to \<open>retired\<close> and its weak entry dies.
\<close>

definition quiet :: "('c, 'e) task \<Rightarrow> bool" where
  "quiet t \<longleftrightarrow> (case t of Finished r \<Rightarrow> True | _ \<Rightarrow> False)"

definition inner_drop :: "nat \<Rightarrow> ('c, 'e) process \<Rightarrow> ('c, 'e) process option" where
  "inner_drop i p =
     (if i < length (pools p)
      then (case pools p ! i of
              None \<Rightarrow> None
            | Some lp \<Rightarrow>
                if list_all quiet (lp_tasks lp)
                then Some (p\<lparr>retired :=
                               (case w_metrics (waiters (lp_inner lp)) of
                                  Some m \<Rightarrow> snd (retire_into (zero_gauges m) (retired p))
                                | None \<Rightarrow> retired p),
                             pools := (pools p)[i := None]\<rparr>)
                else None)
      else None)"

definition thread_of :: "('c, 'e) process \<Rightarrow> ('c, 'e) local_pool \<Rightarrow> ('c, 'e) thread" where
  "thread_of p lp = \<lparr>th_shared = pr_shared p, th_pool = lp_inner lp, th_tasks = lp_tasks lp\<rparr>"

definition on_thread ::
  "'c has_broken \<Rightarrow> nat \<Rightarrow> ('c, 'e) event \<Rightarrow> ('c, 'e) process \<Rightarrow> ('c, 'e) process option" where
  "on_thread hb i e p =
     (if i < length (pools p)
      then (case pools p ! i of
              None \<Rightarrow> None
            | Some lp \<Rightarrow>
                map_option
                  (\<lambda>th. p\<lparr>pr_shared := th_shared th,
                          pools := (pools p)[i := Some \<lparr>lp_inner = th_pool th, lp_tasks = th_tasks th\<rparr>]\<rparr>)
                  (thread_step hb e (thread_of p lp)))
      else None)"

datatype ('c, 'e) process_event =
    Local
  | OnThread nat "('c, 'e) event"
  | DropLocal nat
  | ReadState
  | ReadStatistics
  | ClosePool

fun process_step ::
  "'c has_broken \<Rightarrow> ('c, 'e) process_event \<Rightarrow> ('c, 'e) process \<Rightarrow> ('c, 'e) process option" where
  "process_step hb Local p = Some (pool_local p)"
| "process_step hb (OnThread i e) p = on_thread hb i e p"
| "process_step hb (DropLocal i) p = inner_drop i p"
| "process_step hb ReadState p = Some (snd (process_state p))"
| "process_step hb ReadStatistics p = Some (snd (process_statistics p))"
| "process_step hb ClosePool p = Some (p\<lparr>pr_shared := pool_close (pr_shared p)\<rparr>)"

fun process_run ::
  "'c has_broken \<Rightarrow> ('c, 'e) process_event list \<Rightarrow> ('c, 'e) process \<Rightarrow> ('c, 'e) process option" where
  "process_run hb [] p = Some p"
| "process_run hb (e # es) p =
     (case process_step hb e p of None \<Rightarrow> None | Some p' \<Rightarrow> process_run hb es p')"

definition live_pools :: "('c, 'e) process \<Rightarrow> ('c, 'e) local_pool list" where
  "live_pools p = List.map_filter (\<lambda>lp. lp) (pools p)"

section \<open>Visiting the registry\<close>

lemma visit_live_eq:
  "visit_live p f is a =
     (foldl f a (List.map_filter (block_of p) is), filter (\<lambda>i. block_of p i \<noteq> None) is)"
  by (induction "is" arbitrary: a) (auto simp: map_filter_simps split: option.splits)

lemma visit_live_visits_kept: "List.map_filter f (filter (\<lambda>i. f i \<noteq> None) is) = List.map_filter f is"
  by (induction "is") (auto simp: map_filter_simps)

lemma for_each_live_block_eq:
  "for_each_live_block f a p =
     (foldl f a (List.map_filter (block_of p) (registry p)),
      p\<lparr>registry := filter (\<lambda>i. block_of p i \<noteq> None) (registry p)\<rparr>)"
  by (simp add: for_each_live_block_def visit_live_eq)

text \<open>The blocks of a list of pools, in order.\<close>

definition blocks :: "('c, 'e) local_pool option list \<Rightarrow> metrics list" where
  "blocks lps = List.map_filter (\<lambda>lp. Option.bind lp (\<lambda>lp. w_metrics (waiters (lp_inner lp)))) lps"

lemma map_filter_cong: "(\<And>x. x \<in> set xs \<Longrightarrow> f x = g x) \<Longrightarrow> List.map_filter f xs = List.map_filter g xs"
  by (induction xs) (auto simp: map_filter_simps split: option.splits)

lemma map_filter_map: "List.map_filter f (map g xs) = List.map_filter (\<lambda>x. f (g x)) xs"
  by (induction xs) (auto simp: map_filter_simps split: option.splits)

lemma map_filter_Cons_append:
  "List.map_filter f (xs @ ys) = List.map_filter f xs @ List.map_filter f ys"
  by (simp add: map_filter_def)

lemma map_filter_upt_nth:
  "List.map_filter (\<lambda>i. if i < length xs then f (xs ! i) else None) [0..<length xs]
     = List.map_filter f xs"
proof -
  have "List.map_filter (\<lambda>i. if i < length xs then f (xs ! i) else None) [0..<length xs]
      = List.map_filter (\<lambda>i. f (xs ! i)) [0..<length xs]"
    by (rule map_filter_cong) simp
  also have "\<dots> = List.map_filter f (map ((!) xs) [0..<length xs])"
    by (simp only: map_filter_map)
  finally show ?thesis by (simp add: map_nth)
qed

lemma blocks_upt: "List.map_filter (block_of p) [0..<length (pools p)] = blocks (pools p)"
  unfolding blocks_def block_of_def by (rule map_filter_upt_nth)

section \<open>The invariant of a process\<close>

definition pools_sound :: "('c, 'e) process \<Rightarrow> bool" where
  "pools_sound p \<longleftrightarrow>
     (\<forall>lp. Some lp \<in> set (pools p) \<longrightarrow>
        thread_inv (thread_of p lp) \<and> metered (lp_inner lp) = pr_features p)"

text \<open>Every live pool is registered once, in the order the pools were made.\<close>

definition registered :: "('c, 'e) process \<Rightarrow> bool" where
  "registered p \<longleftrightarrow>
     (pr_features p \<longrightarrow>
        filter (alive p) (registry p) = filter (alive p) [0..<length (pools p)])"

definition process_inv :: "('c, 'e) process \<Rightarrow> bool" where
  "process_inv p \<longleftrightarrow> pools_sound p \<and> registered p"

definition ticket_room :: "nat \<Rightarrow> ('c, 'e) process \<Rightarrow> bool" where
  "ticket_room n p \<longleftrightarrow>
     (\<forall>lp. Some lp \<in> set (pools p) \<longrightarrow> unat (nid (lp_inner lp)) + n + 1 < 2 ^ 64)"

lemma block_alive:
  assumes "pools_sound p" and "pr_features p"
  shows "(block_of p i \<noteq> None) = alive p i"
proof (cases "i < length (pools p)")
  case True
  have "metered (lp_inner lp)" if "pools p ! i = Some lp" for lp
    using assms True that nth_mem [OF True] by (auto simp: pools_sound_def)
  with True show ?thesis
    by (cases "pools p ! i") (auto simp: block_of_def alive_def metered_def)
qed (simp add: block_of_def alive_def)

lemma live_blocks:
  assumes "process_inv p" and "pr_features p"
  shows "List.map_filter (block_of p) (registry p) = blocks (pools p)"
proof -
  have al: "(\<lambda>i. block_of p i \<noteq> None) = alive p"
    using assms by (intro ext block_alive) (simp_all add: process_inv_def)
  note kept = visit_live_visits_kept [of "block_of p", unfolded al]
  have "filter (alive p) (registry p) = filter (alive p) [0..<length (pools p)]"
    using assms by (simp add: process_inv_def registered_def)
  then show ?thesis
    using kept [of "registry p"] kept [of "[0..<length (pools p)]"] by (simp add: blocks_upt)
qed

lemma foldl_add_map: "foldl (\<lambda>a x. f a (g x)) a xs = foldl f a (map g xs)"
  by (induction xs arbitrary: a) simp_all

lemma process_statistics_total:
  assumes "process_inv p" and "pr_features p"
  shows "fst (process_statistics p)
    = foldl statistics_add (snapshot_statistics (retired p)) (map snapshot_statistics (blocks (pools p)))"
  using assms
  by (simp add: process_statistics_def for_each_live_block_eq live_blocks foldl_add_map)

lemma process_state_total:
  assumes "process_inv p" and "pr_features p"
  shows "fst (process_state p) = foldl state_add state_default (map snapshot_state (blocks (pools p)))"
  using assms by (simp add: process_state_def for_each_live_block_eq live_blocks foldl_add_map)


section \<open>Every step keeps the invariant\<close>

lemma process_inv_new: "process_inv (pool_new features cfg)"
  by (simp add: process_inv_def pools_sound_def registered_def pool_new_def)

lemma alive_local:
  "alive (pool_local p) i \<longleftrightarrow> alive p i \<or> i = length (pools p)"
  by (auto simp: alive_def pool_local_def nth_append)

lemma filter_alive_local:
  assumes "\<And>i. i \<in> set is \<Longrightarrow> i < length (pools p)"
  shows "filter (alive (pool_local p)) is = filter (alive p) is"
  by (rule filter_cong) (use assms in \<open>auto simp: alive_local\<close>)

lemma metered_new: "metered (local_pool_new features) = features"
  by (simp add: metered_def local_pool_new_def waiters_new_def)

lemma process_inv_local:
  assumes "process_inv p"
  shows "process_inv (pool_local p)"
proof -
  let ?n = "length (pools p)"
  have "pools_sound (pool_local p)"
    using assms metered_new
    by (auto simp: process_inv_def pools_sound_def pool_local_def thread_of_def thread_inv_def
        pool_inv_new)
  moreover have "registered (pool_local p)"
  proof (cases "pr_features p")
    case True
    have live: "filter (alive (pool_local p)) (filter (alive p) is) = filter (alive p) is" for "is"
      unfolding filter_filter by (rule filter_cong) (auto simp: alive_local)
    have "filter (alive (pool_local p)) [0..<?n] = filter (alive p) [0..<?n]"
      by (rule filter_alive_local) simp
    with True assms live [of "registry p"] show ?thesis
      by (auto simp: registered_def process_inv_def pool_local_def vec_push_def alive_def nth_append)
  qed (simp add: registered_def pool_local_def)
  ultimately show ?thesis by (simp add: process_inv_def)
qed


lemma thread_step_shared:
  "thread_step hb e th = Some th' \<Longrightarrow>
   th_shared th' = th_shared th \<or> th_shared th' = pool_close (th_shared th)"
  by (cases e) (auto split: if_splits)

lemma thread_inv_close: "thread_inv th \<Longrightarrow> thread_inv (th\<lparr>th_shared := pool_close (th_shared th)\<rparr>)"
  by (simp add: thread_inv_def pool_inv_close)

lemma thread_of_close:
  "thread_of (p\<lparr>pr_shared := pool_close (pr_shared p)\<rparr>) lp
     = (thread_of p lp)\<lparr>th_shared := pool_close (th_shared (thread_of p lp))\<rparr>"
  by (simp add: thread_of_def)

lemma alive_cong: "pools p' = pools p \<Longrightarrow> alive p' = alive p"
  by (simp add: alive_def fun_eq_iff)

lemma process_inv_close:
  "process_inv p \<Longrightarrow> process_inv (p\<lparr>pr_shared := pool_close (pr_shared p)\<rparr>)"
  using thread_inv_close alive_cong [of "p\<lparr>pr_shared := pool_close (pr_shared p)\<rparr>" p]
  by (auto simp: process_inv_def pools_sound_def registered_def thread_of_close)

lemma registered_update:
  assumes "registered p" and "i < length (pools p)" and "x = None \<longleftrightarrow> pools p ! i = None"
  shows "registered (p\<lparr>pr_shared := sh, pools := (pools p)[i := x]\<rparr>)"
proof -
  have "alive (p\<lparr>pr_shared := sh, pools := (pools p)[i := x]\<rparr>) = alive p"
    using assms(2,3) by (auto simp: alive_def fun_eq_iff nth_list_update)
  with assms(1) show ?thesis by (simp add: registered_def)
qed

lemma process_inv_on_thread:
  assumes "process_inv p" and "ticket_room n p" and "on_thread hb i e p = Some p'"
  shows "process_inv p'"
proof -
  obtain lp th where i: "i < length (pools p)" "pools p ! i = Some lp"
    and st: "thread_step hb e (thread_of p lp) = Some th"
    and p': "p' = p\<lparr>pr_shared := th_shared th,
      pools := (pools p)[i := Some \<lparr>lp_inner = th_pool th, lp_tasks = th_tasks th\<rparr>]\<rparr>"
    using assms(3) by (auto simp: on_thread_def split: if_splits option.splits)
  have lp: "Some lp \<in> set (pools p)" using i nth_mem by metis
  have room: "id_room (waiters (th_pool (thread_of p lp)))"
    using assms(2) lp by (force simp: ticket_room_def id_room_def thread_of_def)
  have inv: "thread_inv (thread_of p lp)" using assms(1) lp by (simp add: process_inv_def pools_sound_def)
  have same: "\<lparr>th_shared = th_shared th, th_pool = th_pool th, th_tasks = th_tasks th\<rparr> = th" by simp
  have th: "thread_inv th" "metered (th_pool th) = pr_features p"
    using thread_step_inv [OF inv room st] metered.walk_thread_step [OF st] assms(1) lp
    by (auto simp: thread_of_def process_inv_def pools_sound_def)
  have shr: "th_shared th = pr_shared p \<or> th_shared th = pool_close (pr_shared p)"
    using thread_step_shared [OF st] by (simp add: thread_of_def)
  have others: "thread_inv \<lparr>th_shared = th_shared th, th_pool = lp_inner lq, th_tasks = lp_tasks lq\<rparr>"
    if "Some lq \<in> set (pools p)" for lq
    using that assms(1) shr process_inv_close [OF assms(1)]
    by (auto simp: process_inv_def pools_sound_def thread_of_def)
  have "pools_sound p'"
    using th others assms(1)
    by (auto simp: pools_sound_def p' thread_of_def process_inv_def same
        dest!: subsetD [OF set_update_subset_insert])
  moreover have "registered p'"
    using assms(1) i unfolding p' by (intro registered_update) (auto simp: process_inv_def)
  ultimately show ?thesis by (simp add: process_inv_def)
qed

lemma filter_alive_dropped:
  assumes "i < length (pools p)"
  shows "filter (alive (p\<lparr>retired := r, pools := (pools p)[i := None]\<rparr>)) is
    = filter (\<lambda>j. j \<noteq> i) (filter (alive p) is)"
  unfolding filter_filter
  by (rule filter_cong) (use assms in \<open>auto simp: alive_def nth_list_update split: if_splits\<close>)

lemma process_inv_inner_drop:
  assumes "process_inv p" and "inner_drop i p = Some p'"
  shows "process_inv p'"
proof -
  obtain lp where i: "i < length (pools p)" "pools p ! i = Some lp"
    using assms(2) by (auto simp: inner_drop_def split: if_splits option.splits)
  then obtain r where p': "p' = p\<lparr>retired := r, pools := (pools p)[i := None]\<rparr>"
    using assms(2) by (auto simp: inner_drop_def split: if_splits)
  have "pools_sound p'"
    using assms(1) by (auto simp: pools_sound_def p' thread_of_def process_inv_def
        dest!: subsetD [OF set_update_subset_insert])
  moreover have "registered p'"
    using assms(1) filter_alive_dropped [OF i(1), of r]
    by (simp add: registered_def p' process_inv_def del: filter_filter)
  ultimately show ?thesis by (simp add: process_inv_def)
qed

lemma process_inv_scrape:
  assumes "process_inv p" and "pr_features p"
  shows "process_inv (p\<lparr>registry := filter (\<lambda>i. block_of p i \<noteq> None) (registry p)\<rparr>)"
proof -
  let ?p = "p\<lparr>registry := filter (\<lambda>i. block_of p i \<noteq> None) (registry p)\<rparr>"
  have "alive ?p = alive p" by (rule alive_cong) simp
  moreover have "filter (alive p) (filter (\<lambda>i. block_of p i \<noteq> None) (registry p))
      = filter (alive p) (registry p)"
    unfolding filter_filter
    by (rule filter_cong) (use assms block_alive in \<open>auto simp: process_inv_def\<close>)
  ultimately show ?thesis
    using assms by (simp add: process_inv_def pools_sound_def registered_def thread_of_def)
qed

lemma process_step_inv:
  assumes "process_inv p" and "ticket_room n p" and "process_step hb e p = Some p'"
  shows "process_inv p'"
  using assms process_inv_local process_inv_on_thread [OF assms(1,2)] process_inv_inner_drop [OF assms(1)]
    process_inv_close process_inv_scrape
  by (cases e)
    (auto simp: process_state_def process_statistics_def for_each_live_block_eq split: if_splits)

lemma ticket_room_step:
  assumes "ticket_room (Suc n) p" and "n + 2 < 2 ^ 64" and "process_step hb e p = Some p'"
  shows "ticket_room n p'"
proof (cases e)
  case Local
  with assms show ?thesis
    by (fastforce simp: ticket_room_def pool_local_def local_pool_new_def waiters_new_def)
next
  case (OnThread i ev)
  then obtain lp th where i: "i < length (pools p)" "pools p ! i = Some lp"
    and st: "thread_step hb ev (thread_of p lp) = Some th"
    and p': "pools p' = (pools p)[i := Some \<lparr>lp_inner = th_pool th, lp_tasks = th_tasks th\<rparr>]"
    using assms(3) by (auto simp: on_thread_def split: if_splits option.splits)
  have "unat (nid (th_pool th)) \<le> unat (nid (lp_inner lp)) + 1"
    using advanced_unat [OF thread_step_advanced [OF st]] by (simp add: thread_of_def)
  moreover have "Some lp \<in> set (pools p)" using i nth_mem by metis
  ultimately show ?thesis
    using assms(1) unfolding ticket_room_def p'
    by (force dest!: subsetD [OF set_update_subset_insert])
next
  case (DropLocal i)
  with assms show ?thesis
    by (auto simp: ticket_room_def inner_drop_def split: if_splits option.splits
        dest!: subsetD [OF set_update_subset_insert])
qed (use assms in \<open>auto simp: ticket_room_def process_state_def process_statistics_def
  for_each_live_block_eq split: if_splits\<close>)

lemma process_run_inv:
  assumes "process_inv p" and "ticket_room (length es) p" and "length es + 2 < 2 ^ 64"
    and "process_run hb es p = Some p'"
  shows "process_inv p'"
  using assms
proof (induction es arbitrary: p)
  case (Cons e es)
  then obtain p1 where st: "process_step hb e p = Some p1" and rn: "process_run hb es p1 = Some p'"
    by (auto split: option.splits)
  have "process_inv p1" using process_step_inv [OF Cons.prems(1,2) st] .
  moreover have "ticket_room (length es) p1"
    using Cons.prems(2,3) by (intro ticket_room_step [OF _ _ st]) simp_all
  ultimately show ?case using Cons.IH rn Cons.prems(3) by simp
qed simp

definition process_reaches ::
  "'c has_broken \<Rightarrow> bool \<Rightarrow> pool_config \<Rightarrow> ('c, 'e) process_event list \<Rightarrow> ('c, 'e) process \<Rightarrow> bool" where
  "process_reaches hb features cfg es p \<longleftrightarrow>
     process_run hb es (pool_new features cfg) = Some p \<and> length es + 2 < 2 ^ 64"

lemma process_reaches_inv: "process_reaches hb features cfg es p \<Longrightarrow> process_inv p"
  by (auto simp: process_reaches_def ticket_room_def pool_new_def
      intro: process_run_inv [OF process_inv_new [unfolded pool_new_def]])


section \<open>Totals\<close>

lemma blocks_gauges:
  assumes "\<And>lp. Some lp \<in> set lps \<Longrightarrow> thread_inv (thread_of p lp) \<and> metered (lp_inner lp)"
  shows "map snapshot_state (blocks lps) = map (\<lambda>lp. local_state (lp_inner lp)) (List.map_filter (\<lambda>lp. lp) lps)"
  using assms
proof (induction lps)
  case (Cons x lps)
  then have IH: "map snapshot_state (blocks lps)
      = map (\<lambda>lp. local_state (lp_inner lp)) (List.map_filter (\<lambda>lp. lp) lps)" by simp
  show ?case
  proof (cases x)
    case (Some lp)
    then obtain m where "w_metrics (waiters (lp_inner lp)) = Some m"
      using Cons.prems [of lp] by (auto simp: metered_def)
    with thread_gauges [of "thread_of p lp" m] Cons.prems [of lp] Some IH show ?thesis
      by (simp add: blocks_def map_filter_simps thread_of_def)
  qed (use IH in \<open>simp add: blocks_def map_filter_simps\<close>)
qed (simp add: blocks_def map_filter_simps)

lemma blocks_drop:
  assumes "i < length lps" and "lps ! i = Some lp" and "w_metrics (waiters (lp_inner lp)) = Some m"
  shows "blocks lps = blocks (take i lps) @ m # blocks (drop (Suc i) lps)"
    and "blocks (lps[i := None]) = blocks (take i lps) @ blocks (drop (Suc i) lps)"
proof -
  have "lps = take i lps @ Some lp # drop (Suc i) lps"
    using id_take_nth_drop [OF assms(1)] assms(2) by simp
  from arg_cong [OF this, of blocks] assms(3)
  show "blocks lps = blocks (take i lps) @ m # blocks (drop (Suc i) lps)"
    by (simp add: blocks_def map_filter_Cons_append map_filter_simps)
  show "blocks (lps[i := None]) = blocks (take i lps) @ blocks (drop (Suc i) lps)"
    using assms(1) by (simp add: upd_conv_take_nth_drop blocks_def map_filter_Cons_append map_filter_simps)
qed

section \<open>A scrape racing a drop\<close>

text \<open>
  One counter at the granularity of its atomic operations. \<open>retire_into\<close> swaps the live counter
  out and adds it to the retired one; \<open>Pool::statistics\<close> loads the retired counter, then the live
  one. \<open>r_seen\<close> sums what the scrape has read.
\<close>

record race =
  r_live :: u64
  r_retired :: u64
  r_flight :: u64
  r_seen :: u64

datatype race_op = Swap | FetchAdd | LoadRetired | LoadLive

fun race_step :: "race_op \<Rightarrow> race \<Rightarrow> race" where
  "race_step Swap r = r\<lparr>r_flight := r_live r, r_live := 0\<rparr>"
| "race_step FetchAdd r = r\<lparr>r_retired := r_retired r + r_flight r\<rparr>"
| "race_step LoadRetired r = r\<lparr>r_seen := r_retired r\<rparr>"
| "race_step LoadLive r = r\<lparr>r_seen := r_seen r + r_live r\<rparr>"

definition race_result :: "u64 \<Rightarrow> u64 \<Rightarrow> race_op list \<Rightarrow> u64" where
  "race_result live ret ops =
     r_seen (fold race_step ops \<lparr>r_live = live, r_retired = ret, r_flight = 0, r_seen = 0\<rparr>)"

section \<open>Properties\<close>

definition demo_config :: pool_config where
  "demo_config =
     \<lparr>max_size = 2, min_idle = 0, connection_timeout = 9, idle_timeout = None, max_lifetime = None,
      test_on_check_out = False, retry_connection = False\<rparr>"

definition never_broken :: "nat has_broken" where
  "never_broken r = (False, r)"

definition two_threads :: "(nat, nat) process_event list" where
  "two_threads =
     [Local, Local,
      OnThread 0 (Call CallGet), OnThread 0 (OnTask 0 0 0 Resume), OnThread 0 (OnTask 0 1 1 (Connected 5)),
      OnThread 1 (Call CallGet), OnThread 1 (OnTask 0 0 0 Resume), OnThread 1 (OnTask 0 1 1 (Connected 6)),
      OnThread 1 (OnTask 0 2 2 DropIt)]"

definition two_threads_end :: "(nat, nat) process" where
  "two_threads_end = the (process_run never_broken two_threads (pool_new True demo_config))"

lemma two_threads_runs: "process_run never_broken two_threads (pool_new True demo_config) \<noteq> None"
  by code_simp

lemma two_threads_reached: "process_reaches never_broken True demo_config two_threads two_threads_end"
  using two_threads_runs by (auto simp: process_reaches_def two_threads_end_def two_threads_def)

lemma two_threads_features: "pr_features two_threads_end"
  by code_simp

text \<open>
  C9: \<open>Pool::state\<close> is the sum of what \<open>LocalPool::state\<close> reports on each live thread: no
  thread is missed, counted twice, or counted after its pool was dropped.
\<close>

theorem process_state_sums:
  assumes "process_reaches hb features cfg es p" and "pr_features p"
  shows "fst (process_state p)
    = foldl state_add state_default (map (\<lambda>lp. local_state (lp_inner lp)) (live_pools p))"
proof -
  have inv: "process_inv p" using assms(1) by (rule process_reaches_inv)
  then have "map snapshot_state (blocks (pools p))
      = map (\<lambda>lp. local_state (lp_inner lp)) (live_pools p)"
    unfolding live_pools_def
    by (intro blocks_gauges [of _ p]) (use assms(2) in \<open>auto simp: process_inv_def pools_sound_def\<close>)
  then show ?thesis using process_state_total [OF inv assms(2)] by simp
qed

theorem process_state_sums_witness:
  "fst (process_state two_threads_end)
     = foldl state_add state_default (map (\<lambda>lp. local_state (lp_inner lp)) (live_pools two_threads_end))
   \<and> connections (fst (process_state two_threads_end)) = 2"
proof -
  have "connections (fst (process_state two_threads_end)) = 2" by code_simp
  then show ?thesis using process_state_sums [OF two_threads_reached two_threads_features] by simp
qed

text \<open>
  C10: Lifetime totals survive the thread that made them. Dropping a \<open>LocalPool\<close> leaves
  \<open>Pool::statistics\<close> as it was, as long as the summed wait time fits its counter.
\<close>

theorem statistics_survive_drop:
  assumes "process_reaches hb features cfg es p" and "pr_features p"
    and "inner_drop i p = Some p'" and "block_of p i = Some m"
    and "unat (m_wait_micros (retired p)) + unat (m_wait_micros m) < 2 ^ 64"
  shows "fst (process_statistics p') = fst (process_statistics p)"
proof -
  have inv: "process_inv p" using assms(1) by (rule process_reaches_inv)
  obtain lp where i: "i < length (pools p)" "pools p ! i = Some lp" "w_metrics (waiters (lp_inner lp)) = Some m"
    using assms(4) by (auto simp: block_of_def split: if_splits option.splits bind_splits)
  have p': "p' = p\<lparr>retired := snd (retire_into (zero_gauges m) (retired p)), pools := (pools p)[i := None]\<rparr>"
    using assms(3) i by (auto simp: inner_drop_def split: if_splits)
  have inv': "process_inv p'" using process_inv_inner_drop [OF inv assms(3)] .
  have "snapshot_statistics (retired p') = statistics_add (snapshot_statistics (retired p)) (snapshot_statistics m)"
    using retire_into_adds [of "retired p" "zero_gauges m"] assms(5) zero_gauges_statistics
    by (simp add: p' zero_gauges_def)
  then show ?thesis
    using process_statistics_total [OF inv assms(2)] process_statistics_total [OF inv'] assms(2)
      blocks_drop [OF i] stats.foldl_move_out
    by (simp add: p')
qed

theorem statistics_survive_drop_witness:
  "fst (process_statistics (the (inner_drop 1 two_threads_end))) = fst (process_statistics two_threads_end)
   \<and> connections_created (fst (process_statistics two_threads_end)) = 2"
proof -
  have "inner_drop 1 two_threads_end \<noteq> None" and "block_of two_threads_end 1 \<noteq> None"
    and "m_wait_micros (retired two_threads_end) = 0"
    and "m_wait_micros (the (block_of two_threads_end 1)) = 0"
    and "connections_created (fst (process_statistics two_threads_end)) = 2"
    by code_simp+
  then show ?thesis
    using statistics_survive_drop [OF two_threads_reached two_threads_features, of 1] by auto
qed



text \<open>
  A read prunes the registry to exactly the live pools, in the order they were made, so the
  registry cannot grow past the number of live pools and those dropped since the last read.
\<close>

theorem read_prunes_registry:
  assumes "process_reaches hb features cfg es p" and "pr_features p"
  shows "registry (snd (process_state p)) = filter (alive p) [0..<length (pools p)]
    \<and> registry (snd (process_statistics p)) = filter (alive p) [0..<length (pools p)]"
proof -
  have inv: "process_inv p" using assms(1) by (rule process_reaches_inv)
  then have "filter (\<lambda>i. block_of p i \<noteq> None) (registry p) = filter (alive p) (registry p)"
    by (intro filter_cong) (use assms(2) block_alive in \<open>auto simp: process_inv_def\<close>)
  then show ?thesis
    using inv assms(2)
    by (simp add: process_state_def process_statistics_def for_each_live_block_eq process_inv_def registered_def)
qed

theorem read_prunes_registry_witness:
  "registry (snd (process_state two_threads_end))
     = filter (alive two_threads_end) [0..<length (pools two_threads_end)]"
  using read_prunes_registry [OF two_threads_reached two_threads_features] by simp

end
