(* ===== verification/Pool_Properties.thy ===== *)
theory Pool_Properties
  imports Thread_Runs
begin

text \<open>
  What any run of a thread guarantees, from a fresh pool on and whatever the interleaving of calls,
  resumptions, cancellations, maintenance and shutdown: the slot bound and the slot count, no lost
  wake-up, no orphan in the wait queue, gauges that match the counts, counters that balance, and no
  leak once every call is over. Each is a reading of \<open>thread_inv\<close> through \<open>reaches_inv\<close>.
\<close>

section \<open>Reading a thread\<close>

fun holds_slot :: "('c, 'e) task \<Rightarrow> bool" where
  "holds_slot (GetValidating h start waited) = True"
| "holds_slot (GetConnecting h start waited) = True"
| "holds_slot (TryValidating h) = True"
| "holds_slot (TryConnecting h) = True"
| "holds_slot (WarmConnecting h made) = True"
| "holds_slot (Leased p) = True"
| "holds_slot t = False"

text \<open>A connection outside the pool's idle list: in a call, in a lease, taken away, or lost.\<close>

fun holds_connection :: "('c, 'e) task \<Rightarrow> bool" where
  "holds_connection (GetValidating h start waited) = True"
| "holds_connection (TryValidating h) = True"
| "holds_connection (Leased p) = True"
| "holds_connection (Finished (Taken r)) = True"
| "holds_connection (Finished (Abandoned lost)) = (lost \<noteq> None)"
| "holds_connection (Finished (GetTimedOut lost)) = (lost \<noteq> None)"
| "holds_connection t = False"

fun waits_on :: "('c, 'e) task \<Rightarrow> u64 option" where
  "waits_on (GetWaiting wr start waited) = wr_id wr"
| "waits_on t = None"

text \<open>A parked call whose waker was called and that has not been polled since.\<close>

definition woken_waiter :: "('c, 'w) inner \<Rightarrow> ('c, 'e) task \<Rightarrow> bool" where
  "woken_waiter s t \<longleftrightarrow> (case waits_on t of None \<Rightarrow> False | Some i \<Rightarrow> was_woken (waiters s) i)"

fun finished :: "('c, 'e) task \<Rightarrow> bool" where
  "finished (Finished r) = True"
| "finished t = False"

lemma outcome_resources_sel:
  "slots_held (outcome_resources r) = 0" "tickets (outcome_resources r) = {#}"
  "conns_out (outcome_resources r) = (if holds_connection (Finished r) then 1 else 0)"
  by (cases r rule: outcome_resources.cases; simp)+

lemma slots_held_resources: "slots_held (resources_of t) = (if holds_slot t then 1 else 0)"
  by (cases t) (simp_all add: outcome_resources_sel)

lemma conns_out_resources: "conns_out (resources_of t) = (if holds_connection t then 1 else 0)"
  by (cases t) (simp_all add: outcome_resources_sel)

lemma tickets_resources: "tickets (resources_of t) = mset_set (set_option (waits_on t))"
  by (cases t) (auto simp: ticket_def outcome_resources_sel split: option.split)

lemma slots_held_sum: "slots_held (sum_list (map resources_of ts)) = length (filter holds_slot ts)"
  by (induction ts) (simp_all add: slots_held_resources)

lemma conns_out_sum:
  "conns_out (sum_list (map resources_of ts)) = length (filter holds_connection ts)"
  by (induction ts) (simp_all add: conns_out_resources)

lemma tickets_sum:
  "tickets (sum_list (map resources_of ts)) = mset (List.map_filter waits_on ts)"
  by (induction ts) (auto simp: tickets_resources map_filter_simps split: option.split)

lemma outstanding_sum:
  "wq.outstanding (waiters s) (mset (List.map_filter waits_on ts)) = length (filter (woken_waiter s) ts)"
  by (induction ts)
    (auto simp: wq.outstanding_def woken_waiter_def map_filter_simps split: option.split)

lemma task_step_shared: "thread_step hb e th = Some th' \<Longrightarrow> conf (th_shared th') = conf (th_shared th)"
  by (cases e) (auto simp: pool_close_def split: if_splits)

lemma thread_run_conf: "thread_run hb evs th = Some th' \<Longrightarrow> conf (th_shared th') = conf (th_shared th)"
  by (induction evs arbitrary: th) (auto dest: task_step_shared split: option.splits)

lemma reaches_conf: "reaches hb cfg features evs th \<Longrightarrow> conf (th_shared th) = cfg"
  by (auto simp: reaches_def thread_new_def dest!: thread_run_conf)

lemma reaches_accounts:
  assumes "reaches hb cfg features evs th"
  shows "accounts (th_shared th) (length (filter holds_slot (th_tasks th)))
    (length (filter holds_connection (th_tasks th))) (th_pool th)"
  using reaches_inv [OF assms]
  by (simp add: thread_inv_def pool_inv_def slots_held_sum conns_out_sum)

lemma reaches_owed:
  assumes "reaches hb cfg features evs th"
  shows "owed (th_shared th) 0 (mset (List.map_filter waits_on (th_tasks th))) (th_pool th)"
  using reaches_inv [OF assms] by (simp add: thread_inv_def pool_inv_def tickets_sum)

section \<open>Concrete runs\<close>

text \<open>
  One slot, three calls: the first is served and gives its connection back, which wakes the second
  while the third still waits.
\<close>

definition one_slot :: pool_config where
  "one_slot =
     \<lparr>max_size = 1, min_idle = 0, connection_timeout = 9, idle_timeout = None, max_lifetime = None,
      test_on_check_out = False, retry_connection = False\<rparr>"

definition healthy :: "nat has_broken" where
  "healthy r = (False, r)"

definition contended :: "(nat, nat) event list" where
  "contended =
     [Call CallGet, Call CallGet, Call CallGet,
      OnTask 0 0 0 Resume, OnTask 0 1 2 (Connected 7),
      OnTask 1 3 3 Resume, OnTask 2 4 4 Resume, OnTask 0 5 5 DropIt]"

definition settled :: "(nat, nat) event list" where
  "settled =
     [Call CallGet, Call CallGet,
      OnTask 0 0 0 Resume, OnTask 0 1 2 (Connected 7), OnTask 1 3 3 Resume, OnTask 0 5 5 DropIt,
      OnTask 1 6 6 DropIt]"

definition final :: "(nat, nat) event list \<Rightarrow> (nat, nat) thread" where
  "final evs = the (thread_run healthy evs (thread_new one_slot True))"

lemma contended_runs: "thread_run healthy contended (thread_new one_slot True) \<noteq> None"
  by code_simp

lemma settled_runs: "thread_run healthy settled (thread_new one_slot True) \<noteq> None"
  by code_simp

lemma reaches_contended: "reaches healthy one_slot True contended (final contended)"
  using contended_runs by (auto simp: reaches_def final_def contended_def)

lemma reaches_settled: "reaches healthy one_slot True settled (final settled)"
  using settled_runs by (auto simp: reaches_def final_def settled_def)

section \<open>Properties of every run\<close>

text \<open>
  C1: In every run the slot count is the idle connections plus the calls and leases that hold a
  slot, so a slot is neither leaked nor freed twice, and it never exceeds \<open>max_size\<close>.
\<close>

theorem slots_balance:
  assumes "reaches hb cfg features evs th"
  shows "unat (slots (th_pool th))
      = length (idle (th_pool th)) + length (filter holds_slot (th_tasks th))
    \<and> slots (th_pool th) \<le> max_size cfg"
  using reaches_accounts [OF assms] reaches_conf [OF assms]
  by (simp add: accounts_def word_le_nat_alt)

theorem slots_balance_witness:
  "unat (slots (th_pool (final contended)))
      = length (idle (th_pool (final contended))) + length (filter holds_slot (th_tasks (final contended)))
    \<and> slots (th_pool (final contended)) \<le> max_size one_slot"
  by (rule slots_balance [OF reaches_contended])

text \<open>
  C2: No wake-up is lost. While a call is queued on an open pool, for every idle connection and
  every free slot there is a parked call that was already woken and has yet to act.
\<close>

theorem no_lost_wakeup:
  assumes "reaches hb cfg features evs th" and "\<not> closed (th_shared th)"
    and "entries (waiters (th_pool th)) \<noteq> []"
  shows "capacity (th_shared th) (th_pool th)
    \<le> length (filter (woken_waiter (th_pool th)) (th_tasks th))"
  using reaches_owed [OF assms(1)] assms(2,3) by (simp add: owed_def outstanding_sum ticket_ids_def)

theorem no_lost_wakeup_witness:
  "capacity (th_shared (final contended)) (th_pool (final contended)) = 1 \<and>
   1 \<le> length (filter (woken_waiter (th_pool (final contended))) (th_tasks (final contended)))"
proof -
  have "\<not> closed (th_shared (final contended))" "entries (waiters (th_pool (final contended))) \<noteq> []"
    and "capacity (th_shared (final contended)) (th_pool (final contended)) = 1"
    by code_simp+
  then show ?thesis using no_lost_wakeup [OF reaches_contended] by simp
qed

text \<open>
  C6: The wait queue has no orphan and no duplicate. Its tickets are those of the parked calls that
  have not been woken, so a cancelled or timed-out call leaves nothing behind.
\<close>

theorem queue_holds_parked_calls:
  assumes "reaches hb cfg features evs th"
  shows "mset (ticket_ids (waiters (th_pool th)))
      = {#i \<in># mset (List.map_filter waits_on (th_tasks th)). \<not> was_woken (waiters (th_pool th)) i#}
    \<and> distinct (ticket_ids (waiters (th_pool th)))"
  using reaches_owed [OF assms]
  by (auto simp: owed_def wq.ledger_def dest: queue_inv_distinct)

theorem queue_holds_parked_calls_witness:
  "mset (ticket_ids (waiters (th_pool (final contended)))) =
     {#i \<in># mset (List.map_filter waits_on (th_tasks (final contended))).
        \<not> was_woken (waiters (th_pool (final contended))) i#}
   \<and> distinct (ticket_ids (waiters (th_pool (final contended))))"
  by (rule queue_holds_parked_calls [OF reaches_contended])

text \<open>
  C7: The gauges another thread reads through \<open>Pool::state\<close> are exactly what
  \<open>LocalPool::state\<close> reports on the owning thread.
\<close>

theorem gauges_match:
  assumes "reaches hb cfg features evs th" and "w_metrics (waiters (th_pool th)) = Some m"
  shows "snapshot_state m = local_state (th_pool th)"
  using reaches_inv [OF assms(1)] assms(2) by (rule thread_gauges)

theorem gauges_match_witness:
  "snapshot_state (the (w_metrics (waiters (th_pool (final contended)))))
     = local_state (th_pool (final contended))
   \<and> pending_waiters (local_state (th_pool (final contended))) = 1"
proof -
  have "w_metrics (waiters (th_pool (final contended))) \<noteq> None"
    and "pending_waiters (local_state (th_pool (final contended))) = 1"
    by code_simp+
  then show ?thesis using gauges_match [OF reaches_contended] by auto
qed

text \<open>
  C5: The counters balance. Every connection ever opened is idle, held by a call or a lease, was
  taken away or lost with a cancelled validation, or is in one of the four closed counters.
\<close>

theorem counters_balance:
  assumes "reaches hb cfg features evs th" and "w_metrics (waiters (th_pool th)) = Some m"
  shows "m_created m = m_closed_broken m + m_closed_idle_timeout m + m_closed_max_lifetime m
    + m_closed_manual m
    + of_nat (length (idle (th_pool th)) + length (filter holds_connection (th_tasks th)))"
  using reaches_accounts [OF assms(1)] assms(2)
  by (auto simp: accounts_def books_of_def queue_books_def books_def closed_total_def)

theorem counters_balance_witness:
  "let m = the (w_metrics (waiters (th_pool (final contended))))
   in m_created m = 1 \<and> m_created m = m_closed_broken m + m_closed_idle_timeout m
        + m_closed_max_lifetime m + m_closed_manual m
        + of_nat (length (idle (th_pool (final contended)))
                  + length (filter holds_connection (th_tasks (final contended))))"
proof -
  have "w_metrics (waiters (th_pool (final contended))) \<noteq> None"
    and "m_created (the (w_metrics (waiters (th_pool (final contended))))) = 1"
    by code_simp+
  then show ?thesis using counters_balance [OF reaches_contended] by (auto simp: Let_def)
qed

text \<open>
  C4: Nothing leaks. Once every call is over, however it ended, the only slots in use are those of
  the idle connections and nobody is queued.
\<close>

theorem quiescent_no_leak:
  assumes "reaches hb cfg features evs th" and "\<forall>t \<in> set (th_tasks th). finished t"
  shows "unat (slots (th_pool th)) = length (idle (th_pool th)) \<and> entries (waiters (th_pool th)) = []"
proof -
  have idle_task: "\<not> holds_slot t \<and> waits_on t = None" if "t \<in> set (th_tasks th)" for t
    using assms(2) that by (cases t) auto
  then have "filter holds_slot (th_tasks th) = []" by (auto simp: filter_empty_conv)
  moreover have "List.map_filter waits_on (th_tasks th) = []"
    using idle_task by (auto simp: map_filter_def filter_empty_conv)
  ultimately show ?thesis
    using reaches_accounts [OF assms(1)] reaches_owed [OF assms(1)]
    by (simp add: accounts_def owed_def wq.ledger_def ticket_ids_def)
qed

theorem quiescent_no_leak_witness:
  "unat (slots (th_pool (final settled))) = length (idle (th_pool (final settled))) \<and>
   entries (waiters (th_pool (final settled))) = []"
proof -
  have "\<forall>t \<in> set (th_tasks (final settled)). finished t" by code_simp
  then show ?thesis by (rule quiescent_no_leak [OF reaches_settled])
qed

end
