(* ===== verification/Pool_Operations.thy ===== *)
theory Pool_Operations
  imports Pool_Properties
begin

text \<open>
  What each operation of a \<open>LocalPool\<close> does, branch by branch: which idle connection a checkout
  takes, what maintenance keeps, where a returned connection goes, what shutdown does to calls in
  progress and to parked ones, and that a call which finds room always gets to act on it.
\<close>

section \<open>Taking an idle connection\<close>

text \<open>The idle list from its newest end, past the expired connections.\<close>

definition fresh_from_top :: "pool_config \<Rightarrow> instant \<Rightarrow> 'c conn list \<Rightarrow> 'c conn list" where
  "fresh_from_top cfg now xs = dropWhile (expired_at cfg now) (rev xs)"

lemma slots_release_slot [simp]: "slots (release_slot sh s) = saturating_sub (slots s) 1"
  by (simp add: release_slot_def release_slots_def)

lemma pop_idle_snoc:
  "idle s = xs @ [c] \<Longrightarrow> pop_idle s = (Some c, observe (dec_idle 1) (s\<lparr>idle := xs\<rparr>))"
  by (simp add: pop_idle_def vec_pop_def)

lemma pop_fresh_idle_snoc:
  assumes "idle s = xs @ [c]"
  shows "pop_fresh_idle sh now s =
    (case expiry c now (conf sh) of
       Some reason \<Rightarrow>
         pop_fresh_idle sh now (release_slot sh (note_expired reason (observe (dec_idle 1) (s\<lparr>idle := xs\<rparr>))))
     | None \<Rightarrow> (Some \<lparr>h_conn = Some c, h_released = False\<rparr>, observe (dec_idle 1) (s\<lparr>idle := xs\<rparr>)))"
  by (simp add: pop_fresh_idle.simps [of sh now s] pop_idle_snoc [OF assms])

lemma pop_fresh_idle_result:
  "map_option h_conn (fst (pop_fresh_idle sh now s))
     = (case fresh_from_top (conf sh) now (idle s) of [] \<Rightarrow> None | c # cs \<Rightarrow> Some (Some c))
   \<and> idle (snd (pop_fresh_idle sh now s)) = rev (tl (fresh_from_top (conf sh) now (idle s)))
   \<and> unat (slots (snd (pop_fresh_idle sh now s)))
     = unat (slots s) - (length (idle s) - length (fresh_from_top (conf sh) now (idle s)))"
proof (induction "idle s" arbitrary: s rule: rev_induct)
  case Nil
  then have "idle s = []" by simp
  then show ?case by (simp add: pop_fresh_idle_empty fresh_from_top_def)
next
  case (snoc c xs)
  have i: "idle s = xs @ [c]" using snoc.hyps(2) by simp
  show ?case
  proof (cases "expiry c now (conf sh)")
    case None
    then show ?thesis by (simp add: pop_fresh_idle_snoc [OF i] i fresh_from_top_def)
  next
    case (Some reason)
    let ?s = "release_slot sh (note_expired reason (observe (dec_idle 1) (s\<lparr>idle := xs\<rparr>)))"
    have "idle ?s = xs" by simp
    from snoc.hyps(1) [OF this [symmetric]] Some show ?thesis
      by (simp add: pop_fresh_idle_snoc [OF i] i fresh_from_top_def rust_simps)
        (use length_dropWhile_le [of "expired_at (conf sh) now" "rev xs"] in \<open>auto simp: Suc_diff_le\<close>)
  qed
qed

section \<open>A call that finds room acts on it\<close>

fun acquiring :: "('c, 'e) task \<Rightarrow> bool" where
  "acquiring (GetValidating h start waited) = True"
| "acquiring (GetConnecting h start waited) = True"
| "acquiring (Leased p) = True"
| "acquiring t = False"

text \<open>Discarding expired connections frees their slots, so a pool that was ready still has room.\<close>

lemma ready_leaves_room:
  assumes "accounts sh h k s" and "ready_now sh s" and "\<not> closed sh"
    and "pop_fresh_idle sh now s = (None, s')"
  shows "slots s' < max_size (conf sh)"
proof -
  have "fresh_from_top (conf sh) now (idle s) = []"
    using pop_fresh_idle_result [of sh now s] assms(4) by (auto split: list.splits)
  then have "unat (slots s') = unat (slots s) - length (idle s)"
    using pop_fresh_idle_result [of sh now s] assms(4) by simp
  then show ?thesis
    using assms(1-3)
    by (cases "idle s") (auto simp: accounts_def ready_now_def inner_connections_def word_less_nat_alt)
qed

lemma acquiring_hand_out: "acquiring (fst (hand_out sh waited start now h s))"
  by (simp add: hand_out_eq)

lemma get_wait_acquires:
  assumes "accounts sh h k s" and "ready_now sh s" and "\<not> closed sh"
  shows "acquiring (fst (get_wait sh w t1 t2 start waited wr s))"
proof -
  obtain wr' s1 where p: "wait_ready_poll sh w wr s = (Some (wr_parked wr), wr', s1)"
    using assms(2) by (auto simp: wait_ready_poll_def Let_def)
  let ?s = "wait_ready_drop wr' s1"
  have sel: "idle ?s = idle s" "slots ?s = slots s"
    using wait_ready_poll_sel [of sh w wr s] p by (simp_all add: wait_ready_drop_sel)
  obtain g s2 where q: "pop_fresh_idle sh t1 ?s = (g, s2)" by (cases "pop_fresh_idle sh t1 ?s")
  show ?thesis
  proof (cases g)
    case None
    have "accounts sh h k ?s"
      using books_wait_ready_poll [OF p] assms(1) sel accounts_cong [of ?s s] by simp
    then have "slots s2 < max_size (conf sh)"
      using ready_leaves_room [of sh h k ?s t1 s2] assms(2,3) q None sel
      by (simp add: ready_now_def inner_connections_def)
    then show ?thesis
      using p q None assms(3)
      by (simp add: get_wait.simps [of sh w t1 t2 start waited wr s] try_reserve_def inner_connections_def Let_def)
  next
    case (Some held)
    with p q assms(3) show ?thesis
      by (simp add: get_wait.simps [of sh w t1 t2 start waited wr s] acquiring_hand_out)
  qed
qed

text \<open>A \<open>get\<close> that has not reserved anything yet: unpolled, parked, or backing off.\<close>

fun seeking :: "('c, 'e) task \<Rightarrow> bool" where
  "seeking GetStart = True"
| "seeking (GetWaiting wr start waited) = True"
| "seeking (GetBackoff start waited) = True"
| "seeking t = False"

lemma get_wait_closed:
  assumes "closed sh"
  shows "fst (get_wait sh w t1 t2 start waited wr s) = Finished (GetFailed Closed)"
  using assms by (simp add: get_wait.simps [of sh w t1 t2 start waited wr s] wait_ready_poll_def
      ready_now_def Let_def)

lemma get_wait_pending:
  assumes "\<not> ready_now sh s"
  shows "get_wait sh w t1 t2 start waited wr s =
    (case register (wr_id wr) w (waiters s) of
       (i, q) \<Rightarrow> (GetWaiting (wr\<lparr>wr_id := i, wr_parked := True\<rparr>) start waited, s\<lparr>waiters := q\<rparr>))"
  using assms by (simp add: get_wait.simps [of sh w t1 t2 start waited wr s] wait_ready_poll_def
      split: prod.split)

lemma register_queues:
  assumes "queue_inv q" and "id_room q"
  shows "\<exists>i. fst (register t w q) = Some i \<and> i \<in> set (ticket_ids (snd (register t w q)))"
proof (cases "\<exists>i. t = Some i \<and> i \<in> set (ticket_ids q)")
  case True
  then obtain i where "t = Some i" "i \<in> set (ticket_ids q)" by blast
  with register_queued [OF assms(1), of i w] show ?thesis by auto
next
  case False
  with register_new(1,2) [OF assms, of t w] show ?thesis by auto
qed

lemma pop_fresh_idle_nothing_ready:
  "\<not> ready_now sh s \<Longrightarrow> pop_fresh_idle sh now s = (None, s)"
  by (rule pop_fresh_idle_empty) (simp add: ready_now_def)

text \<open>
  What resuming a seeking call comes to: an error on a closed pool, a reservation or a connection
  when there is room, a ticket in the queue otherwise.
\<close>

definition parks :: "nat \<Rightarrow> ('c, nat) inner \<Rightarrow> ('c, 'e) task \<times> ('c, nat) inner \<Rightarrow> bool" where
  "parks w s r \<longleftrightarrow>
     (\<exists>wr start waited t. fst r = GetWaiting wr start waited \<and>
        wr_id wr = fst (register t w (waiters s)) \<and> waiters (snd r) = snd (register t w (waiters s)))"

definition settles ::
  "shared \<Rightarrow> nat \<Rightarrow> ('c, nat) inner \<Rightarrow> ('c, 'e) task \<times> ('c, nat) inner \<Rightarrow> bool" where
  "settles sh w s r \<longleftrightarrow>
     (if closed sh then fst r = Finished (GetFailed Closed)
      else if ready_now sh s then acquiring (fst r) else parks w s r)"

lemma settles_get_wait:
  assumes "accounts sh h k s"
  shows "settles sh w s (get_wait sh w t1 t2 start waited wr s)"
proof (cases "closed sh \<or> ready_now sh s")
  case True
  then show ?thesis
    by (cases "closed sh") (simp_all add: settles_def get_wait_closed get_wait_acquires [OF assms])
next
  case False
  then have "\<not> ready_now sh s" by simp
  have "parks w s (get_wait sh w t1 t2 start waited wr s)"
    unfolding parks_def get_wait_pending [OF \<open>\<not> ready_now sh s\<close>]
    by (rule exI [of _ "wr\<lparr>wr_id := fst (register (wr_id wr) w (waiters s)), wr_parked := True\<rparr>"],
        rule exI [of _ start], rule exI [of _ waited], rule exI [of _ "wr_id wr"]) (simp split: prod.split)
  with False show ?thesis by (simp add: settles_def)
qed

lemma settles_get_loop:
  assumes "accounts sh h k s"
  shows "settles sh w s (get_loop sh w t1 t2 start waited s)"
  using settles_get_wait [OF assms] by (auto simp: get_loop_def settles_def)

lemma settles_get_start:
  assumes "accounts sh h k s"
  shows "settles sh w s (get_start sh w t1 t2 s)"
proof (cases "\<not> closed sh \<and> ready_now sh s \<and> \<not> test_on_check_out (conf sh)")
  case True
  obtain g s1 where q: "pop_fresh_idle sh t1 s = (g, s1)" by (cases "pop_fresh_idle sh t1 s")
  have "acquiring (fst (get_wait sh w t1 t2 t2 False wait_ready_new s1))" if "g = None"
  proof (rule get_wait_acquires)
    show "accounts sh h k s1" using accounts_pop_fresh_idle [OF assms q] that by simp
    show "ready_now sh s1" "\<not> closed sh"
      using ready_leaves_room [OF assms _ _ q [unfolded that]] True
      by (auto simp: ready_now_def inner_connections_def)
  qed
  with True q show ?thesis
    by (auto simp: settles_def get_start_def get_loop_def acquiring_hand_out split: option.split)
next
  case False
  then show ?thesis
    using settles_get_loop [OF assms, of w t1 t2 t2 False]
    by (cases "closed sh"; cases "ready_now sh s")
      (auto simp: get_start_def pop_fresh_idle_nothing_ready settles_def)
qed

lemma seeking_settles:
  assumes "accounts sh h k s" and "seeking t" and "task_step hb sh w t1 t2 Resume t s = Some r"
  shows "settles sh w s r"
  using assms(2,3) settles_get_start [OF assms(1)] settles_get_wait [OF assms(1)]
    settles_get_loop [OF assms(1)]
  by (cases t) (auto simp: on_resume_def)

lemma settles_acquires: "settles sh w s r \<Longrightarrow> \<not> closed sh \<Longrightarrow> ready_now sh s \<Longrightarrow> acquiring (fst r)"
  by (simp add: settles_def)

lemma fresh_get_acquires:
  assumes "0 < max_size cfg"
  shows "acquiring (fst (get_start \<lparr>conf = cfg, closed = False\<rparr> w t1 t2 (local_pool_new features)))"
  by (rule settles_acquires [OF settles_get_start [OF accounts_new]])
    (use assms in \<open>simp_all add: ready_now_def inner_connections_def local_pool_new_def\<close>)

section \<open>Checkout\<close>

lemma contended_facts:
  "1 < length (th_tasks (final contended))" "seeking (th_tasks (final contended) ! 1)"
  "\<not> closed (th_shared (final contended))" "ready_now (th_shared (final contended)) (th_pool (final contended))"
  by code_simp+

text \<open>
  C3: Resuming a \<open>get\<close> that holds nothing yet settles it at once: on a closed pool it fails with
  \<open>Closed\<close>; on an open pool with an idle connection or a free slot it comes away with a
  connection, a validation or a dial in progress, never parked again; with neither it is queued.
\<close>

theorem resumed_get_settles:
  assumes "reaches hb cfg features evs th" and "seeking (th_tasks th ! i)"
    and "task_step hb (th_shared th) i t1 t2 Resume (th_tasks th ! i) (th_pool th) = Some (t', s')"
  shows "(closed (th_shared th) \<longrightarrow> t' = Finished (GetFailed Closed)) \<and>
    (\<not> closed (th_shared th) \<longrightarrow> 0 < capacity (th_shared th) (th_pool th) \<longrightarrow> acquiring t') \<and>
    (\<not> closed (th_shared th) \<longrightarrow> capacity (th_shared th) (th_pool th) = 0 \<longrightarrow>
       (\<exists>j. waits_on t' = Some j \<and> j \<in> set (ticket_ids (waiters s'))))"
proof -
  let ?sh = "th_shared th" and ?s = "th_pool th"
  have settled: "settles ?sh i ?s (t', s')"
    using seeking_settles [OF reaches_accounts [OF assms(1)] assms(2,3)] .
  have inv: "queue_inv (waiters ?s)" using reaches_owed [OF assms(1)] by (rule owed_queue_inv)
  have cap: "ready_now ?sh ?s \<longleftrightarrow> 0 < capacity ?sh ?s" if "\<not> closed ?sh"
    using that by (auto simp: ready_now_def capacity_def inner_connections_def word_less_nat_alt)
  have "\<exists>j. waits_on t' = Some j \<and> j \<in> set (ticket_ids (waiters s'))" if "parks i ?s (t', s')"
    using that register_queues [OF inv reaches_room [OF assms(1)]] by (auto simp: parks_def)
  with settled cap show ?thesis by (auto simp: settles_def split: if_splits)
qed

theorem resumed_get_settles_witness:
  "0 < capacity (th_shared (final contended)) (th_pool (final contended)) \<and>
   acquiring (fst (the (task_step healthy (th_shared (final contended)) 1 6 6 Resume
     (th_tasks (final contended) ! 1) (th_pool (final contended)))))"
proof -
  have "task_step healthy (th_shared (final contended)) 1 6 6 Resume
      (th_tasks (final contended) ! 1) (th_pool (final contended)) \<noteq> None"
    and "0 < capacity (th_shared (final contended)) (th_pool (final contended))"
    by code_simp+
  then show ?thesis
    using resumed_get_settles [OF reaches_contended contended_facts(2)] contended_facts(3)
    by (metis option.exhaust_sel prod.collapse)
qed

text \<open>
  C25: A checkout takes the most recently returned connection that has not expired. The newer
  expired ones are discarded and give their slots back; the older ones stay as they are.
\<close>

theorem checkout_takes_newest_fresh:
  "map_option h_conn (fst (pop_fresh_idle sh now s))
     = (case fresh_from_top (conf sh) now (idle s) of [] \<Rightarrow> None | c # cs \<Rightarrow> Some (Some c))
   \<and> idle (snd (pop_fresh_idle sh now s)) = rev (tl (fresh_from_top (conf sh) now (idle s)))
   \<and> unat (slots (snd (pop_fresh_idle sh now s)))
     = unat (slots s) - (length (idle s) - length (fresh_from_top (conf sh) now (idle s)))"
  by (rule pop_fresh_idle_result)

text \<open>
  \<open>try_get\<close> gives up only on an exhausted pool: nothing idle and every slot taken. It never
  waits, and giving up changes nothing.
\<close>

theorem try_get_gives_up_only_when_full:
  assumes "reaches hb cfg features evs th"
    and "try_start (th_shared th) t1 t2 (th_pool th) = (Finished NoConnection, s')"
  shows "idle (th_pool th) = [] \<and> slots (th_pool th) = max_size cfg \<and> s' = th_pool th"
proof -
  let ?sh = "th_shared th" and ?s = "th_pool th"
  note acc = reaches_accounts [OF assms(1)] and cf = reaches_conf [OF assms(1)]
  obtain g s1 where q: "pop_fresh_idle ?sh t1 ?s = (g, s1)" by (cases "pop_fresh_idle ?sh t1 ?s")
  have op: "\<not> closed ?sh" and g: "g = None" and full: "\<not> slots s1 < max_size (conf ?sh)" and s': "s' = s1"
    using assms(2) q
    by (auto simp: try_start_def try_loop_def hand_out_eq try_reserve_def inner_connections_def Let_def
        split: if_splits option.splits)
  have nr: "\<not> ready_now ?sh ?s"
    using ready_leaves_room [OF acc _ op q [unfolded g]] full by blast
  then have "s1 = ?s" using pop_fresh_idle_nothing_ready [of ?sh ?s t1] q by simp
  with nr acc cf s' show ?thesis
    by (auto simp: ready_now_def inner_connections_def accounts_def word_less_nat_alt word_unat_eq_iff)
qed

definition leased_out :: "(nat, nat) event list" where
  "leased_out = [Call CallTryGet, OnTask 0 0 0 Resume, OnTask 0 1 2 (Connected 7)]"

lemma leased_out_runs: "thread_run healthy leased_out (thread_new one_slot True) \<noteq> None"
  by code_simp

lemma reaches_leased_out: "reaches healthy one_slot True leased_out (final leased_out)"
  using leased_out_runs by (auto simp: reaches_def final_def leased_out_def)

theorem try_get_gives_up_only_when_full_witness:
  "\<exists>s'. try_start (th_shared (final leased_out)) 3 3 (th_pool (final leased_out)) 
       = (Finished NoConnection :: (nat, nat) task, s')
     \<and> slots (th_pool (final leased_out)) = max_size one_slot \<and> s' = th_pool (final leased_out)"
proof -
  let ?r = "try_start (th_shared (final leased_out)) 3 3 (th_pool (final leased_out))
    :: (nat, nat) task \<times> (nat, nat) inner"
  have "fst ?r = Finished NoConnection" by code_simp
  then obtain s' where r: "?r = (Finished NoConnection, s')" by (cases ?r) auto
  then show ?thesis
    using try_get_gives_up_only_when_full [OF reaches_leased_out, of 3 3 s'] by blast
qed

section \<open>Return\<close>

lemma notify_keeps [simp]: "slots (push_idle c s) = slots s" "idle (push_idle c s) = vec_push (idle s) c"
  by (simp_all add: push_idle_def)

lemma notes_keep [simp]:
  "idle (note_broken s) = idle s" "slots (note_broken s) = slots s"
  "idle (note_closed_manual n s) = idle s" "slots (note_closed_manual n s) = slots s"
  "idle (note_created s) = idle s" "slots (note_created s) = slots s"
  by (simp_all add: note_broken_def note_closed_manual_def note_created_def)

text \<open>
  Dropping a lease keeps the connection exactly when the pool is open, the manager does not
  call it broken and it has not expired. Then it goes to the top of the idle list, stamped, and its
  slot stays taken; in every other case the slot is freed and the idle list is untouched.
\<close>

theorem lease_drop_keeps_or_frees:
  assumes "p_conn p = Some c"
  shows "let keep = (\<not> closed sh \<and> \<not> fst (hb (raw c)) \<and>
           expiry (c\<lparr>raw := snd (hb (raw c))\<rparr>) now1 (conf sh) = None);
         s' = pooled_drop hb sh now1 now2 p s
    in idle s' = (if keep then idle s @ [c\<lparr>raw := snd (hb (raw c)), last_used := now2\<rparr>] else idle s)
       \<and> slots s' = (if keep then slots s else saturating_sub (slots s) 1)"
  using assms by (auto simp: pooled_drop_def Let_def vec_push_def split: prod.splits option.splits)

definition lease5 :: "nat pooled" where
  "lease5 = \<lparr>p_conn = Some \<lparr>raw = 5, created_at = 1, last_used = 1\<rparr>\<rparr>"

definition one_out :: "(nat, nat) inner" where
  "one_out = (local_pool_new True)\<lparr>slots := 1\<rparr>"

definition open_one :: shared where
  "open_one = \<lparr>conf = one_slot, closed = False\<rparr>"

theorem lease_drop_keeps_or_frees_witness:
  "idle (pooled_drop healthy open_one 2 3 lease5 one_out) = [\<lparr>raw = 5, created_at = 1, last_used = 3\<rparr>]
   \<and> slots (pooled_drop healthy open_one 2 3 lease5 one_out) = 1"
  using lease_drop_keeps_or_frees [of lease5 "\<lparr>raw = 5, created_at = 1, last_used = 1\<rparr>" open_one healthy 2 3 one_out]
  by (simp add: Let_def lease5_def open_one_def one_slot_def healthy_def one_out_def local_pool_new_def expiry_def)



section \<open>Maintenance\<close>

lemma idle_release_slots [simp]: "idle (release_slots n s) = idle s"
  by (simp add: release_slots_def)

lemma slots_release_slots [simp]: "slots (release_slots n s) = saturating_sub (slots s) n"
  by (simp add: release_slots_def)

text \<open>
  \<open>reap\<close> closes exactly the expired idle connections, keeps the others in their order,
  frees one slot per connection it closes and returns how many there were.
\<close>

theorem reap_removes_expired:
  assumes "accounts sh h k s"
  shows "let gone = filter (expired_at (conf sh) now) (idle s)
    in unat (fst (reap sh now s)) = length gone
       \<and> idle (snd (reap sh now s)) = filter (\<lambda>c. \<not> expired_at (conf sh) now c) (idle s)
       \<and> unat (slots (snd (reap sh now s))) = unat (slots s) - length gone"
proof -
  let ?n = "length (filter (expired_at (conf sh) now) (idle s))"
  have "?n < 2 ^ 32"
    using accounts_idle_bound [OF assms] length_filter_le [of "expired_at (conf sh) now" "idle s"] by linarith
  then have n: "unat (as_u32 ?n) = ?n" "0 < as_u32 ?n \<longleftrightarrow> 0 < ?n"
    by (simp_all add: rust_simps as_u32_pos)
  show ?thesis
    using n by (simp add: reap_def reap_scan_eq Let_def rust_simps split: if_split)
qed

definition old_pool :: "(nat, nat) inner" where
  "old_pool = \<lparr>idle = [\<lparr>raw = 1, created_at = 0, last_used = 0\<rparr>, \<lparr>raw = 2, created_at = 0, last_used = 8\<rparr>],
     slots = 2, waiters = waiters_new None\<rparr>"

definition idle5 :: shared where
  "idle5 = \<lparr>conf = one_slot\<lparr>max_size := 2, idle_timeout := Some 5\<rparr>, closed = False\<rparr>"

lemma old_pool_accounts: "accounts idle5 0 0 old_pool"
  by (simp add: accounts_def old_pool_def idle5_def one_slot_def books_of_def queue_books_def waiters_new_def)

theorem reap_removes_expired_witness:
  "unat (fst (reap idle5 9 old_pool)) = 1 \<and>
   map raw (idle (snd (reap idle5 9 old_pool))) = [2]"
  using reap_removes_expired [OF old_pool_accounts, of 9]
  by (simp add: Let_def old_pool_def idle5_def one_slot_def expiry_def duration_since_def as_u32_def)

text \<open>
  \<open>clear\<close> closes every idle connection and frees its slot. On a closed pool it also unparks
  every queued call, in the order they queued.
\<close>

theorem clear_drains:
  assumes "accounts sh h k s" and "length (entries (waiters s)) < 2 ^ 32"
  shows "unat (fst (clear sh s)) = length (idle s) \<and> idle (snd (clear sh s)) = []
    \<and> unat (slots (snd (clear sh s))) = unat (slots s) - length (idle s)
    \<and> (closed sh \<longrightarrow> entries (waiters (snd (clear sh s))) = []
         \<and> woken_log (waiters (snd (clear sh s))) = woken_log (waiters s) @ map snd (entries (waiters s)))"
proof -
  have lt: "length (idle s) < 2 ^ 32" using assms(1) by (rule accounts_idle_bound)
  have q: "entries (waiters (observe f t)) = entries (waiters t)"
    "woken_log (waiters (observe f t)) = woken_log (waiters t)" for f and t :: "('a, 'b) inner"
    by simp_all
  show ?thesis
    using assms(2) as_u32_pos [OF lt] lt
    by (auto simp: clear_def Let_def rust_simps notify_def wake_all_entries wake_all_log
        release_slots_def note_closed_manual_def)
qed

definition parked_closed :: "(nat, nat) inner" where
  "parked_closed = old_pool\<lparr>waiters := snd (register None 7 (waiters_new None))\<rparr>"

lemma parked_closed_accounts: "accounts (pool_close idle5) 0 0 parked_closed"
  by (simp add: accounts_def parked_closed_def old_pool_def idle5_def one_slot_def books_of_def pool_close_def
      queue_books_def register_def queued_at_def waiters_new_def Let_def)

theorem clear_drains_witness:
  "idle (snd (clear (pool_close idle5) parked_closed)) = []
   \<and> woken_log (waiters (snd (clear (pool_close idle5) parked_closed))) = [7]"
  using clear_drains [OF parked_closed_accounts]
  by (simp add: parked_closed_def pool_close_def register_def queued_at_def waiters_new_def Let_def)

text \<open>
  When \<open>warm\<close> reports success the thread has at least \<open>min_idle\<close> idle connections, or
  every slot is in use.
\<close>

theorem warm_tops_up:
  assumes "warm_loop sh made s = (Finished (Warmed n), s')"
  shows "n = made \<and> s' = s \<and> (min_idle (conf sh) \<le> idle_len s' \<or> max_size (conf sh) \<le> slots s')"
  using assms by (auto simp: warm_loop_def try_reserve_def inner_connections_def Let_def split: if_splits)

theorem warm_tops_up_witness:
  "min_idle (conf idle5) \<le> idle_len old_pool \<or> max_size (conf idle5) \<le> slots old_pool"
proof -
  have "warm_loop idle5 0 old_pool = (Finished (Warmed 0), old_pool)"
    by (simp add: warm_loop_def idle5_def one_slot_def old_pool_def idle_len_def as_u32_def)
  from warm_tops_up [OF this] show ?thesis by simp
qed

section \<open>The wait queue and shutdown\<close>

text \<open>
  wake-ups are first come, first served: \<open>wake n\<close> takes the first \<open>n\<close> queued calls off
  the queue and wakes them in the order they queued, and nobody else.
\<close>

theorem wake_is_fifo:
  "entries (wake n q) = drop (unat n) (entries q)
   \<and> woken_log (wake n q) = woken_log q @ map snd (take (unat n) (entries q))"
  by (simp add: wake_entries wake_log)

text \<open>
  A call that was woken and is then cancelled, or times out, before it acts hands its wake-up
  to the next in the queue; one that was still queued just leaves, and everybody keeps their place.
\<close>

theorem cancelled_wait_hands_on:
  assumes "queue_inv (waiters s)" and "wr_id wr = Some i"
  shows "(i \<notin> set (ticket_ids (waiters s)) \<longrightarrow>
      entries (waiters (wait_ready_drop wr s)) = drop 1 (entries (waiters s)) \<and>
      woken_log (waiters (wait_ready_drop wr s))
        = woken_log (waiters s) @ map snd (take 1 (entries (waiters s))))
    \<and> (i \<in> set (ticket_ids (waiters s)) \<longrightarrow>
      ticket_ids (waiters (wait_ready_drop wr s)) = filter (\<lambda>j. j \<noteq> i) (ticket_ids (waiters s)) \<and>
      woken_log (waiters (wait_ready_drop wr s)) = woken_log (waiters s))"
proof (cases "i \<in> set (ticket_ids (waiters s))")
  case False
  with assms(2) unregister_absent [OF False] show ?thesis
    by (simp add: wait_ready_drop_def wake_entries wake_log)
next
  case True
  from unregister_order [OF assms(1) True] obtain q where
    q: "unregister i (waiters s) = (True, q)" "ticket_ids q = filter (\<lambda>j. j \<noteq> i) (ticket_ids (waiters s))"
    "woken_log q = woken_log (waiters s)" by blast
  with True assms(2) show ?thesis by (simp add: wait_ready_drop_def)
qed

definition two_queued :: "nat waiters" where
  "two_queued = snd (register None 8 (snd (register None 7 (waiters_new None))))"

lemma two_queued_eq:
  "two_queued = \<lparr>w_metrics = None, next_id = 3, woken_upto = 0, entries = [(1, 7), (2, 8)], woken_log = []\<rparr>"
  by (simp add: two_queued_def register_def queued_at_def waiters_new_def mirror_def on_metrics_def Let_def)

theorem cancelled_wait_hands_on_witness:
  "ticket_ids (waiters (wait_ready_drop \<lparr>wr_id = Some 1, wr_parked = True\<rparr> (one_out\<lparr>waiters := two_queued\<rparr>))) = [2]"
proof -
  have "queue_inv (waiters (one_out\<lparr>waiters := two_queued\<rparr>))"
    by (auto simp: two_queued_eq queue_inv_def ticket_ids_def)
  from cancelled_wait_hands_on [OF this, of "\<lparr>wr_id = Some 1, wr_parked = True\<rparr>" 1] show ?thesis
    by (simp add: two_queued_eq ticket_ids_def)
qed



end
