(* ===== verification/Observer.thy ===== *)
theory Observer
  imports Pool_Properties
begin

text \<open>
  The \<open>metrics\<close> feature observes and never acts. \<open>erase\<close> removes the metrics block, which is
  the pool of a build without the feature; every operation commutes with it, so a run with the
  feature and the same run without it make the same decisions at every step.
\<close>

section \<open>Without the block\<close>

definition forget :: "'w waiters \<Rightarrow> 'w waiters" where
  "forget q = q\<lparr>w_metrics := None\<rparr>"

definition erase :: "('c, 'w) inner \<Rightarrow> ('c, 'w) inner" where
  "erase s = s\<lparr>waiters := forget (waiters s)\<rparr>"

lemma forget_sel [simp]:
  "entries (forget q) = entries q" "next_id (forget q) = next_id q"
  "woken_upto (forget q) = woken_upto q" "woken_log (forget q) = woken_log q"
  by (simp_all add: forget_def)

lemma erase_sel [simp]:
  "idle (erase s) = idle s" "slots (erase s) = slots s" "waiters (erase s) = forget (waiters s)"
  by (simp_all add: erase_def)

lemma forget_updates:
  "(forget q)\<lparr>entries := es\<rparr> = forget (q\<lparr>entries := es\<rparr>)"
  "(forget q)\<lparr>next_id := i\<rparr> = forget (q\<lparr>next_id := i\<rparr>)"
  "(forget q)\<lparr>woken_upto := i\<rparr> = forget (q\<lparr>woken_upto := i\<rparr>)"
  "(forget q)\<lparr>woken_log := l\<rparr> = forget (q\<lparr>woken_log := l\<rparr>)"
  "mirror n (forget q) = forget (mirror n q)"
  "on_metrics f (forget q) = forget (on_metrics f q)"
  by (simp_all add: forget_def mirror_def on_metrics_def)

lemma wake_loop_forget: "wake_loop k (forget q) = forget (wake_loop k q)"
proof (induction k arbitrary: q)
  case (Suc k)
  show ?case
    by (cases "entries q") (auto simp: Suc.IH forget_updates Let_def split: prod.splits)
qed simp

lemma wake_forget: "wake n (forget q) = forget (wake n q)"
  by (simp add: wake_def wake_loop_forget)

lemma wake_all_forget: "wake_all (forget q) = forget (wake_all q)"
  by (simp add: wake_all_def Let_def wake_forget)

lemma queued_at_forget: "queued_at i (forget q) = queued_at i q"
  by (simp add: queued_at_def split: option.split)

lemma register_forget: "register i w (forget q) = map_prod (\<lambda>i. i) forget (register i w q)"
  by (simp add: register_def queued_at_forget Let_def forget_updates split: option.split)

lemma unregister_forget: "unregister i (forget q) = map_prod (\<lambda>b. b) forget (unregister i q)"
  by (simp add: unregister_def Let_def forget_updates split: sum.split)

lemma erase_updates:
  "(erase s)\<lparr>idle := xs\<rparr> = erase (s\<lparr>idle := xs\<rparr>)"
  "(erase s)\<lparr>slots := n\<rparr> = erase (s\<lparr>slots := n\<rparr>)"
  "s\<lparr>waiters := forget q\<rparr> = erase (s\<lparr>waiters := q\<rparr>)"
  "(erase s)\<lparr>waiters := q\<rparr> = s\<lparr>waiters := q\<rparr>"
  "observe f (erase s) = erase (observe f s)"
  by (simp_all add: erase_def observe_def forget_updates)

lemma erase_updates_queue: "(erase s)\<lparr>waiters := forget q\<rparr> = erase (s\<lparr>waiters := q\<rparr>)"
  by (simp add: erase_def)

lemma erase_notify: "notify sh n (erase s) = erase (notify sh n s)"
  by (simp add: notify_def wake_forget wake_all_forget erase_updates erase_updates_queue)

lemma erase_ops:
  "take_slot (erase s) = erase (take_slot s)"
  "release_slots n (erase s) = erase (release_slots n s)"
  "release_slot sh (erase s) = erase (release_slot sh s)"
  "push_idle c (erase s) = erase (push_idle c s)"
  "note_expired r (erase s) = erase (note_expired r s)"
  "note_created (erase s) = erase (note_created s)"
  "note_broken (erase s) = erase (note_broken s)"
  "note_closed_manual n (erase s) = erase (note_closed_manual n s)"
  "note_timed_out (erase s) = erase (note_timed_out s)"
  "record_acquire w a b (erase s) = erase (record_acquire w a b s)"
  "held_drop sh h (erase s) = erase (held_drop sh h s)"
  by (simp_all add: take_slot_def release_slots_def release_slot_def push_idle_def note_expired_def
      note_created_def note_broken_def note_closed_manual_def note_timed_out_def record_acquire_def
      held_drop_def erase_updates erase_notify)

lemma erase_pop_idle: "pop_idle (erase s) = map_prod (\<lambda>c. c) erase (pop_idle s)"
  by (simp add: pop_idle_def erase_updates split: prod.split option.split)

lemma erase_try_reserve: "try_reserve sh (erase s) = map_option (map_prod (\<lambda>h. h) erase) (try_reserve sh s)"
  by (simp add: try_reserve_def inner_connections_def erase_ops Let_def)

lemma erase_pop_fresh_idle:
  "pop_fresh_idle sh now (erase s) = map_prod (\<lambda>h. h) erase (pop_fresh_idle sh now s)"
proof (induction sh now s rule: pop_fresh_idle.induct)
  case (1 sh now s)
  obtain c s1 where p: "pop_idle s = (c, s1)" by (cases "pop_idle s")
  with "1.IH" [OF p [symmetric]] show ?case
    by (auto simp: pop_fresh_idle.simps [of sh now s] pop_fresh_idle.simps [of sh now "erase s"]
        erase_pop_idle erase_ops split: option.split)
qed

lemma erase_into_idle: "into_idle sh now h (erase s) = erase (into_idle sh now h s)"
  by (simp add: into_idle_def Let_def erase_ops erase_notify split: option.split)

lemma erase_fold_note_expired: "fold note_expired rs (erase s) = erase (fold note_expired rs s)"
  by (induction rs arbitrary: s) (simp_all add: erase_ops)

lemma erase_reap: "reap sh now (erase s) = map_prod (\<lambda>n. n) erase (reap sh now s)"
  by (simp add: reap_def reap_scan_eq Let_def erase_fold_note_expired erase_updates erase_ops erase_notify)

lemma erase_clear: "clear sh (erase s) = map_prod (\<lambda>n. n) erase (clear sh s)"
  by (simp add: clear_def Let_def erase_updates erase_ops erase_notify)

lemma erase_wait_ready_drop: "wait_ready_drop wr (erase s) = erase (wait_ready_drop wr s)"
  by (simp add: wait_ready_drop_def unregister_forget erase_updates_queue wake_forget
      split: option.split prod.split bool.split)

lemma erase_wait_ready_poll:
  "wait_ready_poll sh w wr (erase s) = map_prod (\<lambda>r. r) (map_prod (\<lambda>wr. wr) erase) (wait_ready_poll sh w wr s)"
  by (auto simp: wait_ready_poll_def ready_now_def inner_connections_def register_forget unregister_forget
      wake_all_forget erase_updates_queue Let_def split: option.split prod.split)

section \<open>Calls\<close>

abbreviation erase_result :: "'t \<times> ('c, 'w) inner \<Rightarrow> 't \<times> ('c, 'w) inner" where
  "erase_result \<equiv> map_prod (\<lambda>t. t) erase"

lemma erase_hand_out:
  "hand_out sh waited start now h (erase s) = erase_result (hand_out sh waited start now h s)"
  by (simp add: hand_out_eq erase_ops)

lemma erase_get_wait:
  "get_wait sh w t1 t2 start waited wr (erase s) = erase_result (get_wait sh w t1 t2 start waited wr s)"
proof (induction sh w t1 t2 start waited wr s rule: get_wait.induct)
  case (1 sh w t1 t2 start waited wr s)
  obtain r wr' s1 where p: "wait_ready_poll sh w wr s = (r, wr', s1)"
    by (cases "wait_ready_poll sh w wr s")
  obtain g s2 where q: "pop_fresh_idle sh t1 (wait_ready_drop wr' s1) = (g, s2)"
    by (cases "pop_fresh_idle sh t1 (wait_ready_drop wr' s1)")
  show ?case
    using "1.IH" [OF p [symmetric] _ refl _ q [symmetric]] p q
    by (auto simp: get_wait.simps [of sh w t1 t2 start waited wr s]
        get_wait.simps [of sh w t1 t2 start waited wr "erase s"] erase_wait_ready_poll
        erase_wait_ready_drop erase_pop_fresh_idle erase_hand_out erase_try_reserve
        split: option.split)
qed

lemma erase_get_loop:
  "get_loop sh w t1 t2 start waited (erase s) = erase_result (get_loop sh w t1 t2 start waited s)"
  by (simp add: get_loop_def erase_get_wait)

lemma erase_get_start: "get_start sh w t1 t2 (erase s) = erase_result (get_start sh w t1 t2 s)"
  by (auto simp: get_start_def erase_pop_fresh_idle erase_hand_out erase_get_loop
      split: prod.split option.split)

lemma erase_get_validated:
  "get_validated sh w t1 t2 r ok h start waited (erase s)
     = erase_result (get_validated sh w t1 t2 r ok h start waited s)"
  by (simp add: get_validated_def erase_ops erase_get_loop erase_hand_out)

lemma erase_try_loop: "try_loop sh t1 t2 (erase s) = erase_result (try_loop sh t1 t2 s)"
  by (auto simp: try_loop_def erase_pop_fresh_idle erase_hand_out erase_try_reserve
      split: prod.split option.split)

lemma erase_warm_loop: "warm_loop sh made (erase s) = erase_result (warm_loop sh made s)"
  by (auto simp: warm_loop_def idle_len_def erase_try_reserve split: prod.split option.split)

lemma erase_pooled_drop: "pooled_drop hb sh n1 n2 p (erase s) = erase (pooled_drop hb sh n1 n2 p s)"
  by (simp add: pooled_drop_def Let_def erase_ops erase_notify split: prod.split option.split)

lemma erase_task_cancel: "task_cancel sh t (erase s) = map_option erase_result (task_cancel sh t s)"
  by (cases t) (simp_all add: erase_ops erase_wait_ready_drop)

lemmas erase_calls = erase_hand_out erase_get_wait erase_get_loop erase_get_start erase_get_validated
  erase_try_loop erase_warm_loop erase_pooled_drop pooled_take_def erase_task_cancel erase_into_idle
  erase_reap erase_ops

lemma erase_task_step:
  "task_step hb sh w t1 t2 sig t (erase s) = map_option erase_result (task_step hb sh w t1 t2 sig t s)"
  by (cases sig; cases t)
    (simp_all add: signal_defs call_defs erase_calls option.map_comp comp_def split: option.split)

definition erase_thread :: "('c, 'e) thread \<Rightarrow> ('c, 'e) thread" where
  "erase_thread th = th\<lparr>th_pool := erase (th_pool th)\<rparr>"

lemma erase_thread_step:
  "thread_step hb e (erase_thread th) = map_option erase_thread (thread_step hb e th)"
  by (cases e; cases th) (simp_all add: erase_thread_def erase_task_step erase_reap erase_clear option.map_comp
      comp_def map_prod_def split_def)

lemma erase_thread_run:
  "thread_run hb es (erase_thread th) = map_option erase_thread (thread_run hb es th)"
  by (induction es arbitrary: th) (simp_all add: erase_thread_step split: option.split)

lemma erase_thread_new: "erase_thread (thread_new cfg True) = thread_new cfg False"
  by (simp add: erase_thread_def thread_new_def erase_def forget_def local_pool_new_def waiters_new_def)

text \<open>
  C8: The \<open>metrics\<close> feature changes nothing but the counters. The same events lead a build
  without it to the same thread, call for call and connection for connection, less the block.
\<close>

theorem metrics_only_observe:
  "thread_run hb es (thread_new cfg False) = map_option erase_thread (thread_run hb es (thread_new cfg True))"
  using erase_thread_run [of hb es "thread_new cfg True"] by (simp add: erase_thread_new)

end
