(* ===== verification/Listener.thy ===== *)
theory Listener
  imports Prelude "HOL-Library.Sublist"
begin

text \<open>
  \<open>src/src/listener.rs\<close>: \<open>bind_reuseport\<close> as the sequence of socket calls it makes. The
  operating system is a parameter that says, given the calls made so far, whether the next one fails
  and with which error. \<open>linux\<close> says which of the two \<open>set_incoming_cpu\<close> is compiled in.
\<close>

section \<open>Calls\<close>

datatype socket_addr = SocketV4 u32 nat | SocketV6 nat nat

datatype domain = IPV4 | IPV6

fun for_address :: "socket_addr \<Rightarrow> domain" where
  "for_address (SocketV4 ip port) = IPV4"
| "for_address (SocketV6 ip port) = IPV6"

datatype socket_call =
    NewSocket domain
  | NewDatagramSocket domain
  | SetReuseAddress bool
  | SetReusePort bool
  | SetCpuAffinity nat
  | SetNonblocking bool
  | Bind socket_addr
  | Listen int

type_synonym 'e os = "socket_call list \<Rightarrow> socket_call \<Rightarrow> 'e option"

text \<open>A call and the \<open>?\<close> after it: the calls so far, or the error with the calls made.\<close>

definition try_call :: "'e os \<Rightarrow> socket_call \<Rightarrow> socket_call list \<Rightarrow> ('e \<times> socket_call list) + socket_call list" where
  "try_call os c made =
     (case os made c of None \<Rightarrow> Inr (made @ [c]) | Some e \<Rightarrow> Inl (e, made @ [c]))"

fun and_then :: "'e + 'a \<Rightarrow> ('a \<Rightarrow> 'e + 'b) \<Rightarrow> 'e + 'b" where
  "and_then (Inl e) f = Inl e"
| "and_then (Inr x) f = f x"

text \<open>\<open>let _ = socket.set_cpu_affinity(cpu)\<close>: made, and its failure ignored.\<close>

definition set_incoming_cpu :: "bool \<Rightarrow> nat \<Rightarrow> socket_call list \<Rightarrow> socket_call list" where
  "set_incoming_cpu linux cpu made = (if linux then made @ [SetCpuAffinity cpu] else made)"

definition bind_reuseport ::
  "'e os \<Rightarrow> bool \<Rightarrow> socket_addr \<Rightarrow> int \<Rightarrow> nat option \<Rightarrow> ('e \<times> socket_call list) + socket_call list" where
  "bind_reuseport os linux addr backlog incoming_cpu =
     and_then (try_call os (NewSocket (for_address addr)) [])
       (\<lambda>made. and_then (try_call os (SetReuseAddress True) made)
         (\<lambda>made. and_then (try_call os (SetReusePort True) made)
           (\<lambda>made. let made = (case incoming_cpu of Some cpu \<Rightarrow> set_incoming_cpu linux cpu made | None \<Rightarrow> made)
             in and_then (try_call os (Bind addr) made)
               (\<lambda>made. try_call os (Listen backlog) made))))"

text \<open>The calls of a listener that came up.\<close>

definition full_sequence :: "bool \<Rightarrow> socket_addr \<Rightarrow> int \<Rightarrow> nat option \<Rightarrow> socket_call list" where
  "full_sequence linux addr backlog incoming_cpu =
     [NewSocket (for_address addr), SetReuseAddress True, SetReusePort True]
     @ (case incoming_cpu of Some cpu \<Rightarrow> if linux then [SetCpuAffinity cpu] else [] | None \<Rightarrow> [])
     @ [Bind addr, Listen backlog]"

lemma try_call_cases:
  "try_call os c made = Inr made' \<longleftrightarrow> os made c = None \<and> made' = made @ [c]"
  "try_call os c made = Inl r \<longleftrightarrow> (\<exists>e. os made c = Some e \<and> r = (e, made @ [c]))"
  by (auto simp: try_call_def split: option.split)

lemma and_then_cases:
  "and_then x f = Inr y \<longleftrightarrow> (\<exists>a. x = Inr a \<and> f a = Inr y)"
  "and_then x f = Inl e \<longleftrightarrow> x = Inl e \<or> (\<exists>a. x = Inr a \<and> f a = Inl e)"
  by (cases x; simp)+

lemmas bind_cases = try_call_cases and_then_cases

section \<open>A list of calls\<close>

text \<open>Calls made one after the other, each with a \<open>?\<close>.\<close>

fun make_calls :: "'e os \<Rightarrow> socket_call list \<Rightarrow> socket_call list \<Rightarrow> ('e \<times> socket_call list) + socket_call list" where
  "make_calls os [] made = Inr made"
| "make_calls os (c # cs) made = and_then (try_call os c made) (make_calls os cs)"

lemma make_calls_fun: "make_calls os [] = Inr"
  "make_calls os (c # cs) = (\<lambda>made. and_then (try_call os c made) (make_calls os cs))"
  by (rule ext, simp)+

lemma and_then_Inr [simp]: "and_then x Inr = x"
  by (cases x) simp_all

lemma make_calls_ok: "make_calls os cs made = Inr made' \<Longrightarrow> made' = made @ cs"
proof (induction cs arbitrary: made)
  case (Cons c cs)
  then show ?case using Cons.IH [of "made @ [c]"] by (auto simp: bind_cases)
qed simp

lemma make_calls_failed:
  "make_calls os cs made = Inl (e, made') \<Longrightarrow> prefix made' (made @ cs) \<and> os (butlast made') (last made') = Some e"
proof (induction cs arbitrary: made)
  case (Cons c cs)
  then show ?case using Cons.IH [of "made @ [c]"] by (auto simp: bind_cases)
qed simp

section \<open>Properties\<close>

text \<open>
  The socket calls are made in one order whatever fails: a listener that comes up has set both
  reuse options before \<open>bind\<close>, and one that does not stopped at its first refused call, with
  nothing attempted after it.
\<close>

theorem reuse_options_precede_bind:
  "(\<forall>made. bind_reuseport os linux addr backlog cpu = Inr made \<longrightarrow>
      made = full_sequence linux addr backlog cpu) \<and>
   (\<forall>e made. bind_reuseport os linux addr backlog cpu = Inl (e, made) \<longrightarrow>
      prefix made (full_sequence linux addr backlog cpu) \<and> os (butlast made) (last made) = Some e)"
  by (auto simp: bind_reuseport_def full_sequence_def set_incoming_cpu_def bind_cases Let_def
      split: option.splits if_splits)

definition refuse_bind :: "nat os" where
  "refuse_bind made c = (case c of Bind a \<Rightarrow> Some 98 | _ \<Rightarrow> None)"

theorem reuse_options_precede_bind_witness:
  "bind_reuseport refuse_bind True (SocketV4 0 80) 128 (Some 3)
     = Inl (98, [NewSocket IPV4, SetReuseAddress True, SetReusePort True, SetCpuAffinity 3, Bind (SocketV4 0 80)])
   \<and> prefix [NewSocket IPV4, SetReuseAddress True, SetReusePort True, SetCpuAffinity 3, Bind (SocketV4 0 80)]
       (full_sequence True (SocketV4 0 80) 128 (Some 3))"
proof -
  have "bind_reuseport refuse_bind True (SocketV4 0 80) 128 (Some 3)
     = Inl (98, [NewSocket IPV4, SetReuseAddress True, SetReusePort True, SetCpuAffinity 3, Bind (SocketV4 0 80)])"
    by (simp add: bind_reuseport_def try_call_def refuse_bind_def set_incoming_cpu_def)
  with reuse_options_precede_bind [of refuse_bind True "SocketV4 0 80" 128 "Some 3"] show ?thesis by blast
qed

text \<open>
  \<open>SO_INCOMING_CPU\<close> is only a hint: whether the kernel accepts it never changes whether the
  listener comes up, nor the calls made for it.
\<close>

theorem incoming_cpu_is_a_hint:
  assumes "\<And>made c. (\<forall>cpu. c \<noteq> SetCpuAffinity cpu) \<Longrightarrow> os made c = os' made c"
  shows "bind_reuseport os linux addr backlog cpu = bind_reuseport os' linux addr backlog cpu"
  by (simp add: bind_reuseport_def try_call_def assms)

definition refuse_hint :: "nat os" where
  "refuse_hint made c = (case c of SetCpuAffinity n \<Rightarrow> Some 22 | _ \<Rightarrow> None)"

theorem incoming_cpu_is_a_hint_witness:
  "bind_reuseport refuse_hint True (SocketV4 0 80) 128 (Some 3)
     = bind_reuseport (\<lambda>made c. None) True (SocketV4 0 80) 128 (Some 3)"
  by (rule incoming_cpu_is_a_hint) (simp add: refuse_hint_def split: socket_call.split)

end
