(* ===== verification/Text.thy ===== *)
theory Text
  imports Prelude
begin

text \<open>
  The text handling of the standard library the crate uses: \<open>format!("{n}")\<close>,
  \<open>format!("{bits:08x}")\<close>, \<open>str::parse::<usize>\<close>, \<open>trim\<close>, \<open>strip_prefix\<close> and \<open>split_whitespace\<close>. A string is
  a list of bytes; \<open>trim\<close> drops the ASCII white space, which is all that sysfs and HTTP heads hold.
\<close>

section \<open>Decimal numbers\<close>

definition digit_char :: "nat \<Rightarrow> char" where
  "digit_char d = char_of (48 + d)"

definition char_digit :: "char \<Rightarrow> nat option" where
  "char_digit c = (let n = of_char c :: nat in if 48 \<le> n \<and> n \<le> 57 then Some (n - 48) else None)"

fun show_nat :: "nat \<Rightarrow> string" where
  "show_nat n = (if n < 10 then [digit_char n] else show_nat (n div 10) @ [digit_char (n mod 10)])"

declare show_nat.simps [simp del]

text \<open>The accumulator of \<open>usize::from_str\<close>: none on a character that is no digit or on overflow.\<close>

fun parse_digits :: "nat \<Rightarrow> string \<Rightarrow> nat option" where
  "parse_digits acc [] = Some acc"
| "parse_digits acc (c # cs) =
     (case char_digit c of
        None \<Rightarrow> None
      | Some d \<Rightarrow> if acc * 10 + d < 2 ^ 64 then parse_digits (acc * 10 + d) cs else None)"

definition parse_usize :: "string \<Rightarrow> nat option" where
  "parse_usize s =
     (let digits = (case s of c # cs \<Rightarrow> if c = CHR ''+'' then cs else s | [] \<Rightarrow> [])
      in if digits = [] then None else parse_digits 0 digits)"

lemma char_digit_digit_char [simp]: "d < 10 \<Longrightarrow> char_digit (digit_char d) = Some d"
  by (simp add: char_digit_def digit_char_def Let_def)

lemma digit_char_plus: "d < 10 \<Longrightarrow> digit_char d \<noteq> CHR ''+''"
proof
  assume "d < 10" and "digit_char d = CHR ''+''"
  then have "char_digit (CHR ''+'') = Some d" using char_digit_digit_char by metis
  then show False by (simp add: char_digit_def)
qed

lemma parse_digits_append:
  "parse_digits acc (xs @ ys) = Option.bind (parse_digits acc xs) (\<lambda>a. parse_digits a ys)"
  by (induction xs arbitrary: acc) (auto split: option.splits)

lemma parse_digits_show: "n < 2 ^ 64 \<Longrightarrow> parse_digits 0 (show_nat n) = Some n"
proof (induction n rule: show_nat.induct)
  case (1 n)
  show ?case
  proof (cases "n < 10")
    case True
    with "1.prems" show ?thesis by (simp add: show_nat.simps [of n])
  next
    case False
    have "n div 10 < 2 ^ 64" using "1.prems" by linarith
    from "1.IH" [OF False this] False "1.prems" show ?thesis
      by (simp add: show_nat.simps [of n] parse_digits_append)
  qed
qed

lemma show_nat_not_empty: "show_nat n \<noteq> []"
  by (simp add: show_nat.simps [of n])

lemma hd_show_nat: "hd (show_nat n) \<noteq> CHR ''+''"
proof (induction n rule: show_nat.induct)
  case (1 n)
  then show ?case
    using digit_char_plus [of n] show_nat_not_empty [of "n div 10"] by (simp add: show_nat.simps [of n])
qed

lemma parse_show_usize: "n < 2 ^ 64 \<Longrightarrow> parse_usize (show_nat n) = Some n"
  using parse_digits_show [of n] show_nat_not_empty [of n] hd_show_nat [of n]
  by (cases "show_nat n") (simp_all add: parse_usize_def)

lemma parse_digits_bound: "parse_digits acc s = Some n \<Longrightarrow> acc < 2 ^ 64 \<Longrightarrow> n < 2 ^ 64"
  by (induction s arbitrary: acc) (auto split: option.splits if_splits)

lemma parse_usize_bound: "parse_usize s = Some n \<Longrightarrow> n < 2 ^ 64"
  using parse_digits_bound [of 0] by (auto simp: parse_usize_def Let_def split: if_splits)

lemma set_show_nat: "c \<in> set (show_nat n) \<Longrightarrow> \<exists>d. char_digit c = Some d"
proof (induction n rule: show_nat.induct)
  case (1 n)
  then show ?case using char_digit_digit_char by (fastforce simp: show_nat.simps [of n] split: if_splits)
qed

lemma length_show_nat: "0 < k \<Longrightarrow> n < 10 ^ k \<Longrightarrow> length (show_nat n) \<le> k"
proof (induction n arbitrary: k rule: show_nat.induct)
  case (1 n)
  show ?case
  proof (cases "n < 10")
    case True
    then show ?thesis using "1.prems"(1) by (simp add: show_nat.simps [of n])
  next
    case False
    with "1.prems" obtain j where j: "k = Suc j" "0 < j" by (cases k; cases "k - 1") auto
    then have "n div 10 < 10 ^ j" using "1.prems"(2) by (simp add: less_mult_imp_div_less mult.commute)
    from "1.IH" [OF False j(2) this] j False show ?thesis by (simp add: show_nat.simps [of n])
  qed
qed

lemma length_show_u64: "length (show_nat (unat (w :: u64))) \<le> 20"
  by (rule length_show_nat) (use u64_bound [of w] in simp_all)

lemma length_show_small: "n < 1000 \<Longrightarrow> length (show_nat n) \<le> 3"
  by (rule length_show_nat) simp_all

section \<open>Hexadecimal words\<close>

definition hex_char :: "nat \<Rightarrow> char" where
  "hex_char d = (if d < 10 then char_of (48 + d) else char_of (87 + d))"

definition hex_digit :: "char \<Rightarrow> nat" where
  "hex_digit c = (let n = of_char c :: nat in if n \<le> 57 then n - 48 else n - 87)"

fun hex_padded :: "nat \<Rightarrow> nat \<Rightarrow> string" where
  "hex_padded 0 n = []"
| "hex_padded (Suc k) n = hex_padded k (n div 16) @ [hex_char (n mod 16)]"

text \<open>\<open>{bits:08x}\<close>: eight digits hold any 32-bit word, so the width is exact.\<close>

definition format_08x :: "u32 \<Rightarrow> string" where
  "format_08x w = hex_padded 8 (unat w)"

lemma hex_digit_hex_char [simp]: "d < 16 \<Longrightarrow> hex_digit (hex_char d) = d"
  by (auto simp: hex_digit_def hex_char_def Let_def)

lemma hex_char_comma: "d < 16 \<Longrightarrow> hex_char d \<noteq> CHR '',''"
proof
  assume d: "d < 16" and e: "hex_char d = CHR '',''"
  have "(of_char (hex_char d) :: nat) = (if d < 10 then 48 + d else 87 + d)"
    using d by (simp add: hex_char_def)
  then show False using e d by (simp split: if_splits)
qed

lemma length_hex_padded [simp]: "length (hex_padded k n) = k"
  by (induction k n rule: hex_padded.induct) simp_all

lemma hex_padded_no_comma: "CHR '','' \<notin> set (hex_padded k n)"
  using hex_char_comma by (induction k n rule: hex_padded.induct) (auto, metis mod_less_divisor zero_less_numeral)

lemma hex_padded_value:
  "foldl (\<lambda>acc c. acc * 16 + hex_digit c) acc (hex_padded k n) = acc * 16 ^ k + n mod 16 ^ k"
proof (induction k n arbitrary: acc rule: hex_padded.induct)
  case (2 k n)
  have "n mod 16 ^ Suc k = 16 * (n div 16 mod 16 ^ k) + n mod 16"
    by (simp add: mod_mult2_eq)
  then show ?case using "2.IH" by (simp add: algebra_simps)
qed simp

section \<open>Trimming and prefixes\<close>

definition is_space :: "char \<Rightarrow> bool" where
  "is_space c = (let n = of_char c :: nat in n = 32 \<or> (9 \<le> n \<and> n \<le> 13))"

definition trim :: "string \<Rightarrow> string" where
  "trim s = rev (dropWhile is_space (rev (dropWhile is_space s)))"

definition trim_end :: "string \<Rightarrow> string" where
  "trim_end s = rev (dropWhile is_space (rev s))"

fun strip_prefix :: "string \<Rightarrow> string \<Rightarrow> string option" where
  "strip_prefix [] s = Some s"
| "strip_prefix (p # ps) [] = None"
| "strip_prefix (p # ps) (c # cs) = (if p = c then strip_prefix ps cs else None)"

lemma strip_prefix_iff: "strip_prefix p s = Some r \<longleftrightarrow> s = p @ r"
  by (induction p s rule: strip_prefix.induct) auto

lemma trim_ends: "s' = trim s \<Longrightarrow> s' \<noteq> [] \<Longrightarrow> \<not> is_space (hd s') \<and> \<not> is_space (last s')"
proof -
  assume s': "s' = trim s" and ne: "s' \<noteq> []"
  let ?m = "dropWhile is_space s"
  have l: "\<not> is_space (hd (rev s'))"
    using ne hd_dropWhile [of is_space "rev ?m"] s' by (auto simp: trim_def)
  obtain rest where "rev ?m = rest @ rev s'"
    using s' takeWhile_dropWhile_id [of is_space "rev ?m"] by (metis rev_rev_ident trim_def)
  then have "?m = s' @ rev rest" by (metis rev_append rev_rev_ident)
  then have "hd ?m = hd s'" "?m \<noteq> []" using ne by auto
  then have "\<not> is_space (hd s')" using hd_dropWhile [of is_space s] by simp
  with l ne show ?thesis by (simp add: hd_rev)
qed

section \<open>Words\<close>

text \<open>\<open>split_whitespace\<close>: the maximal runs of non-space characters.\<close>

fun words_from :: "string \<Rightarrow> string \<Rightarrow> string list" where
  "words_from acc [] = (if acc = [] then [] else [acc])"
| "words_from acc (c # cs) =
     (if is_space c then (if acc = [] then words_from [] cs else acc # words_from [] cs)
      else words_from (acc @ [c]) cs)"

definition split_whitespace :: "string \<Rightarrow> string list" where
  "split_whitespace s = words_from [] s"

lemma words_from_word: "list_all (\<lambda>c. \<not> is_space c) w \<Longrightarrow> words_from acc (w @ s) = words_from (acc @ w) s"
  by (induction w arbitrary: acc) simp_all

lemma words_from_nonspace: "list_all (\<lambda>c. \<not> is_space c) acc \<Longrightarrow> list_all (list_all (\<lambda>c. \<not> is_space c)) (words_from acc s)"
  by (induction acc s rule: words_from.induct) auto

text \<open>A word, then a space or the end: what a printed command is made of.\<close>

lemma split_whitespace_word:
  assumes "w \<noteq> []" and "list_all (\<lambda>c. \<not> is_space c) w"
  shows "split_whitespace w = [w]" "is_space c \<Longrightarrow> split_whitespace (w @ c # s) = w # split_whitespace s"
  using assms words_from_word [of w "[]" "[]"] words_from_word [of w "[]" "c # s"]
  by (simp_all add: split_whitespace_def)

end
