(* ===== verification/Cpu.thy ===== *)
theory Cpu
  imports Text "HOL-Library.Multiset" "HOL-Library.Product_Lexorder" "HOL-Library.Sublist"
begin

text \<open>
  \<open>src/src/cpu.rs\<close>: the cores the process may run on, the IRQ affinity mask of a core, and the
  topology-aware selection \<open>CoreSet\<close>. What the operating system answers is a parameter: the list
  \<open>core_affinity::get_core_ids\<close> returns, and the contents of sysfs files and directories. The
  locale \<open>narrowing\<close> is the contract every \<open>CoreSet\<close> method keeps: it reorders and drops cores
  and never adds or repeats one.
\<close>

section \<open>Cores\<close>

record core_id =
  cid :: nat

fun dedup_by_key :: "('a \<Rightarrow> 'k) \<Rightarrow> 'a list \<Rightarrow> 'a list" where
  "dedup_by_key f (x # y # xs) =
     (if f x = f y then dedup_by_key f (x # xs) else x # dedup_by_key f (y # xs))"
| "dedup_by_key f xs = xs"

definition cores :: "core_id list option \<Rightarrow> core_id list" where
  "cores get_core_ids =
     dedup_by_key cid (sort_key cid (case get_core_ids of Some cs \<Rightarrow> cs | None \<Rightarrow> []))"

text \<open>
  \<open>affinity_mask\<close>: one 32-bit word per 32 cpus, most significant first, separated by commas.
\<close>

definition mask_word :: "nat \<Rightarrow> nat \<Rightarrow> u32" where
  "mask_word cpu w = (if w = cpu div 32 then push_bit (cpu mod 32) 1 else 0)"

definition mask_push :: "nat \<Rightarrow> string \<Rightarrow> nat \<Rightarrow> string" where
  "mask_push cpu out w =
     (if out \<noteq> [] then out @ '','' else out) @ format_08x (mask_word cpu w)"

definition affinity_mask :: "nat \<Rightarrow> string" where
  "affinity_mask cpu = foldl (mask_push cpu) [] (rev [0..<cpu div 32 + 1])"

section \<open>CoreSet\<close>

record core_info =
  ci_id :: nat
  core :: nat
  package :: nat
  numa_node :: nat

type_synonym core_set = "core_info list"

definition info_core_id :: "core_info \<Rightarrow> core_id" where
  "info_core_id c = \<lparr>cid = ci_id c\<rparr>"

definition phys :: "core_info \<Rightarrow> nat \<times> nat" where
  "phys c = (package c, core c)"

text \<open>\<open>retain(|c| seen.insert((c.package, c.core)))\<close>.\<close>

fun retain_unseen :: "(nat \<times> nat) list \<Rightarrow> core_set \<Rightarrow> core_set" where
  "retain_unseen seen [] = []"
| "retain_unseen seen (c # cs) =
     (if phys c \<in> set seen then retain_unseen seen cs else c # retain_unseen (phys c # seen) cs)"

definition physical_only :: "core_set \<Rightarrow> core_set" where
  "physical_only s = retain_unseen [] s"

definition on_numa_node :: "nat \<Rightarrow> core_set \<Rightarrow> core_set" where
  "on_numa_node node s = filter (\<lambda>c. numa_node c = node) s"

definition on_package :: "nat \<Rightarrow> core_set \<Rightarrow> core_set" where
  "on_package pk s = filter (\<lambda>c. package c = pk) s"

definition filter_cores :: "(core_info \<Rightarrow> bool) \<Rightarrow> core_set \<Rightarrow> core_set" where
  "filter_cores pred s = filter pred s"

text \<open>The \<open>BTreeMap\<close> from package to its cores: packages in order, cores in arrival order.\<close>

definition package_groups :: "core_set \<Rightarrow> core_set list" where
  "package_groups s =
     map (\<lambda>pk. filter (\<lambda>c. package c = pk) s) (sorted_list_of_set (package ` set s))"

definition spread_key :: "core_info \<Rightarrow> nat \<times> nat \<times> nat" where
  "spread_key c = (numa_node c, core c, ci_id c)"

text \<open>The \<open>while draining\<close> loop: each round takes one core from every column that has one left.\<close>

function drain_rounds :: "core_set list \<Rightarrow> core_set" where
  "drain_rounds columns =
     (let heads = List.map_filter (\<lambda>col. case col of [] \<Rightarrow> None | c # cs \<Rightarrow> Some c) columns
      in if heads = [] then [] else heads @ drain_rounds (map tl columns))"
  by pat_completeness auto

lemma sum_tl_less:
  "List.map_filter (\<lambda>col. case col of [] \<Rightarrow> None | c # cs \<Rightarrow> Some c) columns \<noteq> [] \<Longrightarrow>
   sum_list (map length (map tl columns)) < sum_list (map length columns)"
proof (induction columns)
  case (Cons col columns)
  have le: "sum_list (map length (map tl columns)) \<le> sum_list (map length columns)"
    by (induction columns) (auto intro!: add_mono)
  show ?case
  proof (cases col)
    case Nil
    with Cons show ?thesis by (simp add: map_filter_simps)
  next
    case (Cons c cs)
    with le show ?thesis by simp
  qed
qed (simp add: map_filter_simps)

termination drain_rounds
  by (relation "measure (\<lambda>columns. sum_list (map length columns))") (use sum_tl_less in auto)

declare drain_rounds.simps [simp del]

definition spread :: "core_set \<Rightarrow> core_set" where
  "spread s = drain_rounds (map (sort_key spread_key) (package_groups s))"

definition pack_key :: "core_info \<Rightarrow> nat \<times> nat \<times> nat \<times> nat" where
  "pack_key c = (package c, numa_node c, core c, ci_id c)"

definition pack :: "core_set \<Rightarrow> core_set" where
  "pack s = sort_key pack_key s"

definition take_cores :: "nat \<Rightarrow> core_set \<Rightarrow> core_set" where
  "take_cores n s = take n s"

definition core_ids :: "core_set \<Rightarrow> core_id list" where
  "core_ids s = map info_core_id s"

section \<open>Topology\<close>

text \<open>\<open>read_file\<close> is \<open>fs::read_to_string(path).ok()\<close>.\<close>

definition read_sysfs_usize :: "(string \<Rightarrow> string option) \<Rightarrow> string \<Rightarrow> nat option" where
  "read_sysfs_usize read_file path = Option.bind (read_file path) (\<lambda>s. parse_usize (trim s))"

text \<open>\<open>read_dir\<close> lists the readable entries of a directory, by name.\<close>

fun first_node :: "string list \<Rightarrow> nat" where
  "first_node [] = 0"
| "first_node (name # names) =
     (case Option.bind (strip_prefix ''node'' name) parse_usize of
        Some node \<Rightarrow> node
      | None \<Rightarrow> first_node names)"

definition cpu_dir :: "nat \<Rightarrow> string" where
  "cpu_dir i = ''/sys/devices/system/cpu/cpu'' @ show_nat i"

definition numa_node_of :: "(string \<Rightarrow> string list option) \<Rightarrow> nat \<Rightarrow> nat" where
  "numa_node_of read_dir i = (case read_dir (cpu_dir i) of None \<Rightarrow> 0 | Some names \<Rightarrow> first_node names)"

definition unwrap_or :: "'a option \<Rightarrow> 'a \<Rightarrow> 'a" where
  "unwrap_or x d = (case x of Some v \<Rightarrow> v | None \<Rightarrow> d)"

definition topology_for ::
  "(string \<Rightarrow> string option) \<Rightarrow> (string \<Rightarrow> string list option) \<Rightarrow> nat list \<Rightarrow> core_set" where
  "topology_for read_file read_dir ids =
     map (\<lambda>i. let topo = cpu_dir i @ ''/topology''
              in \<lparr>ci_id = i,
                  core = unwrap_or (read_sysfs_usize read_file (topo @ ''/core_id'')) i,
                  package = unwrap_or (read_sysfs_usize read_file (topo @ ''/physical_package_id'')) 0,
                  numa_node = numa_node_of read_dir i\<rparr>) ids"

definition permitted ::
  "core_id list option \<Rightarrow> (string \<Rightarrow> string option) \<Rightarrow> (string \<Rightarrow> string list option) \<Rightarrow> core_set" where
  "permitted get_core_ids read_file read_dir =
     topology_for read_file read_dir (map cid (cores get_core_ids))"

text \<open>The stand-in off Linux: every core its own physical core, one package, one node.\<close>

definition topology_elsewhere :: "nat list \<Rightarrow> core_set" where
  "topology_elsewhere ids = map (\<lambda>i. \<lparr>ci_id = i, core = i, package = 0, numa_node = 0\<rparr>) ids"

section \<open>Sorted and deduplicated\<close>

lemma dedup_by_key_keys: "f ` set (dedup_by_key f xs) = f ` set xs"
  by (induction f xs rule: dedup_by_key.induct) auto

lemma dedup_by_key_subset: "set (dedup_by_key f xs) \<subseteq> set xs"
  by (induction f xs rule: dedup_by_key.induct) auto

lemma dedup_by_key_strict:
  fixes f :: "'a \<Rightarrow> 'k::linorder"
  shows "sorted (map f xs) \<Longrightarrow> sorted_wrt (<) (map f (dedup_by_key f xs))"
proof (induction f xs rule: dedup_by_key.induct)
  case (1 f x y xs)
  show ?case
  proof (cases "f x = f y")
    case True
    with 1 show ?thesis by simp
  next
    case False
    have "sorted_wrt (<) (map f (dedup_by_key f (y # xs)))" using 1 False by simp
    moreover have "f x < f z" if "z \<in> set (dedup_by_key f (y # xs))" for z
    proof -
      from that have "z \<in> set (y # xs)" using dedup_by_key_subset by fast
      with "1.prems" have "f y \<le> f z" "f x \<le> f y" by auto
      with False show ?thesis by simp
    qed
    ultimately show ?thesis using False by simp
  qed
qed simp_all

section \<open>The mask\<close>

definition mask_value_from :: "nat \<Rightarrow> string \<Rightarrow> nat" where
  "mask_value_from acc s = foldl (\<lambda>acc c. if c = CHR '','' then acc else acc * 16 + hex_digit c) acc s"

text \<open>The number a reader of \<open>/proc/irq/<n>/smp_affinity\<close> takes the mask for.\<close>

definition mask_value :: "string \<Rightarrow> nat" where
  "mask_value s = mask_value_from 0 s"

lemma mask_value_append: "mask_value_from acc (s @ t) = mask_value_from (mask_value_from acc s) t"
  by (simp add: mask_value_from_def)

lemma mask_value_comma: "mask_value_from acc '','' = acc"
  by (simp add: mask_value_from_def)

lemma mask_value_hex: "CHR '','' \<notin> set s \<Longrightarrow>
  mask_value_from acc s = foldl (\<lambda>acc c. acc * 16 + hex_digit c) acc s"
  unfolding mask_value_from_def by (induction s arbitrary: acc) auto

lemma mask_value_word: "mask_value_from acc (format_08x w) = acc * 2 ^ 32 + unat w"
proof -
  have "unat w mod 16 ^ 8 = unat w" using u32_bound [of w] by simp
  then show ?thesis
    by (simp add: format_08x_def mask_value_hex hex_padded_no_comma hex_padded_value)
qed

lemma mask_push_value:
  "mask_value (mask_push cpu out w) = mask_value out * 2 ^ 32 + unat (mask_word cpu w)"
  by (simp add: mask_push_def mask_value_def mask_value_append mask_value_comma mask_value_word)

lemma mask_low_words:
  "n \<le> cpu div 32 \<Longrightarrow> mask_value (foldl (mask_push cpu) out (rev [0..<n])) = mask_value out * 2 ^ (32 * n)"
proof (induction n arbitrary: out)
  case (Suc n)
  then have "mask_word cpu n = 0" by (simp add: mask_word_def)
  with Suc show ?case by (simp add: mask_push_value power_add)
qed simp

lemma unat_one_shift: "n < 32 \<Longrightarrow> unat (2 ^ n :: u32) = 2 ^ n"
proof -
  assume "n < 32"
  then have "(2 :: nat) ^ n < 2 ^ 32" by (intro power_strict_increasing) simp_all
  moreover have "(2 ^ n :: u32) = of_nat (2 ^ n)" by simp
  ultimately show ?thesis by (simp only: unat_of_nat) simp
qed

section \<open>Narrowing\<close>

locale narrowing =
  fixes f :: "'a list \<Rightarrow> 'a list"
  assumes narrows: "mset (f xs) \<subseteq># mset xs"
begin

lemma within: "set (f xs) \<subseteq> set xs"
  using set_mset_mono [OF narrows [of xs]] by simp

lemma no_repeats:
  assumes "distinct (map g xs)"
  shows "distinct (map g (f xs))"
proof -
  have "mset (map g (f xs)) \<subseteq># mset (map g xs)"
    using image_mset_subseteq_mono [OF narrows [of xs]] by simp
  then have "count (mset (map g (f xs))) a \<le> 1" for a
    using assms by (metis distinct_count_atmost_1 dual_order.trans le_numeral_extra(4) mset_subset_eq_count zero_le_one)
  then show ?thesis
    by (metis count_mset_0_iff distinct_count_atmost_1 le_antisym less_one not_le)
qed

lemma no_longer: "length (f xs) \<le> length xs"
  using size_mset_mono [OF narrows [of xs]] by simp

end

lemma mset_filter_subseteq: "mset (filter P xs) \<subseteq># mset xs"
  by (simp add: mset_filter)

lemma retain_unseen_narrows: "mset (retain_unseen seen xs) \<subseteq># mset xs"
proof (induction seen xs rule: retain_unseen.induct)
  case (2 seen c cs)
  then show ?case by (auto intro: subset_mset.order_trans)
qed simp

lemma mset_drain_heads:
  "mset (List.map_filter (\<lambda>col. case col of [] \<Rightarrow> None | c # cs \<Rightarrow> Some c) cols) + mset (concat (map tl cols))
     = mset (concat cols)"
proof (induction cols)
  case (Cons col cols)
  then show ?case by (cases col) (simp_all add: map_filter_simps union_assoc [symmetric] add.left_commute)
qed (simp add: map_filter_simps)

lemma mset_drain_rounds: "mset (drain_rounds cols) = mset (concat cols)"
proof (induction cols rule: drain_rounds.induct)
  case (1 cols)
  let ?heads = "List.map_filter (\<lambda>col. case col of [] \<Rightarrow> None | c # cs \<Rightarrow> Some c) cols"
  show ?case
  proof (cases "?heads = []")
    case True
    then have "concat cols = []"
    proof (induction cols)
      case (Cons col cols)
      then show ?case by (cases col) (simp_all add: map_filter_simps)
    qed simp
    with True show ?thesis by (simp add: drain_rounds.simps [of cols])
  next
    case False
    with "1.IH" [OF refl False] mset_drain_heads [of cols] show ?thesis
      by (simp add: drain_rounds.simps [of cols] Let_def)
  qed
qed

lemma mset_partition:
  "distinct ks \<Longrightarrow>
   mset (concat (map (\<lambda>k. filter (\<lambda>c. g c = k) xs) ks)) = filter_mset (\<lambda>c. g c \<in> set ks) (mset xs)"
  by (induction ks) (auto simp: multiset_eq_iff)

lemma mset_package_groups: "mset (concat (package_groups s)) = mset s"
proof -
  have "filter_mset (\<lambda>c. package c \<in> package ` set s) (mset s) = mset s"
    by (simp add: filter_mset_eq_conv)
  then show ?thesis
    using mset_partition [of "sorted_list_of_set (package ` set s)" package s]
    by (simp add: package_groups_def)
qed

lemma mset_concat_cong: "list_all2 (\<lambda>x y. mset x = mset y) xs ys \<Longrightarrow> mset (concat xs) = mset (concat ys)"
  by (induction rule: list_all2_induct) simp_all

lemma mset_spread: "mset (spread s) = mset s"
proof -
  have "mset (concat (map (sort_key spread_key) (package_groups s))) = mset (concat (package_groups s))"
    by (rule mset_concat_cong) (simp add: list_all2_map1 list_all2_refl)
  then show ?thesis by (simp add: spread_def mset_drain_rounds mset_package_groups)
qed

interpretation physical_only: narrowing physical_only
  by unfold_locales (simp add: physical_only_def retain_unseen_narrows)

interpretation on_numa_node: narrowing "on_numa_node n" for n
  by unfold_locales (simp add: on_numa_node_def mset_filter_subseteq)

interpretation on_package: narrowing "on_package n" for n
  by unfold_locales (simp add: on_package_def mset_filter_subseteq)

interpretation filter_cores: narrowing "filter_cores P" for P
  by unfold_locales (simp add: filter_cores_def mset_filter_subseteq)

interpretation spread: narrowing spread
  by unfold_locales (simp add: mset_spread)

interpretation pack: narrowing pack
  by unfold_locales (simp add: pack_def)

interpretation take_cores: narrowing "take_cores n" for n
  by unfold_locales (metis append_take_drop_id mset_append mset_subset_eq_add_left take_cores_def)

section \<open>One thread per physical core\<close>

lemma retain_unseen_keys: "phys ` set (retain_unseen seen s) = phys ` set s - set seen"
  by (induction seen s rule: retain_unseen.induct) auto

lemma retain_unseen_distinct: "distinct (map phys (retain_unseen seen s))"
proof (induction seen s rule: retain_unseen.induct)
  case (2 seen c cs)
  have "phys c \<notin> phys ` set (retain_unseen (phys c # seen) cs)"
    unfolding retain_unseen_keys by simp
  with 2 show ?case by auto
qed simp

lemma retain_unseen_lowest:
  "sorted (map ci_id s) \<Longrightarrow> c \<in> set s \<Longrightarrow> phys c \<notin> set seen \<Longrightarrow>
   \<exists>c' \<in> set (retain_unseen seen s). phys c' = phys c \<and> ci_id c' \<le> ci_id c"
proof (induction seen s rule: retain_unseen.induct)
  case (2 seen d cs)
  show ?case
  proof (cases "phys d = phys c")
    case True
    with 2 show ?thesis by auto
  next
    case False
    with 2 show ?thesis by (cases "phys d \<in> set seen") auto
  qed
qed simp

section \<open>Rounds of a spread\<close>

lemma drain_first_round:
  assumes "\<forall>col \<in> set cols. col \<noteq> []"
  shows "drain_rounds cols = map hd cols @ drain_rounds (map tl cols)"
proof -
  have "List.map_filter (\<lambda>col. case col of [] \<Rightarrow> None | c # cs \<Rightarrow> Some c) cols = map hd cols"
    using assms by (induction cols) (auto simp: map_filter_simps neq_Nil_conv)
  moreover have "drain_rounds [] = []" by (simp add: drain_rounds.simps map_filter_simps)
  ultimately show ?thesis by (simp add: drain_rounds.simps [of cols] Let_def)
qed

lemma spread_first_round:
  "map package (take (card (package ` set s)) (spread s)) = sorted_list_of_set (package ` set s)"
proof -
  let ?pks = "sorted_list_of_set (package ` set s)"
  let ?col = "\<lambda>pk. sort_key spread_key (filter (\<lambda>c. package c = pk) s)"
  have cols: "map (sort_key spread_key) (package_groups s) = map ?col ?pks"
    by (simp add: package_groups_def)
  have ne: "?col pk \<noteq> [] \<and> package (hd (?col pk)) = pk" if "pk \<in> set ?pks" for pk
  proof -
    have "filter (\<lambda>c. package c = pk) s \<noteq> []" using that by (auto simp: filter_empty_conv)
    then have "?col pk \<noteq> []" by (metis length_0_conv length_sort)
    moreover from this have "hd (?col pk) \<in> set (?col pk)" by (rule hd_in_set)
    ultimately show ?thesis by simp
  qed
  have "spread s = map hd (map ?col ?pks) @ drain_rounds (map tl (map ?col ?pks))"
    unfolding spread_def cols by (rule drain_first_round) (use ne in auto)
  moreover have "map package (map hd (map ?col ?pks)) = ?pks"
    unfolding map_map by (rule map_idI) (use ne in simp)
  moreover have "length ?pks = card (package ` set s)" by simp
  ultimately show ?thesis by (simp del: sorted_list_of_set.length_sorted_key_list_of_set)
qed

section \<open>Chains of methods\<close>

datatype core_op =
    PhysicalOnly
  | OnNumaNode nat
  | OnPackage nat
  | FilterBy "core_info \<Rightarrow> bool"
  | Spread
  | Pack
  | TakeCores nat

fun apply_op :: "core_op \<Rightarrow> core_set \<Rightarrow> core_set" where
  "apply_op PhysicalOnly s = physical_only s"
| "apply_op (OnNumaNode n) s = on_numa_node n s"
| "apply_op (OnPackage n) s = on_package n s"
| "apply_op (FilterBy P) s = filter_cores P s"
| "apply_op Spread s = spread s"
| "apply_op Pack s = pack s"
| "apply_op (TakeCores n) s = take_cores n s"

interpretation apply_op: narrowing "apply_op opn" for opn
  by unfold_locales
    (cases opn; simp add: physical_only.narrows on_numa_node.narrows on_package.narrows
      filter_cores.narrows spread.narrows pack.narrows take_cores.narrows)

interpretation chain: narrowing "fold apply_op ops" for ops
proof unfold_locales
  show "mset (fold apply_op ops xs) \<subseteq># mset xs" for xs
    by (induction ops arbitrary: xs) (auto intro: subset_mset.order_trans [OF _ apply_op.narrows])
qed

lemma permitted_ids: "map ci_id (permitted ids rf rd) = map cid (cores ids)"
  by (simp add: permitted_def topology_for_def Let_def comp_def)

lemma cores_strict: "sorted_wrt (<) (map cid (cores ids))"
  by (simp add: cores_def dedup_by_key_strict)

lemma cores_set: "cid ` set (cores ids) = cid ` set (unwrap_or ids [])"
  by (simp add: cores_def dedup_by_key_keys unwrap_or_def split: option.split)

section \<open>Properties\<close>

text \<open>
  \<open>cores\<close> lists exactly the ids the affinity mask holds, in increasing order and each once,
  whatever order and repetition the operating system reports them in.
\<close>

theorem cores_sorted_dedup:
  "sorted_wrt (<) (map cid (cores ids)) \<and> set (map cid (cores ids)) = set (map cid (unwrap_or ids []))"
  using cores_strict cores_set by simp

text \<open>
  The mask of cpu \<open>n\<close>, read as the kernel reads it, is the number with bit \<open>n\<close> set and no
  other.
\<close>

theorem affinity_mask_names_cpu: "mask_value (affinity_mask cpu) = 2 ^ cpu"
proof -
  let ?n = "cpu div 32"
  have top: "mask_value (mask_push cpu [] ?n) = 2 ^ (cpu mod 32)"
    by (simp only: mask_push_value) (simp add: mask_word_def unat_one_shift mask_value_def mask_value_from_def)
  have "affinity_mask cpu = foldl (mask_push cpu) (mask_push cpu [] ?n) (rev [0..<?n])"
    by (simp add: affinity_mask_def)
  then have "mask_value (affinity_mask cpu) = 2 ^ (cpu mod 32) * 2 ^ (32 * ?n)"
    using mask_low_words [of ?n cpu "mask_push cpu [] ?n"] top by simp
  also have "\<dots> = 2 ^ cpu" by (simp add: power_add [symmetric])
  finally show ?thesis .
qed

text \<open>
  C29: Whatever chain of \<open>CoreSet\<close> methods is applied to the permitted cores, the result names
  only cores of the affinity mask, and none twice.
\<close>

theorem selection_within_mask:
  "set (core_ids (fold apply_op ops (permitted ids rf rd))) \<subseteq> set (unwrap_or ids [])
   \<and> distinct (core_ids (fold apply_op ops (permitted ids rf rd)))"
proof -
  let ?s = "permitted ids rf rd"
  have "distinct (map ci_id ?s)"
    using cores_strict [of ids] by (simp add: permitted_ids strict_sorted_iff)
  then have "distinct (map info_core_id ?s)"
    by (simp add: distinct_map inj_on_def info_core_id_def)
  then have "distinct (core_ids (fold apply_op ops ?s))"
    unfolding core_ids_def by (rule chain.no_repeats)
  moreover have "ci_id ` set (fold apply_op ops ?s) \<subseteq> cid ` set (unwrap_or ids [])"
    using chain.within [of ops ?s] arg_cong [OF permitted_ids [of ids rf rd], of set] cores_set [of ids] by auto
  moreover have "\<lparr>cid = i\<rparr> \<in> set (unwrap_or ids [])" if "i \<in> cid ` set (unwrap_or ids [])" for i
  proof -
    from that obtain c where c: "c \<in> set (unwrap_or ids [])" "i = cid c" by blast
    have eq: "\<lparr>cid = i\<rparr> = c" by (simp add: c(2))
    show ?thesis unfolding eq by (rule c(1))
  qed
  ultimately show ?thesis by (auto simp: core_ids_def info_core_id_def)
qed

text \<open>
  \<open>physical_only\<close> keeps one cpu of each physical core that was in the set, and on a set in
  id order, as \<open>permitted\<close> gives it, that is the lowest-numbered one.
\<close>

theorem physical_only_one_per_core:
  "distinct (map phys (physical_only s)) \<and> set (map phys (physical_only s)) = set (map phys s)
   \<and> (sorted (map ci_id s) \<longrightarrow> (\<forall>c \<in> set s. \<exists>c' \<in> set (physical_only s). phys c' = phys c \<and> ci_id c' \<le> ci_id c))"
  unfolding physical_only_def
  using retain_unseen_distinct [of "[]" s] retain_unseen_keys [of "[]" s] retain_unseen_lowest [of s _ "[]"]
  by simp

definition smt_pair :: core_set where
  "smt_pair =
     [\<lparr>ci_id = 0, core = 0, package = 0, numa_node = 0\<rparr>, \<lparr>ci_id = 1, core = 1, package = 0, numa_node = 0\<rparr>,
      \<lparr>ci_id = 4, core = 0, package = 0, numa_node = 0\<rparr>, \<lparr>ci_id = 5, core = 1, package = 0, numa_node = 0\<rparr>]"

theorem physical_only_one_per_core_witness:
  "distinct (map phys (physical_only smt_pair))
   \<and> (\<exists>c. c \<in> set (physical_only smt_pair) \<and> phys c = (0, 1) \<and> ci_id c \<le> 5)"
proof -
  let ?c = "\<lparr>ci_id = 5, core = 1, package = 0, numa_node = 0\<rparr>"
  have s: "sorted (map ci_id smt_pair)" "?c \<in> set smt_pair" by (simp_all add: smt_pair_def)
  then obtain c where "c \<in> set (physical_only smt_pair)" "phys c = phys ?c" "ci_id c \<le> ci_id ?c"
    using physical_only_one_per_core [of smt_pair] by blast
  then show ?thesis using physical_only_one_per_core [of smt_pair] by (auto simp: phys_def)
qed

text \<open>
  \<open>spread\<close> keeps every core, and its first picks are one from each package: the first \<open>p\<close>
  cores of a set on \<open>p\<close> packages are on \<open>p\<close> different packages.
\<close>

theorem spread_alternates_packages:
  "mset (spread s) = mset s
   \<and> map package (take (card (package ` set s)) (spread s)) = sorted_list_of_set (package ` set s)"
  by (simp add: mset_spread spread_first_round)

text \<open>
  Within one package \<open>spread\<close> does not put SMT siblings last: on two dual-threaded cores it
  takes both threads of the first core before it takes the second core at all, which is the order
  \<open>pack\<close> gives.
\<close>

theorem spread_keeps_siblings_together:
  "map ci_id (spread smt_pair) = [0, 4, 1, 5] \<and> spread smt_pair = pack smt_pair"
  by (simp add: smt_pair_def spread_def package_groups_def spread_key_def pack_def pack_key_def
      drain_rounds.simps map_filter_simps insort_key_def)

text \<open>
  On a host that exposes no topology every core is its own physical core, so
  \<open>physical_only\<close> leaves the permitted set as it is.
\<close>

theorem no_topology_physical_only:
  "physical_only (permitted ids (\<lambda>path. None) (\<lambda>dir. None)) = permitted ids (\<lambda>path. None) (\<lambda>dir. None)"
proof -
  have id: "retain_unseen seen s = s" if "distinct (map phys s)" and "phys ` set s \<inter> set seen = {}" for seen s
    using that by (induction seen s rule: retain_unseen.induct) auto
  have "map phys (permitted ids (\<lambda>path. None) (\<lambda>dir. None)) = map (Pair 0) (map cid (cores ids))"
    by (simp add: permitted_def topology_for_def Let_def phys_def read_sysfs_usize_def unwrap_or_def)
  then have "distinct (map phys (permitted ids (\<lambda>path. None) (\<lambda>dir. None)))"
    using cores_strict [of ids] by (auto simp: distinct_map inj_on_def strict_sorted_iff)
  then show ?thesis unfolding physical_only_def by (intro id) simp_all
qed

text \<open>Off Linux the cores look as they do on Linux with nothing to read under sysfs.\<close>

lemma topology_without_sysfs: "topology_for (\<lambda>path. None) (\<lambda>dir. None) ids = topology_elsewhere ids"
  by (simp add: topology_for_def topology_elsewhere_def read_sysfs_usize_def numa_node_of_def unwrap_or_def Let_def)

end
