(* ===== verification/Workers.thy ===== *)
theory Workers
  imports Cpu
begin

text \<open>
  \<open>src/src/workers.rs\<close>: one pinned thread per core. The operating system and the runtime are
  parameters: whether the \<open>n\<close>-th \<open>thread::Builder::spawn\<close> fails, whether a pin is accepted,
  whether a runtime can be built, and what \<open>block_on\<close> returns. A thread's outcome is its result or
  a panic; a handle is the thread's name and that outcome.
\<close>

section \<open>Spawning\<close>

record worker_ctx =
  w_index :: nat
  w_core :: core_id
  w_pinned :: bool

record 'p per_core =
  pc_cores :: "core_id list"
  pc_name :: string
  pc_proactor :: "'p option"

datatype 't outcome = Returned 't | Panicked

record 't handle =
  hd_name :: string
  hd_outcome :: "'t outcome"

datatype 'e spawn_error = NoCores | SpawnFailed 'e

definition per_core_new :: "core_id list \<Rightarrow> 'p per_core" where
  "per_core_new cs = \<lparr>pc_cores = cs, pc_name = ''worker'', pc_proactor = None\<rparr>"

definition set_name :: "string \<Rightarrow> 'p per_core \<Rightarrow> 'p per_core" where
  "set_name nm pc = pc\<lparr>pc_name := nm\<rparr>"

definition set_proactor :: "'p \<Rightarrow> 'p per_core \<Rightarrow> 'p per_core" where
  "set_proactor p pc = pc\<lparr>pc_proactor := Some p\<rparr>"

definition worker_name :: "string \<Rightarrow> nat \<Rightarrow> string" where
  "worker_name nm i = nm @ ''/'' @ show_nat i"

text \<open>The thread's closure: pin first, then the body.\<close>

definition worker_main ::
  "(core_id \<Rightarrow> bool) \<Rightarrow> (worker_ctx \<Rightarrow> 't outcome) \<Rightarrow> nat \<Rightarrow> core_id \<Rightarrow> 't outcome" where
  "worker_main pin_current body i c =
     (let pinned = pin_current c in body \<lparr>w_index = i, w_core = c, w_pinned = pinned\<rparr>)"

text \<open>
  The loop over the cores. A failed spawn returns its error and drops the handles of the threads
  already started, which detaches them; they are the second component.
\<close>

fun spawn_loop ::
  "(nat \<Rightarrow> 'e option) \<Rightarrow> (core_id \<Rightarrow> bool) \<Rightarrow> (worker_ctx \<Rightarrow> 't outcome) \<Rightarrow> string \<Rightarrow> nat \<Rightarrow> core_id list
   \<Rightarrow> 't handle list \<Rightarrow> ('e spawn_error \<times> 't handle list) + 't handle list" where
  "spawn_loop spawn pin body nm i [] handles = Inr handles"
| "spawn_loop spawn pin body nm i (c # cs) handles =
     (case spawn i of
        Some e \<Rightarrow> Inl (SpawnFailed e, handles)
      | None \<Rightarrow>
          spawn_loop spawn pin body nm (i + 1) cs
            (handles @ [\<lparr>hd_name = worker_name nm i, hd_outcome = worker_main pin body i c\<rparr>]))"

definition spawn_each ::
  "(nat \<Rightarrow> 'e option) \<Rightarrow> (core_id \<Rightarrow> bool) \<Rightarrow> 'p per_core \<Rightarrow> (worker_ctx \<Rightarrow> 't outcome)
   \<Rightarrow> ('e spawn_error \<times> 't handle list) + 't handle list" where
  "spawn_each spawn pin pc body =
     (if pc_cores pc = [] then Inl (NoCores, [])
      else spawn_loop spawn pin body (pc_name pc) 0 (pc_cores pc) [])"

text \<open>The default runtime, or one with the proactor handed over; failing to build it panics.\<close>

definition block_on_each ::
  "(nat \<Rightarrow> 'e option) \<Rightarrow> (core_id \<Rightarrow> bool) \<Rightarrow> ('p option \<Rightarrow> nat \<Rightarrow> 'rt option) \<Rightarrow> ('rt \<Rightarrow> 'fut \<Rightarrow> 't outcome)
   \<Rightarrow> 'p per_core \<Rightarrow> (worker_ctx \<Rightarrow> 'fut) \<Rightarrow> ('e spawn_error \<times> 't handle list) + 't handle list" where
  "block_on_each spawn pin build_runtime block_on pc body =
     spawn_each spawn pin pc
       (\<lambda>ctx. case build_runtime (pc_proactor pc) (w_index ctx) of
                None \<Rightarrow> Panicked
              | Some rt \<Rightarrow> block_on rt (body ctx))"

definition workers_len :: "'t handle list \<Rightarrow> nat" where
  "workers_len ws = length ws"

definition workers_join :: "'t handle list \<Rightarrow> 't outcome list" where
  "workers_join ws = map hd_outcome ws"

section \<open>The loop as a list\<close>

definition workers_upto ::
  "(core_id \<Rightarrow> bool) \<Rightarrow> (worker_ctx \<Rightarrow> 't outcome) \<Rightarrow> string \<Rightarrow> nat \<Rightarrow> core_id list \<Rightarrow> 't handle list" where
  "workers_upto pin body nm i cs =
     map (\<lambda>(j, c). \<lparr>hd_name = worker_name nm j, hd_outcome = worker_main pin body j c\<rparr>)
       (enumerate i cs)"

lemma spawn_loop_ok:
  "spawn_loop spawn pin body nm i cs handles = Inr ws \<longleftrightarrow>
   (\<forall>j < length cs. spawn (i + j) = None) \<and> ws = handles @ workers_upto pin body nm i cs"
proof (induction spawn pin body nm i cs handles rule: spawn_loop.induct)
  case (2 spawn pin body nm i c cs handles)
  have "(\<forall>j < Suc (length cs). spawn (i + j) = None) \<longleftrightarrow>
      spawn i = None \<and> (\<forall>j < length cs. spawn (i + 1 + j) = None)"
    by (auto simp: less_Suc_eq_0_disj)
  then show ?case using "2.IH" by (auto simp: workers_upto_def split: option.split)
qed (auto simp: workers_upto_def)

lemma handles_eqI:
  "map hd_name xs = map hd_name ys \<Longrightarrow> map hd_outcome xs = map hd_outcome ys \<Longrightarrow> xs = (ys :: 't handle list)"
proof (induction xs arbitrary: ys)
  case (Cons x xs)
  then show ?case by (cases ys) (auto intro: handle.equality)
qed simp

lemma spawn_loop_failed:
  "spawn_loop spawn pin body nm i cs handles = Inl (e, ws) \<Longrightarrow>
   \<exists>n err. n < length cs \<and> spawn (i + n) = Some err \<and> e = SpawnFailed err \<and>
     (\<forall>j < n. spawn (i + j) = None) \<and> ws = handles @ workers_upto pin body nm i (take n cs)"
proof (induction spawn pin body nm i cs handles rule: spawn_loop.induct)
  case (2 spawn pin body nm i c cs handles)
  show ?case
  proof (cases "spawn i")
    case (Some err)
    with "2.prems" show ?thesis
      by (intro exI [of _ 0] exI [of _ err]) (auto simp: workers_upto_def)
  next
    case None
    with 2 obtain n err where n: "n < length cs" "spawn (i + 1 + n) = Some err" "e = SpawnFailed err"
      "\<forall>j < n. spawn (i + 1 + j) = None"
      "ws = (handles @ [\<lparr>hd_name = worker_name nm i, hd_outcome = worker_main pin body i c\<rparr>])
        @ workers_upto pin body nm (i + 1) (take n cs)"
      by auto
    have "\<forall>j < Suc n. spawn (i + j) = None" using n(4) None by (auto simp: less_Suc_eq_0_disj)
    with n show ?thesis
      by (intro exI [of _ "Suc n"] exI [of _ err]) (simp add: workers_upto_def)
  qed
qed simp

section \<open>Properties\<close>

text \<open>
  \<open>spawn_each\<close> comes back with workers exactly when there is a core and every spawn succeeds.
  Then there is one worker per core, in the order given: worker \<open>i\<close> is named \<open>prefix/i\<close>, was
  pinned before its body ran, and \<open>join\<close> returns its outcome at position \<open>i\<close>.
\<close>

theorem spawn_each_one_per_core:
  "spawn_each spawn pin pc body = Inr ws \<longleftrightarrow>
     pc_cores pc \<noteq> [] \<and> (\<forall>i < length (pc_cores pc). spawn i = None) \<and>
     map hd_name ws = map (worker_name (pc_name pc)) [0..<length (pc_cores pc)] \<and>
     workers_join ws = map (\<lambda>i. worker_main pin body i (pc_cores pc ! i)) [0..<length (pc_cores pc)]"
proof -
  let ?ws = "workers_upto pin body (pc_name pc) 0 (pc_cores pc)"
  have en: "enumerate 0 (pc_cores pc) = map (\<lambda>i. (i, pc_cores pc ! i)) [0..<length (pc_cores pc)]"
    by (rule nth_equalityI) (simp_all add: nth_enumerate_eq)
  have names: "map hd_name ?ws = map (worker_name (pc_name pc)) [0..<length (pc_cores pc)]"
    and outs: "map hd_outcome ?ws = map (\<lambda>i. worker_main pin body i (pc_cores pc ! i)) [0..<length (pc_cores pc)]"
    by (simp_all add: workers_upto_def en comp_def)
  have "ws = ?ws \<longleftrightarrow> map hd_name ws = map hd_name ?ws \<and> map hd_outcome ws = map hd_outcome ?ws"
    using handles_eqI [of ws ?ws] by blast
  then have ws: "ws = ?ws \<longleftrightarrow>
      map hd_name ws = map (worker_name (pc_name pc)) [0..<length (pc_cores pc)] \<and>
      workers_join ws = map (\<lambda>i. worker_main pin body i (pc_cores pc ! i)) [0..<length (pc_cores pc)]"
    unfolding names outs workers_join_def .
  show ?thesis unfolding ws [symmetric] by (simp add: spawn_each_def spawn_loop_ok)
qed

definition three_cores :: "unit per_core" where
  "three_cores = per_core_new [\<lparr>cid = 0\<rparr>, \<lparr>cid = 1\<rparr>, \<lparr>cid = 2\<rparr>]"

theorem spawn_each_one_per_core_witness:
  "\<exists>ws. spawn_each (\<lambda>n. None :: nat option) (\<lambda>c. True) three_cores (\<lambda>ctx. Returned (w_index ctx)) = Inr ws
     \<and> map hd_name ws = [''worker/0'', ''worker/1'', ''worker/2'']
     \<and> workers_join ws = [Returned 0, Returned 1, Returned 2]"
proof -
  have upt: "[0..<3] = [0, 1, 2 :: nat]" by (simp add: upt_rec)
  have len: "length (pc_cores three_cores) = 3" "pc_name three_cores = ''worker''" "pc_cores three_cores \<noteq> []"
    by (simp_all add: three_cores_def per_core_new_def)
  obtain ws where r: "spawn_each (\<lambda>n. None :: nat option) (\<lambda>c. True) three_cores (\<lambda>ctx. Returned (w_index ctx)) = Inr ws"
    by (simp add: spawn_each_def three_cores_def per_core_new_def)
  have names: "worker_name ''worker'' 0 = ''worker/0''" "worker_name ''worker'' 1 = ''worker/1''"
    "worker_name ''worker'' 2 = ''worker/2''"
    by code_simp+
  from iffD1 [OF spawn_each_one_per_core r] len upt r names show ?thesis
    by (simp add: worker_main_def Let_def)
qed

text \<open>
  An empty core list is refused before any thread starts; otherwise the error is that of the
  first spawn to fail, and exactly the workers before it were started.
\<close>

theorem spawn_each_errors:
  assumes "spawn_each spawn pin pc body = Inl (e, ws)"
  shows "(e = NoCores \<and> pc_cores pc = [] \<and> ws = []) \<or>
    (\<exists>n err. n < length (pc_cores pc) \<and> spawn n = Some err \<and> e = SpawnFailed err \<and>
       (\<forall>j < n. spawn j = None) \<and> length ws = n)"
  using assms spawn_loop_failed [of spawn pin body "pc_name pc" 0 "pc_cores pc" "[]" e ws]
  by (auto simp: spawn_each_def workers_upto_def split: if_splits)

definition third_fails :: "nat \<Rightarrow> nat option" where
  "third_fails n = (if n = 2 then Some 11 else None)"

theorem spawn_each_errors_witness:
  "\<exists>ws. spawn_each third_fails (\<lambda>c. True) three_cores (\<lambda>ctx. Returned (w_index ctx)) = Inl (SpawnFailed 11, ws)
     \<and> length ws = 2"
proof -
  obtain ws where r: "spawn_each third_fails (\<lambda>c. True) three_cores (\<lambda>ctx. Returned (w_index ctx)) = Inl (SpawnFailed 11, ws)"
    by (simp add: spawn_each_def three_cores_def per_core_new_def third_fails_def)
  from spawn_each_errors [OF r] have "length ws = 2"
    by (auto simp: third_fails_def split: if_splits)
  with r show ?thesis by blast
qed

text \<open>
  A runtime that fails to build takes down its own worker only: that worker's \<open>join\<close> is a
  panic, and every other worker's is what its future returned on its own runtime.
\<close>

theorem block_on_each_isolates_failure:
  assumes "block_on_each spawn pin build_runtime block_on pc body = Inr ws" and "i < length (pc_cores pc)"
  shows "workers_join ws ! i =
    (case build_runtime (pc_proactor pc) i of
       None \<Rightarrow> Panicked
     | Some rt \<Rightarrow> block_on rt (body \<lparr>w_index = i, w_core = pc_cores pc ! i, w_pinned = pin (pc_cores pc ! i)\<rparr>))"
  using assms
  by (auto simp: block_on_each_def spawn_each_def spawn_loop_ok workers_join_def workers_upto_def
      worker_main_def nth_enumerate_eq split: if_splits)

theorem block_on_each_isolates_failure_witness:
  "\<exists>ws. block_on_each (\<lambda>n. None :: nat option) (\<lambda>c. True) (\<lambda>p n. if n = 1 then None else Some n) (\<lambda>rt f. Returned (rt + f))
      three_cores (\<lambda>ctx. 10) = Inr ws
    \<and> workers_join ws ! 1 = Panicked \<and> workers_join ws ! 2 = Returned (12 :: nat)"
proof -
  let ?r = "block_on_each (\<lambda>n. None :: nat option) (\<lambda>c. True) (\<lambda>p n. if n = 1 then None else Some n)
    (\<lambda>rt f. Returned (rt + f)) three_cores (\<lambda>ctx. 10 :: nat)"
  have len: "length (pc_cores three_cores) = 3" by (simp add: three_cores_def per_core_new_def)
  obtain ws where r: "?r = Inr ws"
    by (simp add: block_on_each_def spawn_each_def three_cores_def per_core_new_def)
  from block_on_each_isolates_failure [OF r, of 1] block_on_each_isolates_failure [OF r, of 2] r len
  show ?thesis by auto
qed

end
