(* ===== verification/Streams.thy ===== *)
theory Streams
  imports Text "HOL-Library.Sublist"
begin

text \<open>
  What the servers and clients under \<open>src/examples\<close> share: a connection is a byte stream with a read
  buffer and a health flag (\<open>Framed\<close> of \<open>http_proxy.rs\<close>, \<open>Line\<close> of \<open>scatter_gather.rs\<close>). A stream
  is the script of what its reads return; bytes are characters, and the end of a script is the peer
  closing. The two locales state what reading one message at a time promises: no byte is lost, and
  messages that arrive whole are read back whatever the segments they arrive in.
\<close>

section \<open>Connections\<close>

datatype 'e io_error =
    InvalidData string
  | InvalidInput string
  | BrokenPipe string
  | UnexpectedEof string
  | Other string
  | Unsupported string
  | Os 'e

text \<open>What one \<open>read\<close> returns: some bytes, none (the peer closed) or an error.\<close>

datatype 'e chunk = Data string | ReadFailed 'e

record 'e framed =
  stream :: "'e chunk list"
  buf :: string
  healthy :: bool

definition framed_new :: "'e chunk list \<Rightarrow> 'e framed" where
  "framed_new s = \<lparr>stream = s, buf = [], healthy = True\<rparr>"

definition read_more :: "'e framed \<Rightarrow> ('e io_error + bool) \<times> 'e framed" where
  "read_more f =
     (case stream f of
        [] \<Rightarrow> (Inr False, f)
      | Data bs # rest \<Rightarrow>
          (Inr (bs \<noteq> []), f\<lparr>stream := rest, buf := buf f @ bs\<rparr>)
      | ReadFailed e # rest \<Rightarrow> (Inl (Os e), f\<lparr>stream := rest\<rparr>))"

definition CR :: char where "CR = CHR 0x0D"

definition LF :: char where "LF = CHR 0x0A"

lemma CR_LF [simp]: "CR \<noteq> LF" "LF \<noteq> CR"
  by (simp_all add: CR_def LF_def)

text \<open>Whether a literal character is a line ending is decided bit by bit.\<close>

lemma LF_Char [simp]:
  "LF = Char a b c d e f g h \<longleftrightarrow> \<not> a \<and> b \<and> \<not> c \<and> d \<and> \<not> e \<and> \<not> f \<and> \<not> g \<and> \<not> h"
  "Char a b c d e f g h = LF \<longleftrightarrow> \<not> a \<and> b \<and> \<not> c \<and> d \<and> \<not> e \<and> \<not> f \<and> \<not> g \<and> \<not> h"
  by (auto simp: LF_def)

lemma CR_Char [simp]:
  "CR = Char a b c d e f g h \<longleftrightarrow> a \<and> \<not> b \<and> c \<and> d \<and> \<not> e \<and> \<not> f \<and> \<not> g \<and> \<not> h"
  "Char a b c d e f g h = CR \<longleftrightarrow> a \<and> \<not> b \<and> c \<and> d \<and> \<not> e \<and> \<not> f \<and> \<not> g \<and> \<not> h"
  by (auto simp: CR_def)

lemma show_nat_no_LF [simp]: "LF \<notin> set (show_nat n)"
  using set_show_nat [of LF n] by (auto simp: char_digit_def LF_def)

lemma show_nat_no_CR [simp]: "CR \<notin> set (show_nat n)"
  using set_show_nat [of CR n] by (auto simp: char_digit_def CR_def)

lemma read_more_shrinks: "read_more f = (Inr True, f') \<Longrightarrow> length (stream f') < length (stream f)"
  by (auto simp: read_more_def split: list.splits chunk.splits)

section \<open>Lines\<close>

text \<open>What a buffered reader takes up to the next newline, included; at the end of the stream, the rest.\<close>

definition next_line :: "string \<Rightarrow> string \<times> string" where
  "next_line s =
     (case dropWhile (\<lambda>c. c \<noteq> LF) s of
        c # cs \<Rightarrow> (takeWhile (\<lambda>c. c \<noteq> LF) s @ [c], cs)
      | [] \<Rightarrow> (s, []))"

definition one_line :: "string \<Rightarrow> bool" where
  "one_line s = (s \<noteq> [] \<and> last s = LF \<and> LF \<notin> set (butlast s))"

lemma one_line_snoc [simp]: "one_line (s @ [LF]) \<longleftrightarrow> LF \<notin> set s"
  by (simp add: one_line_def)

lemma next_line_line: "one_line line \<Longrightarrow> next_line (line @ rest) = (line, rest)"
proof -
  assume "one_line line"
  then obtain body where body: "line = body @ [LF]" "LF \<notin> set body"
    by (metis append_butlast_last_id one_line_def)
  then have "takeWhile (\<lambda>c. c \<noteq> LF) (line @ rest) = body" "dropWhile (\<lambda>c. c \<noteq> LF) (line @ rest) = LF # rest"
    by (simp_all add: takeWhile_append dropWhile_append)
  then show ?thesis using body by (simp add: next_line_def)
qed

section \<open>Bytes are conserved\<close>

text \<open>What a stream would still deliver if read to its end.\<close>

fun pending :: "'e chunk list \<Rightarrow> string" where
  "pending [] = []"
| "pending (Data bs # rest) = bs @ pending rest"
| "pending (ReadFailed e # rest) = pending rest"

definition unread :: "'e framed \<Rightarrow> string" where
  "unread f = buf f @ pending (stream f)"

lemma read_more_unread: "read_more f = (r, f') \<Longrightarrow> unread f' = unread f \<and> healthy f' = healthy f"
  by (auto simp: read_more_def unread_def split: list.splits chunk.splits)

lemma framed_new_simps [simp]:
  "stream (framed_new s) = s" "buf (framed_new s) = []" "healthy (framed_new s)"
  by (simp_all add: framed_new_def)

lemma unread_new [simp]: "unread (framed_new s) = pending s"
  by (simp add: unread_def framed_new_def)

lemma take_unread: "n \<le> length (buf f) \<Longrightarrow> take n (buf f) = take n (unread f)"
  by (simp add: unread_def)

lemma drop_unread: "n \<le> length (buf f) \<Longrightarrow> unread (f\<lparr>buf := drop n (buf f)\<rparr>) = drop n (unread f)"
  by (simp add: unread_def)

text \<open>A peer that only sends: every read returns at least one byte until the stream ends.\<close>

definition segments :: "'e framed \<Rightarrow> bool" where
  "segments f = list_all (\<lambda>c. case c of Data bs \<Rightarrow> bs \<noteq> [] | ReadFailed e \<Rightarrow> False) (stream f)"

lemma segments_buf [simp]: "segments (f\<lparr>buf := b\<rparr>) = segments f"
  by (simp add: segments_def)

lemma read_more_segments:
  assumes "segments f" and "stream f \<noteq> []"
  shows "\<exists>f'. read_more f = (Inr True, f') \<and> segments f' \<and> unread f' = unread f \<and> length (buf f) < length (buf f')"
  using assms by (cases "stream f") (auto simp: segments_def read_more_def unread_def split: chunk.splits)

lemma stream_not_empty: "length (buf f) < length (unread f) \<Longrightarrow> stream f \<noteq> []"
  by (auto simp: unread_def)

section \<open>Readers of messages\<close>

text \<open>A client that takes up to \<open>n\<close> messages, one after the other, and stops at the first failure.\<close>

fun read_msgs :: "('e framed \<Rightarrow> ('e io_error + 'm option) \<times> 'e framed) \<Rightarrow> nat \<Rightarrow> 'e framed \<Rightarrow> 'm list \<times> 'e framed" where
  "read_msgs read 0 f = ([], f)"
| "read_msgs read (Suc n) f =
     (case read f of
        (Inr (Some m), f1) \<Rightarrow> (let (ms, f2) = read_msgs read n f1 in (m # ms, f2))
      | (_, f1) \<Rightarrow> ([], f1))"

locale message_reader =
  fixes read_msg :: "'e framed \<Rightarrow> ('e io_error + 'm option) \<times> 'e framed"
    and frames :: "string \<Rightarrow> 'm \<Rightarrow> bool"
  assumes read_Some: "read_msg f = (Inr (Some m), f') \<Longrightarrow> \<exists>raw. frames raw m \<and> unread f = raw @ unread f'"
    and read_none: "read_msg f = (r, f') \<Longrightarrow> \<forall>m. r \<noteq> Inr (Some m) \<Longrightarrow> unread f' = unread f"
    and read_healthy: "read_msg f = (r, f') \<Longrightarrow> healthy f' = healthy f"
begin

lemma reads_conserve:
  "read_msgs read_msg n f = (ms, f') \<Longrightarrow>
   \<exists>raws. list_all2 frames raws ms \<and> unread f = concat raws @ unread f' \<and> healthy f' = healthy f"
proof (induction n arbitrary: f ms f')
  case (Suc n)
  obtain r f1 where r: "read_msg f = (r, f1)" by (cases "read_msg f")
  show ?case
  proof (cases "\<exists>m. r = Inr (Some m)")
    case True
    then obtain m where m: "r = Inr (Some m)" by blast
    obtain raw where raw: "frames raw m" "unread f = raw @ unread f1" using read_Some r m by blast
    obtain ms1 where ms1: "read_msgs read_msg n f1 = (ms1, f')" "ms = m # ms1"
      using Suc.prems r m by (auto split: prod.splits)
    from Suc.IH [OF ms1(1)] obtain raws where "list_all2 frames raws ms1"
      "unread f1 = concat raws @ unread f'" "healthy f' = healthy f1" by blast
    then show ?thesis using raw ms1(2) read_healthy [OF r] by (intro exI [of _ "raw # raws"]) simp
  next
    case False
    then have "ms = []" "f' = f1" using Suc.prems r by (auto split: sum.splits option.splits)
    then show ?thesis
      using read_none [OF r] read_healthy [OF r] False by (intro exI [of _ "[]"]) simp
  qed
qed simp

end

text \<open>A reader that also takes in whatever its encoder wrote, however it was cut up on the way.\<close>

locale message_codec = message_reader read_msg frames
  for read_msg :: "'e framed \<Rightarrow> ('e io_error + 'm option) \<times> 'e framed" and frames :: "string \<Rightarrow> 'm \<Rightarrow> bool" +
  fixes encode :: "'m \<Rightarrow> string" and sendable :: "'m \<Rightarrow> bool"
  assumes delivers: "segments f \<Longrightarrow> sendable m \<Longrightarrow> unread f = encode m @ rest \<Longrightarrow>
      \<exists>f'. read_msg f = (Inr (Some m), f') \<and> segments f' \<and> unread f' = rest"
begin

lemma reads_back:
  "segments f \<Longrightarrow> list_all sendable ms \<Longrightarrow> unread f = concat (map encode ms) @ rest \<Longrightarrow>
   \<exists>f'. read_msgs read_msg (length ms) f = (ms, f') \<and> segments f' \<and> unread f' = rest \<and> healthy f' = healthy f"
proof (induction ms arbitrary: f)
  case (Cons m ms)
  then obtain f1 where f1: "read_msg f = (Inr (Some m), f1)" "segments f1"
    "unread f1 = concat (map encode ms) @ rest" using delivers [of f m] by auto
  with Cons show ?case using read_healthy [OF f1(1)] Cons.IH [of f1] by force
qed simp

end

end
