(* ===== verification/Http_Proxy.thy ===== *)
theory Http_Proxy
  imports Streams
begin

text \<open>
  \<open>src/examples/http_proxy.rs\<close>: a reverse proxy that frames HTTP messages and pools its upstream
  connections. Heads are ASCII, on which \<open>from_utf8_lossy\<close> is the identity; an error
  of the operating system, \<open>Os e\<close>, is one of a kind other than \<open>InvalidData\<close>.

  The point of the framing rules is that an upstream is handed from one client to the next, so no
  byte of one exchange may be left on it: a returned upstream is either clean or flagged broken.
\<close>

section \<open>Framing\<close>

datatype kind = Request | Response

definition bad :: "string \<Rightarrow> 'e io_error" where
  "bad why = InvalidData why"

definition crlf :: string where
  "crlf = [CR, LF]"

definition max_head :: nat where
  "max_head = 64 * 1024"

definition max_body :: nat where
  "max_body = 16 * 1024 * 1024"

text \<open>\<open>windows(needle.len()).position(..)\<close>.\<close>

fun position_from :: "nat \<Rightarrow> string \<Rightarrow> string \<Rightarrow> nat option" where
  "position_from i [] needle = None"
| "position_from i (c # cs) needle =
     (if length (c # cs) < length needle then None
      else if take (length needle) (c # cs) = needle then Some i
      else position_from (Suc i) cs needle)"

definition find_bytes :: "string \<Rightarrow> string \<Rightarrow> nat option" where
  "find_bytes hay needle =
     (if needle = [] \<or> length hay < length needle then None else position_from 0 hay needle)"

section \<open>The announced length\<close>

definition lower_char :: "char \<Rightarrow> char" where
  "lower_char c = (let n = of_char c :: nat in if 65 \<le> n \<and> n \<le> 90 then char_of (n + 32) else c)"

definition to_ascii_lowercase :: "string \<Rightarrow> string" where
  "to_ascii_lowercase s = map lower_char s"

text \<open>\<open>split("\r\n")\<close>.\<close>

fun split_crlf_from :: "string \<Rightarrow> string \<Rightarrow> string list" where
  "split_crlf_from acc (a # b # cs) =
     (if a = CR \<and> b = LF then acc # split_crlf_from [] cs else split_crlf_from (acc @ [a]) (b # cs))"
| "split_crlf_from acc [a] = [acc @ [a]]"
| "split_crlf_from acc [] = [acc]"

definition split_crlf :: "string \<Rightarrow> string list" where
  "split_crlf s = split_crlf_from [] s"

fun split_once :: "char \<Rightarrow> string \<Rightarrow> (string \<times> string) option" where
  "split_once d [] = None"
| "split_once d (c # cs) =
     (if c = d then Some ([], cs) else map_option (\<lambda>(a, b). (c # a, b)) (split_once d cs))"

definition transfer_encoding :: string where
  "transfer_encoding = ''transfer-encoding''"

definition content_length :: string where
  "content_length = ''content-length''"

text \<open>The \<open>for line in lines\<close> loop, with the length seen so far.\<close>

fun scan_headers :: "nat option \<Rightarrow> string list \<Rightarrow> string + nat option" where
  "scan_headers len [] = Inr len"
| "scan_headers len (line # lines) =
     (case split_once (CHR '':'') line of
        None \<Rightarrow> scan_headers len lines
      | Some (name, value) \<Rightarrow>
          if trim name = transfer_encoding then Inl ''transfer-encoding is not supported''
          else if trim name = content_length
          then (case parse_usize (trim value) of
                  None \<Rightarrow> Inl ''malformed content-length''
                | Some n \<Rightarrow>
                    if len \<noteq> None \<and> len \<noteq> Some n then Inl ''conflicting content-length headers''
                    else scan_headers (Some n) lines)
          else scan_headers len lines)"

definition status_of :: "string \<Rightarrow> string" where
  "status_of start_line =
     (case split_whitespace start_line of a # b # rest \<Rightarrow> b | _ \<Rightarrow> [])"

definition body_length :: "string \<Rightarrow> kind \<Rightarrow> 'e io_error + nat" where
  "body_length head k =
     (case split_crlf (to_ascii_lowercase head) of
        [] \<Rightarrow> Inr 0
      | start_line # lines \<Rightarrow>
          (case scan_headers None lines of
             Inl why \<Rightarrow> Inl (bad why)
           | Inr (Some n) \<Rightarrow> Inr n
           | Inr None \<Rightarrow>
               (case k of
                  Request \<Rightarrow> Inr 0
                | Response \<Rightarrow>
                    (let status = status_of start_line
                     in if (case status of c # cs \<Rightarrow> c = CHR ''1'' | [] \<Rightarrow> False) \<or> status = ''204'' \<or> status = ''304''
                        then Inr 0
                        else Inl (bad ''response without content-length cannot be framed'')))))"

section \<open>Reading a message\<close>

text \<open>The first loop of \<open>read_message\<close>: to the end of the head, or to the peer closing.\<close>

function read_head :: "'e framed \<Rightarrow> ('e io_error + nat option) \<times> 'e framed" where
  "read_head f =
     (case find_bytes (buf f) (crlf @ crlf) of
        Some pos \<Rightarrow> (Inr (Some (pos + 4)), f)
      | None \<Rightarrow>
          if length (buf f) \<ge> max_head then (Inl (bad ''header block too large''), f)
          else (case read_more f of
                  (Inl e, f') \<Rightarrow> (Inl e, f')
                | (Inr False, f') \<Rightarrow> (Inr None, f')
                | (Inr True, f') \<Rightarrow> read_head f'))"
  by pat_completeness auto

termination read_head
  by (relation "measure (\<lambda>f. length (stream f))") (auto dest: read_more_shrinks [OF sym])

declare read_head.simps [simp del]

text \<open>The second loop: until the whole body is in the buffer.\<close>

function read_body :: "nat \<Rightarrow> 'e framed \<Rightarrow> ('e io_error + bool) \<times> 'e framed" where
  "read_body sz f =
     (if length (buf f) < sz
      then (case read_more f of
              (Inl e, f') \<Rightarrow> (Inl e, f')
            | (Inr False, f') \<Rightarrow> (Inr False, f')
            | (Inr True, f') \<Rightarrow> read_body sz f')
      else (Inr True, f))"
  by pat_completeness auto

termination read_body
  by (relation "measure (\<lambda>(sz, f). length (stream f))") (auto dest: read_more_shrinks [OF sym])

declare read_body.simps [simp del]

definition read_message :: "kind \<Rightarrow> 'e framed \<Rightarrow> ('e io_error + string option) \<times> 'e framed" where
  "read_message k f =
     (case read_head f of
        (Inl e, f1) \<Rightarrow> (Inl e, f1)
      | (Inr None, f1) \<Rightarrow> (Inr None, f1)
      | (Inr (Some head_end), f1) \<Rightarrow>
          (case body_length (take head_end (buf f1)) k of
             Inl e \<Rightarrow> (Inl e, f1)
           | Inr body \<Rightarrow>
               if body > max_body then (Inl (bad ''body too large''), f1)
               else
                 (let sz = head_end + body
                  in case read_body sz f1 of
                       (Inl e, f2) \<Rightarrow> (Inl e, f2)
                     | (Inr False, f2) \<Rightarrow> (Inr None, f2)
                     | (Inr True, f2) \<Rightarrow>
                         (Inr (Some (take sz (buf f2))), f2\<lparr>buf := drop sz (buf f2)\<rparr>))))"

section \<open>The proxy\<close>

definition origin_is_valid :: "'e framed \<Rightarrow> 'e io_error option" where
  "origin_is_valid c = (if healthy c then None else Some (BrokenPipe ''upstream marked dead''))"

definition origin_has_broken :: "'e framed \<Rightarrow> bool \<times> 'e framed" where
  "origin_has_broken c = (\<not> healthy c, c)"

definition simple_response :: "string \<Rightarrow> string \<Rightarrow> string" where
  "simple_response status body =
     ''HTTP/1.1 '' @ status @ crlf @ ''content-length: '' @ show_nat (length body) @ crlf
     @ ''connection: close'' @ crlf @ crlf @ body"

definition bad_gateway :: "string \<Rightarrow> string" where
  "bad_gateway why = simple_response ''502 Bad Gateway'' (''502 Bad Gateway: '' @ why @ [LF])"

definition bad_request :: "string \<Rightarrow> string" where
  "bad_request why = simple_response ''400 Bad Request'' (''400 Bad Request: '' @ why @ [LF])"

text \<open>
  What the environment decides in one turn of the loop: the outcome of \<open>local.get()\<close>, and whether
  the writes to the upstream and to the client succeed.
\<close>

record 'e turn =
  lease :: "'e framed option"
  up_write_ok :: bool
  client_write_ok :: bool

datatype 'e action =
    Forwarded string
  | Released "'e framed"
  | Replied string

text \<open>One request on a leased upstream: the response, if any, and the upstream as it is dropped.\<close>

definition exchange :: "'e turn \<Rightarrow> string \<Rightarrow> 'e framed \<Rightarrow> string option \<times> 'e framed" where
  "exchange t request up =
     (case (if up_write_ok t then read_message Response up
            else (Inl (BrokenPipe ''upstream write failed''), up)) of
        (Inr (Some resp), up1) \<Rightarrow> (Some resp, if buf up1 \<noteq> [] then up1\<lparr>healthy := False\<rparr> else up1)
      | (_, up1) \<Rightarrow> (None, up1\<lparr>healthy := False\<rparr>))"

text \<open>The loop, one turn per request; it ends with the turns it was given.\<close>

fun handle_client :: "'e turn list \<Rightarrow> 'e framed \<Rightarrow> 'e action list" where
  "handle_client [] client = []"
| "handle_client (t # ts) client =
     (case read_message Request client of
        (Inr (Some request), client1) \<Rightarrow>
          (case lease t of
             None \<Rightarrow> [Replied (bad_gateway ''no upstream available'')]
           | Some up \<Rightarrow>
               (case exchange t request up of
                  (Some resp, up1) \<Rightarrow>
                    [Forwarded request, Released up1, Replied resp]
                    @ (if client_write_ok t then handle_client ts client1 else [])
                | (None, up1) \<Rightarrow>
                    [Forwarded request, Replied (bad_gateway ''upstream error''), Released up1]))
      | (Inr None, client1) \<Rightarrow> []
      | (Inl (InvalidData why), client1) \<Rightarrow> [Replied (bad_request why)]
      | (Inl e, client1) \<Rightarrow> [])"

section \<open>The built-in origin\<close>

definition origin_body :: "u64 \<Rightarrow> u64 \<Rightarrow> string" where
  "origin_body conn_id served =
     ''served by upstream connection #'' @ show_nat (unat conn_id) @ '', request #''
     @ show_nat (unat served) @ [LF]"

definition origin_response :: "u64 \<Rightarrow> u64 \<Rightarrow> string" where
  "origin_response conn_id served =
     (let body = origin_body conn_id served
      in ''HTTP/1.1 200 OK'' @ crlf
         @ ''content-type: text/plain'' @ crlf
         @ ''content-length: '' @ show_nat (length body) @ crlf
         @ ''x-upstream-conn: '' @ show_nat (unat conn_id) @ crlf
         @ ''x-upstream-reqs: '' @ show_nat (unat served) @ crlf
         @ ''connection: keep-alive'' @ crlf
         @ crlf
         @ body)"

text \<open>\<open>origin_conn\<close>: the responses it writes, while writes succeed.\<close>

fun origin_conn :: "bool list \<Rightarrow> u64 \<Rightarrow> u64 \<Rightarrow> 'e framed \<Rightarrow> string list" where
  "origin_conn [] conn_id served f = []"
| "origin_conn (write_ok # oks) conn_id served f =
     (case read_message Request f of
        (Inr (Some req), f1) \<Rightarrow>
          (let served1 = served + 1; resp = origin_response conn_id served1
           in resp # (if write_ok then origin_conn oks conn_id served1 f1 else []))
      | _ \<Rightarrow> [])"

section \<open>Finding the end of the head\<close>

lemma position_from_shift: "position_from (Suc i) s needle = map_option Suc (position_from i s needle)"
  by (induction i s needle arbitrary: i rule: position_from.induct) auto

lemma position_from_Some:
  "position_from i s needle = Some p \<Longrightarrow>
   i \<le> p \<and> take (length needle) (drop (p - i) s) = needle \<and> p - i + length needle \<le> length s"
proof (induction i s needle rule: position_from.induct)
  case (2 i c cs needle)
  show ?case
  proof (cases "take (length needle) (c # cs) = needle")
    case True
    with "2.prems" show ?thesis by (auto split: if_splits)
  next
    case False
    with "2.prems" have lt: "\<not> length (c # cs) < length needle"
      and rec: "position_from (Suc i) cs needle = Some p"
      by (auto split: if_splits)
    from "2.IH" [OF lt False rec] have "Suc i \<le> p" "take (length needle) (drop (p - Suc i) cs) = needle"
      "p - Suc i + length needle \<le> length cs" by blast+
    moreover from this(1) have "p - i = Suc (p - Suc i)" by simp
    ultimately show ?thesis by simp
  qed
qed simp

lemma find_bytes_Some:
  assumes "find_bytes hay needle = Some p"
  shows "take (length needle) (drop p hay) = needle" and "p + length needle \<le> length hay"
  using assms position_from_Some [of 0 hay needle p]
  by (auto simp: find_bytes_def split: if_splits)

section \<open>Reading conserves bytes\<close>

lemma read_head_unread: "read_head f = (r, f') \<Longrightarrow> unread f' = unread f \<and> healthy f' = healthy f"
proof (induction f rule: read_head.induct)
  case (1 f)
  show ?case
  proof (cases "read_more f")
    case (Pair a b)
    then show ?thesis
      using "1.prems" "1.IH" [OF _ _ Pair [symmetric]] read_more_unread [OF Pair]
      by (auto simp: read_head.simps [of f] split: option.splits if_splits sum.splits bool.splits)
  qed
qed

lemma read_head_Some:
  "read_head f = (Inr (Some n), f') \<Longrightarrow>
   \<exists>p. find_bytes (buf f') (crlf @ crlf) = Some p \<and> n = p + 4"
proof (induction f rule: read_head.induct)
  case (1 f)
  show ?case
  proof (cases "read_more f")
    case (Pair a b)
    then show ?thesis
      using "1.prems" "1.IH" [OF _ _ Pair [symmetric]]
      by (auto simp: read_head.simps [of f] split: option.splits if_splits sum.splits bool.splits)
  qed
qed

lemma read_body_unread: "read_body sz f = (r, f') \<Longrightarrow> unread f' = unread f \<and> healthy f' = healthy f"
proof (induction sz f rule: read_body.induct)
  case (1 sz f)
  show ?case
  proof (cases "read_more f")
    case (Pair a b)
    then show ?thesis
      using "1.prems" "1.IH" [OF _ Pair [symmetric]] read_more_unread [OF Pair]
      by (auto simp: read_body.simps [of sz f] split: if_splits sum.splits bool.splits)
  qed
qed

lemma read_body_full: "read_body sz f = (Inr True, f') \<Longrightarrow> sz \<le> length (buf f') \<and> (\<exists>more. buf f' = buf f @ more)"
proof (induction sz f rule: read_body.induct)
  case (1 sz f)
  show ?case
  proof (cases "read_more f")
    case (Pair a b)
    have "\<exists>more. buf b = buf f @ more"
      using Pair by (auto simp: read_more_def split: list.splits chunk.splits)
    then show ?thesis
      using Pair "1.prems" "1.IH" [OF _ Pair [symmetric]]
      by (auto simp: read_body.simps [of sz f] split: if_splits sum.splits bool.splits)
  qed
qed

lemma length_crlf [simp]: "length crlf = 2"
  by (simp add: crlf_def)

section \<open>One message at a time\<close>

lemma take_window: "\<not> Suc (length xs) < k \<Longrightarrow> take k (a # xs @ ys) = take k (a # xs)"
  using take_append [of k "a # xs" ys] by simp

lemma position_from_append:
  assumes "position_from i (xs @ ys) needle = Some p" and "needle \<noteq> []"
  shows "position_from i xs needle = (if p - i + length needle \<le> length xs then Some p else None)"
  using assms(1)
proof (induction xs arbitrary: i)
  case Nil
  show ?case using assms(2) by simp
next
  case (Cons c cs)
  show ?case
  proof (cases "length (c # cs) < length needle")
    case True
    then show ?thesis by simp
  next
    case False
    then have same: "take (length needle) (c # cs @ ys) = take (length needle) (c # cs)" by (simp add: take_window)
    show ?thesis
    proof (cases "take (length needle) (c # cs) = needle")
      case True
      then show ?thesis using Cons.prems False by (simp add: same [simplified] split: if_splits)
    next
      case no: False
      with Cons.prems same have rec: "position_from (Suc i) (cs @ ys) needle = Some p"
        by (simp split: if_splits)
      have "Suc i \<le> p" using position_from_Some [OF rec] by blast
      then show ?thesis using Cons.IH [OF rec] False no by (auto simp: Suc_diff_le)
    qed
  qed
qed

lemma find_bytes_append:
  assumes "find_bytes (xs @ ys) needle = Some p"
  shows "find_bytes xs needle = (if p + length needle \<le> length xs then Some p else None)"
  using assms position_from_append [of 0 xs ys needle p]
  by (auto simp: find_bytes_def split: if_splits)

lemma position_from_extend: "position_from i xs needle = Some p \<Longrightarrow> position_from i (xs @ ys) needle = Some p"
  by (induction xs arbitrary: i) (auto simp: take_window split: if_splits)

lemma find_bytes_extend: "find_bytes xs needle = Some p \<Longrightarrow> find_bytes (xs @ ys) needle = Some p"
  using position_from_extend [of 0 xs needle p ys] by (auto simp: find_bytes_def split: if_splits)

text \<open>Exactly one message: a head closed by an empty line and a body as long as it announces.\<close>

definition one_message :: "kind \<Rightarrow> string \<Rightarrow> bool" where
  "one_message k msg =
     (case find_bytes msg (crlf @ crlf) of
        None \<Rightarrow> False
      | Some p \<Rightarrow>
          (case body_length (take (p + 4) msg) k :: unit io_error + nat of
             Inl e \<Rightarrow> False
           | Inr body \<Rightarrow> body \<le> max_body \<and> length msg = p + 4 + body))"

text \<open>One that a reader is sure to take in: its head closes within the limit.\<close>

definition well_framed :: "kind \<Rightarrow> string \<Rightarrow> bool" where
  "well_framed k msg =
     (one_message k msg \<and> (case find_bytes msg (crlf @ crlf) of None \<Rightarrow> False | Some p \<Rightarrow> p + 4 \<le> max_head))"

lemma body_length_poly: "body_length head k = (Inr n :: 'd io_error + nat) \<Longrightarrow> body_length head k = (Inr n :: 'e io_error + nat)"
  by (auto simp: body_length_def Let_def split: list.splits sum.splits option.splits kind.splits if_splits)

lemma read_message_Some:
  assumes "read_message k f = (Inr (Some msg), f')"
  shows "one_message k msg \<and> unread (f :: 'e framed) = msg @ unread f' \<and> healthy f' = healthy f"
proof -
  obtain n f1 where h: "read_head f = (Inr (Some n), f1)"
    using assms by (auto simp: read_message_def split: prod.splits sum.splits option.splits)
  obtain body where b: "body_length (take n (buf f1)) k = (Inr body :: 'e io_error + nat)" "\<not> body > max_body"
    using assms h by (auto simp: read_message_def split: sum.splits if_splits)
  obtain f2 where r: "read_body (n + body) f1 = (Inr True, f2)"
    and msg: "msg = take (n + body) (buf f2)" and f': "f' = f2\<lparr>buf := drop (n + body) (buf f2)\<rparr>"
    using assms h b by (auto simp: read_message_def Let_def split: prod.splits sum.splits bool.splits)
  obtain p where p: "find_bytes (buf f1) (crlf @ crlf) = Some p" "n = p + 4"
    using read_head_Some [OF h] by blast
  have at: "n \<le> length (buf f1)" using find_bytes_Some(2) [OF p(1)] p(2) by simp
  obtain more where full: "n + body \<le> length (buf f2)" "buf f2 = buf f1 @ more"
    using read_body_full [OF r] by blast
  have "find_bytes (take (n + body) (buf f2) @ drop (n + body) (buf f2)) (crlf @ crlf) = Some p"
    unfolding append_take_drop_id full(2) by (rule find_bytes_extend [OF p(1)])
  from find_bytes_append [OF this] have "find_bytes msg (crlf @ crlf) = Some p"
    using full(1) p(2) by (simp add: msg)
  moreover have "take (p + 4) msg = take n (buf f1)" using at full p(2) by (simp add: msg min_def)
  moreover have "length msg = n + body" using full(1) by (simp add: msg)
  moreover have "body_length (take n (buf f1)) k = (Inr body :: unit io_error + nat)"
    by (rule body_length_poly [OF b(1)])
  ultimately have "one_message k msg" using b(2) p(2) by (simp add: one_message_def)
  moreover have "unread f = msg @ unread f'" "healthy f' = healthy f"
    using read_head_unread [OF h] read_body_unread [OF r] by (simp_all add: unread_def f' msg flip: append_assoc)
  ultimately show ?thesis by blast
qed

lemma read_message_healthy: "read_message k f = (r, f') \<Longrightarrow> healthy f' = healthy f"
  by (auto simp: read_message_def Let_def split: prod.splits sum.splits option.splits bool.splits if_splits
      dest!: read_head_unread read_body_unread)

section \<open>Headers\<close>

definition sample_request :: string where
  "sample_request = ''GET'' @ crlf @ crlf"

definition sample_response :: string where
  "sample_response = ''H 204'' @ crlf @ crlf"

text \<open>The name of a header line, as the scan compares it, and its value.\<close>

definition header_of :: "string \<Rightarrow> (string \<times> string) option" where
  "header_of line = map_option (\<lambda>(n, v). (trim n, trim v)) (split_once (CHR '':'') line)"

definition announces :: "string \<Rightarrow> bool" where
  "announces line = (case header_of line of Some (n, v) \<Rightarrow> n = content_length | None \<Rightarrow> False)"

text \<open>A header line leaves one reading of the length only: it names no coding, and announces \<open>r\<close> if any.\<close>

definition agrees :: "nat option \<Rightarrow> string \<Rightarrow> bool" where
  "agrees r line =
     (case header_of line of
        None \<Rightarrow> True
      | Some (n, v) \<Rightarrow> n \<noteq> transfer_encoding \<and> (n = content_length \<longrightarrow> r \<noteq> None \<and> parse_usize v = r))"

lemma scan_headers_Inr:
  "scan_headers len lines = Inr r \<Longrightarrow>
   list_all (agrees r) lines \<and> (len \<noteq> None \<longrightarrow> r = len) \<and> (\<not> list_ex announces lines \<longrightarrow> r = len)"
proof (induction len lines rule: scan_headers.induct)
  case (2 len line lines)
  show ?case
  proof (cases "split_once (CHR '':'') line")
    case None
    have "agrees r line" using None by (simp add: header_of_def agrees_def)
    moreover have "scan_headers len lines = Inr r" using "2.prems" None by simp
    ultimately show ?thesis using "2.IH"(1) [OF None] by simp
  next
    case (Some nv)
    obtain n v where nv: "nv = (n, v)" by (cases nv)
    have ho: "header_of line = Some (trim n, trim v)" using Some nv by (simp add: header_of_def)
    have te: "trim n \<noteq> transfer_encoding" using "2.prems" Some nv by (auto split: if_splits)
    show ?thesis
    proof (cases "trim n = content_length")
      case False
      have "agrees r line" using ho te False by (simp add: agrees_def)
      moreover have "scan_headers len lines = Inr r" using "2.prems" Some nv te False by simp
      ultimately show ?thesis using "2.IH"(3) [OF Some nv [symmetric] te False] by simp
    next
      case True
      then obtain k where k: "parse_usize (trim v) = Some k" "\<not> (len \<noteq> None \<and> len \<noteq> Some k)"
        and rec: "scan_headers (Some k) lines = Inr r"
        using "2.prems" Some nv te by (auto split: option.splits if_splits)
      from "2.IH"(2) [OF Some nv [symmetric] te True k(1,2) rec]
      have "list_all (agrees r) lines" "r = Some k" by auto
      moreover from this(2) have "agrees r line" using ho te k(1) by (simp add: agrees_def)
      moreover have "announces line" using ho True by (simp add: announces_def)
      ultimately show ?thesis using k(2) by auto
    qed
  qed
qed simp

text \<open>
  C32: A length is trusted only when it is the one reading of the head: no header names a transfer
  coding, every \<open>Content-Length\<close> parses to the accepted length, and without any the message is a
  request or a bodiless response, of length zero. Two parties cannot frame such a message differently.
\<close>

theorem body_length_unambiguous:
  assumes "body_length head k = (Inr n :: 'e io_error + nat)"
    and "split_crlf (to_ascii_lowercase head) = start_line # lines"
  shows "list_all (\<lambda>line. case header_of line of
             None \<Rightarrow> True
           | Some (name, value) \<Rightarrow>
               name \<noteq> transfer_encoding \<and> (name = content_length \<longrightarrow> parse_usize value = Some n)) lines
     \<and> (list_ex announces lines
         \<or> n = 0 \<and> (k = Request \<or> take 1 (status_of start_line) = ''1'' \<or> status_of start_line \<in> {''204'', ''304''}))"
proof -
  obtain r where r: "scan_headers None lines = Inr r"
    using assms by (auto simp: body_length_def split: sum.splits)
  note scan = scan_headers_Inr [OF r]
  show ?thesis
  proof (cases r)
    case (Some m)
    have "m = n" using assms r Some by (simp add: body_length_def)
    moreover have "list_ex announces lines" using scan Some by auto
    ultimately show ?thesis
      using scan Some by (auto simp: agrees_def list_all_iff split: option.splits prod.splits)
  next
    case None
    have "n = 0 \<and> (k = Request \<or> take 1 (status_of start_line) = ''1'' \<or> status_of start_line \<in> {''204'', ''304''})"
      using assms r None
      by (auto simp: body_length_def Let_def split: kind.splits if_splits list.splits)
    then show ?thesis
      using scan None by (auto simp: agrees_def list_all_iff split: option.splits prod.splits)
  qed
qed

theorem body_length_unambiguous_witness:
  "body_length sample_request Request = (Inr 0 :: unit io_error + nat)
   \<and> split_crlf (to_ascii_lowercase sample_request) = ''get'' # [[], []]
   \<and> \<not> list_ex announces [[], []]"
proof -
  have l: "body_length sample_request Request = (Inr 0 :: unit io_error + nat)"
    and s: "split_crlf (to_ascii_lowercase sample_request) = ''get'' # [[], []]" by code_simp+
  have "\<not> list_ex announces [[], []]" by code_simp
  with body_length_unambiguous [OF l s] l s show ?thesis by blast
qed

section \<open>What passes through the proxy\<close>

fun forwarded :: "'e action list \<Rightarrow> string list" where
  "forwarded [] = []"
| "forwarded (Forwarded req # as) = req # forwarded as"
| "forwarded (_ # as) = forwarded as"

lemma forwarded_append [simp]: "forwarded (as @ bs) = forwarded as @ forwarded bs"
  by (induction as rule: forwarded.induct) auto

lemma exchange_Some:
  assumes "exchange t request up = (Some resp, up1)" and "healthy up1"
  shows "up_write_ok t \<and> read_message Response up = (Inr (Some resp), up1) \<and> buf up1 = [] \<and> healthy up"
  using assms read_message_healthy [of Response up]
  by (auto simp: exchange_def split: prod.splits sum.splits option.splits if_splits)

lemma exchange_None: "exchange t request up = (None, up1) \<Longrightarrow> \<not> healthy up1"
  by (auto simp: exchange_def split: prod.splits sum.splits option.splits if_splits)

text \<open>
  Every byte a client sends is forwarded once, in order and on a message boundary: the requests
  forwarded to upstreams, put end to end, are a prefix of what the client's connection delivers,
  and each of them is one message, a head closed by an empty line followed by the announced body.
\<close>

theorem proxy_forwards_prefix:
  "prefix (concat (forwarded (handle_client ts client))) (unread (client :: 'e framed))
   \<and> list_all (one_message Request) (forwarded (handle_client ts client))"
proof (induction ts client rule: handle_client.induct)
  case (2 t ts client)
  show ?case
  proof (cases "\<exists>req c1. read_message Request client = (Inr (Some req), c1)")
    case False
    then show ?thesis
      by (auto split: prod.splits sum.splits option.splits io_error.splits)
  next
    case True
    then obtain req c1 where rm: "read_message Request client = (Inr (Some req), c1)" by blast
    have u: "unread client = req @ unread c1" "one_message Request req" using read_message_Some [OF rm] by blast+
    show ?thesis
    proof (cases "\<exists>up resp up1. lease t = Some up \<and> exchange t req up = (Some resp, up1) \<and> client_write_ok t")
      case False
      then show ?thesis using rm u by (auto split: prod.splits option.splits)
    next
      case True
      then obtain up resp up1 where e: "lease t = Some up" "exchange t req up = (Some resp, up1)" "client_write_ok t"
        by blast
      from "2.IH" [OF rm [symmetric] refl refl e(1) e(2) [symmetric] refl e(3)]
      show ?thesis using rm u e by simp
    qed
  qed
qed simp

lemma released_turn:
  assumes "Released up \<in> set (handle_client (t # ts) client)"
  shows "\<exists>req c1 up0. read_message Request client = (Inr (Some req), c1) \<and> lease t = Some up0"
proof -
  obtain r c1 where r: "read_message Request client = (r, c1)" by (cases "read_message Request client")
  show ?thesis
  proof (cases r)
    case (Inl e)
    then show ?thesis using assms r by (cases e) simp_all
  next
    case (Inr m)
    then show ?thesis using assms r by (cases m; cases "lease t") simp_all
  qed
qed

text \<open>
  C30: No bytes of one client's exchange stay on an upstream that goes back to the pool: an upstream
  released healthy was leased healthy, its read buffer is empty, and what it delivered since the lease
  is exactly one response, the one sent to this client next. Every other release is marked broken.
\<close>

theorem released_upstream_clean:
  assumes "Released up1 \<in> set (handle_client ts client)" and "healthy (up1 :: 'e framed)"
  shows "buf up1 = [] \<and> (\<exists>t up resp. t \<in> set ts \<and> lease t = Some up \<and> healthy up
           \<and> unread up = resp @ unread up1
           \<and> sublist [Released up1, Replied resp] (handle_client ts client))"
  using assms
proof (induction ts client rule: handle_client.induct)
  case (2 t ts client)
  obtain req c1 up where rm: "read_message Request client = (Inr (Some req), c1)" and l: "lease t = Some up"
    using released_turn [OF "2.prems"(1)] by blast
  obtain r up' where e: "exchange t req up = (r, up')" by (cases "exchange t req up")
  obtain resp where r: "r = Some resp"
    using "2.prems" rm l e exchange_None [of t req up up'] by (cases r) auto
  let ?rest = "if client_write_ok t then handle_client ts c1 else []"
  have run: "handle_client (t # ts) client = [Forwarded req, Released up', Replied resp] @ ?rest"
    using rm l e r by simp
  show ?case
  proof (cases "up1 = up'")
    case True
    then have "up_write_ok t \<and> read_message Response up = (Inr (Some resp), up1) \<and> buf up1 = [] \<and> healthy up"
      using exchange_Some e r "2.prems"(2) by blast
    moreover from this have "unread up = resp @ unread up1" using read_message_Some by blast
    moreover have "sublist [Released up1, Replied resp] (handle_client (t # ts) client)"
      unfolding run True sublist_def by (intro exI [of _ "[Forwarded req]"] exI [of _ ?rest]) simp
    ultimately show ?thesis using l by auto
  next
    case False
    then have w: "client_write_ok t" "Released up1 \<in> set (handle_client ts c1)"
      using "2.prems"(1) unfolding run by (auto split: if_splits)
    have "handle_client (t # ts) client = [Forwarded req, Released up', Replied resp] @ handle_client ts c1"
      using run w(1) by simp
    then have later: "sublist xs (handle_client ts c1) \<Longrightarrow> sublist xs (handle_client (t # ts) client)" for xs
      by (simp only: sublist_order.order_trans [OF _ sublist_append_leftI])
    from "2.IH" [OF rm [symmetric] refl refl l e [unfolded r, symmetric] refl w(1) w(2) "2.prems"(2)]
    obtain t' upa respa where "buf up1 = []" "t' \<in> set ts" "lease t' = Some upa" "healthy upa"
      "unread upa = respa @ unread up1" "sublist [Released up1, Replied respa] (handle_client ts c1)" by blast
    then show ?thesis using later by (metis list.set_intros(2))
  qed
qed simp

lemmas head_evals = to_ascii_lowercase_def lower_char_def content_length_def transfer_encoding_def
  parse_show_usize trim_def is_space_def CR_def

lemmas wire_evals = head_evals LF_def crlf_def find_bytes_def body_length_def max_head_def max_body_def
  split_crlf_def status_of_def split_whitespace_def

lemma read_sample_request:
  "read_message Request (framed_new [Data sample_request]) = (Inr (Some sample_request), framed_new [])"
  by (simp add: read_message_def read_head.simps read_body.simps read_more_def framed_new_def
      sample_request_def wire_evals)

lemma read_sample_response:
  "read_message Response (framed_new [Data sample_response]) = (Inr (Some sample_response), framed_new [])"
  by (simp add: read_message_def read_head.simps read_body.simps read_more_def framed_new_def
      sample_response_def wire_evals)

definition sample_turn :: "nat turn" where
  "sample_turn = \<lparr>lease = Some (framed_new [Data sample_response]), up_write_ok = True, client_write_ok = True\<rparr>"

theorem released_upstream_clean_witness:
  "handle_client [sample_turn] (framed_new [Data sample_request]) =
     [Forwarded sample_request, Released (framed_new []), Replied sample_response]
   \<and> buf (framed_new [] :: nat framed) = []"
proof -
  have run: "handle_client [sample_turn] (framed_new [Data sample_request]) =
     [Forwarded sample_request, Released (framed_new []), Replied sample_response]"
    by (simp add: sample_turn_def exchange_def read_sample_request read_sample_response)
  have "Released (framed_new []) \<in> set (handle_client [sample_turn] (framed_new [Data sample_request]))"
    unfolding run by simp
  moreover have "healthy (framed_new [] :: nat framed)" by (simp add: framed_new_def)
  ultimately have "buf (framed_new [] :: nat framed) = []" using released_upstream_clean by blast
  with run show ?thesis by blast
qed

section \<open>Reading back a message, however it is cut into segments\<close>

lemma read_head_segments:
  assumes "find_bytes (unread f) (crlf @ crlf) = Some p" and "p + 4 \<le> max_head" and "segments f"
  shows "\<exists>f'. read_head f = (Inr (Some (p + 4)), f') \<and> segments f' \<and> unread f' = unread f \<and> p + 4 \<le> length (buf f')"
  using assms
proof (induction f rule: read_head.induct)
  case (1 f)
  note at = find_bytes_append [OF "1.prems"(1) [unfolded unread_def]]
  show ?case
  proof (cases "p + 4 \<le> length (buf f)")
    case True
    then show ?thesis using at "1.prems" by (simp add: read_head.simps [of f])
  next
    case False
    have "p + 4 \<le> length (unread f)" using find_bytes_Some(2) [OF "1.prems"(1)] by simp
    then have "stream f \<noteq> []" using False stream_not_empty [of f] by simp
    then obtain f1 where f1: "read_more f = (Inr True, f1)" "segments f1" "unread f1 = unread f"
      using read_more_segments "1.prems"(3) by blast
    have none: "find_bytes (buf f) (crlf @ crlf) = None" and small: "\<not> length (buf f) \<ge> max_head"
      using False at "1.prems"(2) by auto
    from "1.IH" [OF none small f1(1) [symmetric] refl refl] f1 "1.prems" none small
    show ?thesis by (simp add: read_head.simps [of f])
  qed
qed

lemma read_body_segments:
  assumes "sz \<le> length (unread f)" and "segments f"
  shows "\<exists>f'. read_body sz f = (Inr True, f') \<and> segments f' \<and> unread f' = unread f \<and> sz \<le> length (buf f')"
  using assms
proof (induction sz f rule: read_body.induct)
  case (1 sz f)
  show ?case
  proof (cases "length (buf f) < sz")
    case False
    then show ?thesis using "1.prems" by (simp add: read_body.simps [of sz f])
  next
    case True
    then obtain f1 where f1: "read_more f = (Inr True, f1)" "segments f1" "unread f1 = unread f"
      using read_more_segments "1.prems" stream_not_empty [of f] by force
    from "1.IH" [OF True f1(1) [symmetric] refl refl] f1 "1.prems" True
    show ?thesis by (simp add: read_body.simps [of sz f])
  qed
qed

lemma read_message_segments:
  assumes "find_bytes (unread f) (crlf @ crlf) = Some p" and "p + 4 \<le> max_head"
    and "body_length (take (p + 4) (unread f)) k = (Inr body :: 'e io_error + nat)" and "body \<le> max_body"
    and "p + 4 + body \<le> length (unread f)" and "segments (f :: 'e framed)"
  shows "\<exists>f'. read_message k f = (Inr (Some (take (p + 4 + body) (unread f))), f') \<and> segments f'
           \<and> unread f' = drop (p + 4 + body) (unread f)"
proof -
  obtain f1 where f1: "read_head f = (Inr (Some (p + 4)), f1)" "segments f1" "unread f1 = unread f"
    "p + 4 \<le> length (buf f1)" using read_head_segments assms by blast
  have head: "take (p + 4) (buf f1) = take (p + 4) (unread f)"
    using take_unread [OF f1(4)] f1(3) by simp
  obtain f2 where f2: "read_body (p + 4 + body) f1 = (Inr True, f2)" "segments f2" "unread f2 = unread f"
    "p + 4 + body \<le> length (buf f2)" using read_body_segments [of "p + 4 + body" f1] f1 assms(5) by auto
  have "take (p + 4 + body) (buf f2) = take (p + 4 + body) (unread f)"
    "unread (f2\<lparr>buf := drop (p + 4 + body) (buf f2)\<rparr>) = drop (p + 4 + body) (unread f)"
    using take_unread [OF f2(4)] drop_unread [OF f2(4)] f2(3) by simp_all
  moreover have "segments (f2\<lparr>buf := drop (p + 4 + body) (buf f2)\<rparr>)" using f2(2) by (simp add: segments_def)
  ultimately show ?thesis using f1(1) f2(1) assms(3,4) head by (simp add: read_message_def Let_def)
qed

lemma read_message_delivers:
  assumes "segments (f :: 'e framed)" and "well_framed k msg" and "unread f = msg @ rest"
  shows "\<exists>f'. read_message k f = (Inr (Some msg), f') \<and> segments f' \<and> unread f' = rest"
proof -
  obtain p body where p: "find_bytes msg (crlf @ crlf) = Some p" "p + 4 \<le> max_head"
    and b: "body_length (take (p + 4) msg) k = (Inr body :: unit io_error + nat)" "body \<le> max_body"
      "length msg = p + 4 + body"
    using assms(2) by (auto simp: well_framed_def one_message_def split: option.splits sum.splits)
  have "find_bytes (unread f) (crlf @ crlf) = Some p" using find_bytes_extend [OF p(1)] assms(3) by simp
  moreover have "body_length (take (p + 4) (unread f)) k = (Inr body :: 'e io_error + nat)"
    using body_length_poly [OF b(1)] b(3) assms(3) by simp
  ultimately show ?thesis
    using read_message_segments [of f p k body] p(2) b(2,3) assms(1,3) by simp
qed

lemma read_message_none:
  assumes "read_message k f = (r, f')" and "\<forall>m. r \<noteq> Inr (Some m)"
  shows "unread f' = unread f"
proof -
  obtain h f1 where h: "read_head f = (h, f1)" by (cases "read_head f")
  have f1: "unread f1 = unread f" using read_head_unread [OF h] by blast
  have "unread f2 = unread f" if "read_body sz f1 = (x, f2)" for sz x f2
    using read_body_unread [OF that] f1 by simp
  then show ?thesis
    using assms h f1
    by (auto simp: read_message_def Let_def split: sum.splits option.splits if_splits prod.splits bool.splits)
qed

interpretation http: message_codec "read_message k" "\<lambda>raw m. raw = m" "\<lambda>m. m" "well_framed k" for k
proof
  fix f f' :: "'a framed" and m r rest
  show "\<exists>raw. raw = m \<and> unread f = raw @ unread f'" if "read_message k f = (Inr (Some m), f')"
    using read_message_Some [OF that] by blast
  show "unread f' = unread f" if "read_message k f = (r, f')" "\<forall>m. r \<noteq> Inr (Some m)"
    using read_message_none that by blast
  show "healthy f' = healthy f" if "read_message k f = (r, f')"
    using read_message_healthy that by blast
  show "\<exists>f'. read_message k f = (Inr (Some m), f') \<and> segments f' \<and> unread f' = rest"
    if "segments f" "well_framed k m" "unread f = m @ rest"
    using read_message_delivers that by blast
qed

section \<open>Replies made here are well framed\<close>

fun head_of :: "string list \<Rightarrow> string" where
  "head_of [] = crlf"
| "head_of (l # ls) = l @ crlf @ head_of ls"

lemma position_from_skip:
  "CR \<notin> set l \<Longrightarrow> 4 \<le> length rest \<Longrightarrow>
   position_from i (l @ rest) (crlf @ crlf) = position_from (i + length l) rest (crlf @ crlf)"
proof (induction l arbitrary: i)
  case (Cons c cs)
  then have "take 4 (c # cs @ rest) \<noteq> crlf @ crlf" by (auto simp: crlf_def)
  then show ?case using Cons by simp
qed simp

lemma position_from_head:
  "list_all (\<lambda>l. l \<noteq> [] \<and> CR \<notin> set l) (l # ls) \<Longrightarrow>
   position_from i (head_of (l # ls) @ body) (crlf @ crlf) = Some (i + length (head_of (l # ls)) - 4)"
proof (induction ls arbitrary: l i)
  case Nil
  then show ?case using position_from_skip [of l "crlf @ crlf @ body" i] by (simp add: crlf_def numeral_eq_Suc)
next
  case (Cons m ls)
  let ?rest = "head_of (m # ls) @ body"
  obtain c m' where m: "m = c # m'" "c \<noteq> CR" using Cons.prems by (cases m) auto
  have "position_from i (l @ crlf @ ?rest) (crlf @ crlf) = position_from (i + length l) (crlf @ ?rest) (crlf @ crlf)"
    by (rule position_from_skip) (use Cons.prems in \<open>simp_all add: crlf_def m\<close>)
  also have "\<dots> = position_from (i + length l + 2) ?rest (crlf @ crlf)"
    using m by (simp add: crlf_def numeral_eq_Suc)
  finally show ?case using Cons.IH [of m "i + length l + 2"] Cons.prems by (simp add: add.assoc)
qed

lemma find_head:
  assumes "list_all (\<lambda>l. l \<noteq> [] \<and> CR \<notin> set l) (l # ls)"
  shows "find_bytes (head_of (l # ls) @ body) (crlf @ crlf) = Some (length (head_of (l # ls)) - 4)"
proof -
  have "4 \<le> length (head_of (l # ls))" by (cases ls) simp_all
  moreover have "crlf \<noteq> []" by (simp add: crlf_def)
  ultimately show ?thesis using position_from_head [OF assms, of 0 body] by (simp add: find_bytes_def)
qed

lemma split_crlf_line: "CR \<notin> set l \<Longrightarrow> split_crlf_from acc (l @ crlf @ rest) = (acc @ l) # split_crlf_from [] rest"
proof (induction l arbitrary: acc)
  case (Cons c cs)
  then show ?case by (cases "cs @ crlf @ rest") (auto simp: crlf_def)
qed (simp add: crlf_def)

lemma split_crlf_head: "list_all (\<lambda>l. CR \<notin> set l) ls \<Longrightarrow> split_crlf (head_of ls) = ls @ [[], []]"
proof (induction ls)
  case Nil
  then show ?case using split_crlf_line [of "[]" "[]" "[]"] by (simp add: split_crlf_def)
qed (simp add: split_crlf_def split_crlf_line)

lemma eq_CR: "c = CR \<longleftrightarrow> of_char c = (13 :: nat)"
proof
  assume "of_char c = (13 :: nat)"
  then have "of_char c = (of_char CR :: nat)" by (simp add: CR_def)
  then show "c = CR" by (simp only: of_char_eq_iff)
qed (simp add: CR_def)

lemma lower_char_CR [simp]: "lower_char c = CR \<longleftrightarrow> c = CR"
  by (auto simp: eq_CR lower_char_def Let_def)

lemma lower_char_CR' [simp]: "CR = lower_char c \<longleftrightarrow> c = CR"
  by (metis lower_char_CR)

lemma lower_head: "to_ascii_lowercase (head_of ls) = head_of (map to_ascii_lowercase ls)"
  by (induction ls) (simp_all add: to_ascii_lowercase_def crlf_def CR_def LF_def lower_char_def)

lemma well_framed_head:
  assumes "list_all (\<lambda>l. l \<noteq> [] \<and> CR \<notin> set l) (l # ls)"
    and "scan_headers None (map to_ascii_lowercase ls @ [[], []]) = Inr (Some (length body))"
    and "length (head_of (l # ls)) \<le> max_head" and "length body \<le> max_body"
  shows "well_framed k (head_of (l # ls) @ body)"
proof -
  let ?head = "head_of (l # ls)"
  have four: "length ?head - 4 + 4 = length ?head" by (cases ls) simp_all
  have "list_all (\<lambda>l. CR \<notin> set l) (map to_ascii_lowercase (l # ls))"
    using assms(1) by (auto simp: list_all_iff to_ascii_lowercase_def)
  then have "split_crlf (to_ascii_lowercase ?head) = to_ascii_lowercase l # map to_ascii_lowercase ls @ [[], []]"
    by (simp only: lower_head split_crlf_head) simp
  then have "body_length ?head k = (Inr (length body) :: unit io_error + nat)"
    using assms(2) by (simp add: body_length_def)
  then show ?thesis
    using find_head [OF assms(1), of body] four assms(3,4) by (simp add: well_framed_def one_message_def)
qed

section \<open>Decimal numbers in heads\<close>

lemma digits_plain: "char_digit c = Some d \<Longrightarrow> c \<noteq> CR \<and> lower_char c = c \<and> \<not> is_space c"
  by (auto simp: char_digit_def CR_def lower_char_def is_space_def Let_def split: if_splits)

lemmas show_nat_no_CR' [simp] = show_nat_no_CR [unfolded CR_def]

lemma lower_show_nat [simp]: "map lower_char (show_nat n) = show_nat n"
  using set_show_nat digits_plain by (intro map_idI) blast

lemma show_nat_trimmed [simp]:
  "dropWhile is_space (show_nat n) = show_nat n" "dropWhile is_space (rev (show_nat n)) = rev (show_nat n)"
proof -
  have "\<not> is_space c" if "c \<in> set (show_nat n)" for c using set_show_nat digits_plain that by blast
  then show "dropWhile is_space (show_nat n) = show_nat n" "dropWhile is_space (rev (show_nat n)) = rev (show_nat n)"
    using show_nat_not_empty [of n] by (simp_all add: dropWhile_eq_self_iff hd_rev)
qed

lemma origin_response_framed: "well_framed Response (origin_response conn_id served)"
proof -
  let ?b = "origin_body conn_id served"
  let ?ls = "[''content-type: text/plain'', ''content-length: '' @ show_nat (length ?b),
      ''x-upstream-conn: '' @ show_nat (unat conn_id), ''x-upstream-reqs: '' @ show_nat (unat served),
      ''connection: keep-alive'']"
  have b: "length ?b < 1000"
    using length_show_u64 [of conn_id] length_show_u64 [of served] by (simp add: origin_body_def)
  have "origin_response conn_id served = head_of (''HTTP/1.1 200 OK'' # ?ls) @ ?b"
    by (simp add: origin_response_def Let_def)
  also have "well_framed Response \<dots>"
  proof (rule well_framed_head)
    show "list_all (\<lambda>l. l \<noteq> [] \<and> CR \<notin> set l) (''HTTP/1.1 200 OK'' # ?ls)" by (simp add: CR_def)
    show "length (head_of (''HTTP/1.1 200 OK'' # ?ls)) \<le> max_head"
      using length_show_u64 [of conn_id] length_show_u64 [of served] length_show_small [OF b]
      by (simp add: max_head_def)
    show "length ?b \<le> max_body" using b by (simp add: max_body_def)
    show "scan_headers None (map to_ascii_lowercase ?ls @ [[], []]) = Inr (Some (length ?b))"
      using b by (simp add: head_evals)
  qed
  finally show ?thesis .
qed

lemma simple_response_framed:
  assumes "CR \<notin> set status" and "length status \<le> 1000" and "length body \<le> max_body"
  shows "well_framed Response (simple_response status body)"
proof -
  let ?ls = "[''content-length: '' @ show_nat (length body), ''connection: close'']"
  have b: "length body < 10 ^ 8" using assms(3) by (simp add: max_body_def)
  have d: "length (show_nat (length body)) \<le> 8" by (rule length_show_nat) (use b in simp_all)
  have "simple_response status body = head_of ((''HTTP/1.1 '' @ status) # ?ls) @ body"
    by (simp add: simple_response_def)
  also have "well_framed Response \<dots>"
  proof (rule well_framed_head)
    show "list_all (\<lambda>l. l \<noteq> [] \<and> CR \<notin> set l) ((''HTTP/1.1 '' @ status) # ?ls)"
      using assms(1) by (simp add: CR_def)
    show "length (head_of ((''HTTP/1.1 '' @ status) # ?ls)) \<le> max_head"
      using assms(2) d by (simp add: max_head_def)
    show "scan_headers None (map to_ascii_lowercase ?ls @ [[], []]) = Inr (Some (length body))"
      using b by (simp add: head_evals)
  qed (rule assms(3))
  finally show ?thesis .
qed

section \<open>Serving a keep-alive connection\<close>

lemma origin_conn_serves:
  "segments f \<Longrightarrow> list_all (well_framed Request) reqs \<Longrightarrow> unread f = concat reqs \<Longrightarrow>
   origin_conn (replicate (length reqs) True) conn_id served f =
     map (\<lambda>i. origin_response conn_id (served + of_nat (Suc i))) [0..<length reqs]"
proof (induction reqs arbitrary: f served)
  case (Cons req reqs)
  then obtain f1 where f1: "read_message Request f = (Inr (Some req), f1)" "segments f1" "unread f1 = concat reqs"
    using http.delivers [of f Request req] by auto
  have upt: "[0..<length (req # reqs)] = 0 # map Suc [0..<length reqs]" by (simp add: upt_conv_Cons map_Suc_upt del: upt_Suc)
  show ?case
    using Cons.IH [OF f1(2) _ f1(3), of "served + 1"] Cons.prems(2) f1(1)
    unfolding upt by (simp add: Let_def add.assoc comp_def)
qed simp

text \<open>
  C31: Keep-alive round trip: whatever the segments requests arrive in, the origin answers pipelined
  requests one by one and in order, numbering them, and a proxy connected to it reads back exactly
  these responses, in order, with nothing left on the connection.
\<close>

theorem origin_pipeline_roundtrip:
  assumes "segments (f :: 'e framed)" and "list_all (well_framed Request) reqs" and "unread f = concat reqs"
    and "segments (up :: 'e framed)"
    and "unread up = concat (origin_conn (replicate (length reqs) True) conn_id served f)"
  shows "\<exists>up'. read_msgs (read_message Response) (length reqs) up =
            (map (\<lambda>i. origin_response conn_id (served + of_nat (Suc i))) [0..<length reqs], up')
          \<and> unread up' = [] \<and> healthy up' = healthy up"
proof -
  let ?rs = "map (\<lambda>i. origin_response conn_id (served + of_nat (Suc i))) [0..<length reqs]"
  have rs: "origin_conn (replicate (length reqs) True) conn_id served f = ?rs"
    using origin_conn_serves assms(1-3) by blast
  have "list_all (well_framed Response) ?rs" by (simp add: list_all_iff origin_response_framed)
  then show ?thesis
    using http.reads_back [of up Response ?rs "[]"] assms(4,5) unfolding rs by auto
qed

theorem origin_pipeline_roundtrip_witness:
  "\<exists>up'. read_msgs (read_message Response) (length [sample_request])
      (framed_new [Data (origin_response 7 1)] :: nat framed) =
        (map (\<lambda>i. origin_response 7 (0 + of_nat (Suc i))) [0..<length [sample_request]], up')
    \<and> unread up' = [] \<and> healthy up' = healthy (framed_new [Data (origin_response 7 1)] :: nat framed)"
proof (rule origin_pipeline_roundtrip [where f = "framed_new [Data ''GET'', Data (crlf @ crlf)]" and reqs = "[sample_request]"])
  show wf: "list_all (well_framed Request) [sample_request]"
    by (simp add: well_framed_def one_message_def sample_request_def wire_evals)
  show sg: "segments (framed_new [Data ''GET'', Data (crlf @ crlf)] :: nat framed)"
    by (simp add: segments_def framed_new_def crlf_def)
  show un: "unread (framed_new [Data ''GET'', Data (crlf @ crlf)] :: nat framed) = concat [sample_request]"
    by (simp add: sample_request_def)
  show "segments (framed_new [Data (origin_response 7 1)] :: nat framed)"
    by (simp add: segments_def framed_new_def origin_response_def Let_def)
  show "unread (framed_new [Data (origin_response 7 1)] :: nat framed) =
      concat (origin_conn (replicate (length [sample_request]) True) 7 0
        (framed_new [Data ''GET'', Data (crlf @ crlf)] :: nat framed))"
    using origin_conn_serves [OF sg wf un, of 7 0] by simp
qed

end
