(* ===== verification/Scatter_Gather.thy ===== *)
theory Scatter_Gather
  imports Streams
begin

text \<open>
  \<open>src/examples/scatter_gather.rs\<close>: newline-framed connections (\<open>Line\<close>), a pool of them per shard,
  and a front end that sends each query to every shard and joins the replies in shard order. Text is
  ASCII, on which \<open>from_utf8_lossy\<close> is the identity. The last field of the merged line, the elapsed
  time, is what the clock says: a parameter of the turn.
\<close>

section \<open>Lines\<close>

definition max_line :: nat where
  "max_line = 64 * 1024"

text \<open>\<open>Line\<close> has the fields of \<open>Framed\<close>: the stream, the read buffer, the health flag.\<close>

type_synonym 'e line = "'e framed"

definition line_new :: "'e chunk list \<Rightarrow> 'e line" where
  "line_new s = \<lparr>stream = s, buf = [], healthy = True\<rparr>"

fun position_of :: "char \<Rightarrow> string \<Rightarrow> nat option" where
  "position_of d [] = None"
| "position_of d (c # cs) = (if c = d then Some 0 else map_option Suc (position_of d cs))"

definition trim_end_matches :: "char \<Rightarrow> string \<Rightarrow> string" where
  "trim_end_matches d s = rev (dropWhile (\<lambda>c. c = d) (rev s))"

function read_line :: "'e line \<Rightarrow> ('e io_error + string option) \<times> 'e line" where
  "read_line f =
     (case position_of LF (buf f) of
        Some pos \<Rightarrow>
          (let line = take (pos + 1) (buf f)
           in (Inr (Some (trim_end_matches CR (butlast line))), f\<lparr>buf := drop (pos + 1) (buf f)\<rparr>))
      | None \<Rightarrow>
          if length (buf f) \<ge> max_line then (Inl (InvalidData ''line too long''), f)
          else (case read_more f of
                  (Inl e, f') \<Rightarrow> (Inl e, f')
                | (Inr False, f') \<Rightarrow> (Inr None, f')
                | (Inr True, f') \<Rightarrow> read_line f'))"
  by pat_completeness auto

termination read_line
  by (relation "measure (\<lambda>f. length (stream f))") (auto dest: read_more_shrinks [OF sym])

declare read_line.simps [simp del]

text \<open>A line takes its bytes, its ending included, off the connection.\<close>

lemma position_of_Some: "position_of d s = Some p \<Longrightarrow> p < length s \<and> s ! p = d \<and> d \<notin> set (take p s)"
  by (induction s arbitrary: p) (auto split: if_splits)

lemma position_of_None: "position_of d s = None \<longleftrightarrow> d \<notin> set s"
  by (induction s) auto

definition is_line :: "string \<Rightarrow> string \<Rightarrow> bool" where
  "is_line raw text = (\<exists>body. raw = body @ [LF] \<and> LF \<notin> set body \<and> text = trim_end_matches CR body)"

lemma read_line_Some:
  "read_line f = (Inr (Some q), f') \<Longrightarrow> \<exists>raw. is_line raw q \<and> unread f = raw @ unread f'"
proof (induction f rule: read_line.induct)
  case (1 f)
  show ?case
  proof (cases "position_of LF (buf f)")
    case (Some p)
    have p: "p < length (buf f)" "buf f ! p = LF" "LF \<notin> set (take p (buf f))"
      using position_of_Some [OF Some] by blast+
    have line: "take (p + 1) (buf f) = take p (buf f) @ [LF]" using p by (simp add: take_Suc_conv_app_nth)
    have "q = trim_end_matches CR (take p (buf f))" "f' = f\<lparr>buf := drop (p + 1) (buf f)\<rparr>"
      using "1.prems" Some line by (auto simp: read_line.simps [of f] Let_def)
    then have "is_line (take (p + 1) (buf f)) q" "unread f' = drop (p + 1) (unread f)"
      using p line drop_unread [of "p + 1" f] by (auto simp: is_line_def)
    moreover have "take (p + 1) (buf f) = take (p + 1) (unread f)" using p(1) by (simp add: take_unread)
    ultimately show ?thesis by (metis append_take_drop_id)
  next
    case None
    obtain r f1 where r: "read_more f = (r, f1)" by (cases "read_more f")
    with None "1.prems" have "r = Inr True" "\<not> max_line \<le> length (buf f)" "read_line f1 = (Inr (Some q), f')"
      by (auto simp: read_line.simps [of f] split: if_splits sum.splits bool.splits)
    with "1.IH" [OF None _ r [symmetric]] read_more_unread [OF r] show ?thesis by simp
  qed
qed

lemma read_line_shrinks: "read_line f = (Inr (Some q), f') \<Longrightarrow> length (unread f') < length (unread f)"
  using read_line_Some [of f q f'] by (auto simp: is_line_def)

text \<open>The bytes \<open>write_line\<close> hands to \<open>write_all\<close>.\<close>

definition write_line :: "string \<Rightarrow> string" where
  "write_line text = text @ [LF]"

section \<open>The shards' manager\<close>

definition shard_is_valid :: "'e line \<Rightarrow> 'e io_error option" where
  "shard_is_valid c = (if healthy c then None else Some (BrokenPipe ''shard conn marked dead''))"

definition shard_has_broken :: "'e line \<Rightarrow> bool \<times> 'e line" where
  "shard_has_broken c = (\<not> healthy c, c)"

section \<open>One query\<close>

text \<open>
  \<open>query_shard\<close>, given what \<open>pool.get()\<close> returned and whether the write went through: the reply,
  and the connection as its lease is dropped.
\<close>

definition query_shard :: "'e line option \<Rightarrow> bool \<Rightarrow> string \<Rightarrow> string option \<times> 'e line option" where
  "query_shard got write_ok query =
     (case got of
        None \<Rightarrow> (None, None)
      | Some conn \<Rightarrow>
          if \<not> write_ok then (None, Some (conn\<lparr>healthy := False\<rparr>))
          else (case read_line conn of
                  (Inr (Some reply), c1) \<Rightarrow> (Some reply, Some c1)
                | (_, c1) \<Rightarrow> (None, Some (c1\<lparr>healthy := False\<rparr>))))"

definition err_part :: "nat \<Rightarrow> string" where
  "err_part i = ''shard'' @ show_nat i @ ''=ERR''"

text \<open>The gather loop: the tasks in shard order, a failed one leaves its mark in its place.\<close>

fun gather :: "nat \<Rightarrow> string option list \<Rightarrow> string list" where
  "gather i [] = []"
| "gather i (Some reply # tasks) = reply # gather (Suc i) tasks"
| "gather i (None # tasks) = err_part i # gather (Suc i) tasks"

fun join_with :: "string \<Rightarrow> string list \<Rightarrow> string" where
  "join_with sep [] = []"
| "join_with sep [p] = p"
| "join_with sep (p # q # ps) = p @ sep @ join_with sep (q # ps)"

definition merged_line :: "string list \<Rightarrow> string \<Rightarrow> string" where
  "merged_line parts elapsed =
     join_with '' '' parts @ '' | '' @ show_nat (length parts) @ '' shards in '' @ elapsed @ ''ms''"

text \<open>
  What the environment decides while one query is served: per shard, the lease and whether the write
  goes through; the elapsed time as printed; and whether the client takes the answer.
\<close>

record 'e query_round =
  leases :: "('e line option \<times> bool) list"
  elapsed_ms :: string
  answer_ok :: bool

definition scatter :: "'e query_round \<Rightarrow> string \<Rightarrow> (string option \<times> 'e line option) list" where
  "scatter r query = map (\<lambda>(got, write_ok). query_shard got write_ok query) (leases r)"

text \<open>\<open>sg_handle_client\<close>: the queries sent to the shards, what became of the leases, the answer line.\<close>

datatype 'e sg_event =
    Queried string "'e line option list"
  | Answered string

function sg_handle_client :: "'e query_round list \<Rightarrow> 'e line \<Rightarrow> 'e sg_event list" where
  "sg_handle_client rs client =
     (case read_line client of
        (Inr (Some q), client1) \<Rightarrow>
          if q = [] then sg_handle_client rs client1
          else
            (case rs of
               [] \<Rightarrow> []
             | r # rs1 \<Rightarrow>
                 (let tasks = scatter r q;
                      parts = gather 0 (map fst tasks)
                  in Queried q (map snd tasks) # Answered (write_line (merged_line parts (elapsed_ms r)))
                     # (if answer_ok r then sg_handle_client rs1 client1 else [])))
      | (_, client1) \<Rightarrow> [])"
  by pat_completeness auto

termination sg_handle_client
  by (relation "measure (\<lambda>(rs, client). length (unread client))") (auto dest: read_line_shrinks [OF sym])

declare sg_handle_client.simps [simp del]

section \<open>The shard backend\<close>

definition hits_of :: "nat \<Rightarrow> string \<Rightarrow> u64" where
  "hits_of i query = (let buckets = 10 + of_nat i :: u64 in sum_list (map of_char query) mod buckets)"

definition shard_reply :: "nat \<Rightarrow> string \<Rightarrow> string" where
  "shard_reply i query = ''shard'' @ show_nat i @ ''='' @ show_nat (unat (hits_of i query))"

text \<open>\<open>shard_conn\<close>: the lines it writes, while writes succeed.\<close>

fun shard_conn :: "bool list \<Rightarrow> nat \<Rightarrow> 'e line \<Rightarrow> string list" where
  "shard_conn [] i f = []"
| "shard_conn (write_ok # oks) i f =
     (case read_line f of
        (Inr (Some query), f1) \<Rightarrow>
          write_line (shard_reply i query) # (if write_ok then shard_conn oks i f1 else [])
      | _ \<Rightarrow> [])"

section \<open>A line is read back whatever segments it arrives in\<close>

lemma read_line_unread:
  assumes "read_line f = (r, f')" and "\<forall>q. r \<noteq> Inr (Some q)"
  shows "unread f' = unread f"
  using assms
proof (induction f rule: read_line.induct)
  case (1 f)
  obtain x f1 where x: "read_more f = (x, f1)" by (cases "read_more f")
  show ?case
    using "1.prems" "1.IH" [OF _ _ x [symmetric]] read_more_unread [OF x] x
    by (auto simp: read_line.simps [of f] Let_def split: option.splits if_splits sum.splits bool.splits)
qed

lemma read_line_healthy: "read_line f = (r, f') \<Longrightarrow> healthy f' = healthy f"
proof (induction f rule: read_line.induct)
  case (1 f)
  obtain x f1 where x: "read_more f = (x, f1)" by (cases "read_more f")
  show ?case
    using "1.prems" "1.IH" [OF _ _ x [symmetric]] read_more_unread [OF x] x
    by (auto simp: read_line.simps [of f] Let_def split: option.splits if_splits sum.splits bool.splits)
qed

lemma position_of_append:
  "d \<notin> set m \<Longrightarrow> xs @ ys = m @ d # rest \<Longrightarrow>
   position_of d xs = (if length m < length xs then Some (length m) else None)"
proof (induction m arbitrary: xs)
  case Nil
  then show ?case by (cases xs) auto
next
  case (Cons c m)
  then show ?case by (cases xs) auto
qed

lemma read_line_delivers:
  assumes "segments f" and "LF \<notin> set m" and "length m < max_line" and "unread f = m @ LF # rest"
  shows "\<exists>f'. read_line f = (Inr (Some (trim_end_matches CR m)), f') \<and> segments f' \<and> unread f' = rest"
  using assms
proof (induction f rule: read_line.induct)
  case (1 f)
  note at = position_of_append [OF "1.prems"(2) "1.prems"(4) [unfolded unread_def]]
  show ?case
  proof (cases "length m < length (buf f)")
    case True
    then have "take (length m + 1) (buf f) = m @ [LF]"
      using take_unread [of "length m + 1" f] "1.prems"(4) by simp
    moreover have "unread (f\<lparr>buf := drop (length m + 1) (buf f)\<rparr>) = rest"
      using drop_unread [of "length m + 1" f] True "1.prems"(4) by simp
    ultimately show ?thesis using at True "1.prems"(1) by (simp add: read_line.simps [of f])
  next
    case False
    then have none: "position_of LF (buf f) = None" and small: "\<not> max_line \<le> length (buf f)"
      using at "1.prems"(3) by simp_all
    have "stream f \<noteq> []" using stream_not_empty [of f] False "1.prems"(4) by simp
    then obtain f1 where f1: "read_more f = (Inr True, f1)" "segments f1" "unread f1 = unread f"
      using read_more_segments "1.prems"(1) by blast
    from "1.IH" [OF none small f1(1) [symmetric] refl refl] f1 "1.prems" none small
    show ?thesis by (simp add: read_line.simps [of f])
  qed
qed

definition sendable :: "string \<Rightarrow> bool" where
  "sendable m = (LF \<notin> set m \<and> trim_end_matches CR m = m \<and> length m < max_line)"

interpretation lines: message_codec read_line is_line write_line sendable
proof
  fix f f' :: "'a line" and m r rest
  show "\<exists>raw. is_line raw m \<and> unread f = raw @ unread f'" if "read_line f = (Inr (Some m), f')"
    using read_line_Some that by blast
  show "unread f' = unread f" if "read_line f = (r, f')" "\<forall>m. r \<noteq> Inr (Some m)"
    using read_line_unread that by blast
  show "healthy f' = healthy f" if "read_line f = (r, f')"
    using read_line_healthy that by blast
  show "\<exists>f'. read_line f = (Inr (Some m), f') \<and> segments f' \<and> unread f' = rest"
    if "segments f" "sendable m" "unread f = write_line m @ rest"
    using read_line_delivers [of f m rest] that by (auto simp: sendable_def write_line_def)
qed

section \<open>Queries and replies\<close>

lemma trim_no_CR: "CR \<notin> set m \<Longrightarrow> trim_end_matches CR m = m"
  by (cases m rule: rev_cases) (auto simp: trim_end_matches_def)

lemma shard_reply_sendable: "i < 2 ^ 64 \<Longrightarrow> sendable (shard_reply i query)"
proof -
  assume "i < 2 ^ 64"
  then have "length (show_nat i) \<le> 20" by (intro length_show_nat) simp_all
  then have "length (shard_reply i query) < max_line"
    using length_show_u64 [of "hits_of i query"] by (simp add: shard_reply_def max_line_def)
  moreover have "LF \<notin> set (shard_reply i query)" "CR \<notin> set (shard_reply i query)"
    by (simp_all add: shard_reply_def)
  ultimately show ?thesis by (simp add: sendable_def trim_no_CR)
qed

lemma shard_conn_serves:
  "segments f \<Longrightarrow> list_all sendable qs \<Longrightarrow> unread f = concat (map write_line qs) \<Longrightarrow>
   shard_conn (replicate (length qs) True) i f = map (\<lambda>q. write_line (shard_reply i q)) qs"
proof (induction qs arbitrary: f)
  case (Cons q qs)
  then obtain f1 where f1: "read_line f = (Inr (Some q), f1)" "segments f1" "unread f1 = concat (map write_line qs)"
    using lines.delivers [of f q] by auto
  then show ?case using Cons.IH [OF f1(2) _ f1(3)] Cons.prems(2) by simp
qed simp

text \<open>
  A pooled shard connection never mixes up its answers: whatever the segments queries and replies
  travel in, the queries sent over one connection, one after the other, are answered in their order,
  each with the reply to that very query, and nothing is left on the connection.
\<close>

theorem shard_answers_in_order:
  assumes "segments (backend :: 'e line)" and "list_all sendable qs" and "i < 2 ^ 64"
    and "unread backend = concat (map write_line qs)"
    and "segments (conn :: 'e line)"
    and "unread conn = concat (shard_conn (replicate (length qs) True) i backend)"
  shows "\<exists>conn'. read_msgs read_line (length qs) conn = (map (shard_reply i) qs, conn')
           \<and> unread conn' = [] \<and> healthy conn' = healthy conn"
proof -
  have "unread conn = concat (map write_line (map (shard_reply i) qs)) @ []"
    using shard_conn_serves [OF assms(1,2,4), of i] assms(6) by (simp add: comp_def)
  moreover have "list_all sendable (map (shard_reply i) qs)"
    using shard_reply_sendable [OF assms(3)] by (simp add: list_all_iff)
  ultimately show ?thesis using lines.reads_back [OF assms(5)] by fastforce
qed

theorem shard_answers_in_order_witness:
  "\<exists>conn'. read_msgs read_line (length [''ab'']) (line_new [Data ''shard2='', Data (''3'' @ [LF])] :: nat line) =
       (map (shard_reply 2) [''ab''], conn')
     \<and> unread conn' = [] \<and> healthy conn' = healthy (line_new [Data ''shard2='', Data (''3'' @ [LF])] :: nat line)"
proof (rule shard_answers_in_order [where backend = "line_new [Data ''a'', Data (''b'' @ [LF])]" and qs = "[''ab'']" and i = 2])
  show sg: "segments (line_new [Data ''a'', Data (''b'' @ [LF])] :: nat line)"
    "segments (line_new [Data ''shard2='', Data (''3'' @ [LF])] :: nat line)"
    by (simp_all add: segments_def line_new_def)
  show qs: "list_all sendable [''ab'']"
    by (simp add: sendable_def LF_def CR_def trim_end_matches_def max_line_def)
  show un: "unread (line_new [Data ''a'', Data (''b'' @ [LF])] :: nat line) = concat (map write_line [''ab''])"
    by (simp add: unread_def line_new_def write_line_def)
  have "shard_reply 2 ''ab'' = ''shard2=3''" by code_simp
  then show "unread (line_new [Data ''shard2='', Data (''3'' @ [LF])] :: nat line) =
      concat (shard_conn (replicate (length [''ab'']) True) 2 (line_new [Data ''a'', Data (''b'' @ [LF])] :: nat line))"
    using shard_conn_serves [OF sg(1) qs un, of 2] by (simp add: unread_def line_new_def write_line_def)
qed simp

section \<open>The merged answer\<close>

lemma length_gather [simp]: "length (gather i tasks) = length tasks"
  by (induction i tasks rule: gather.induct) simp_all

lemma nth_gather:
  "j < length tasks \<Longrightarrow> gather i tasks ! j = (case tasks ! j of Some reply \<Rightarrow> reply | None \<Rightarrow> err_part (i + j))"
proof (induction i tasks arbitrary: j rule: gather.induct)
  case (2 i reply tasks)
  then show ?case by (cases j) (simp_all split: option.split)
next
  case (3 i tasks)
  then show ?case by (cases j) (simp_all split: option.split)
qed simp

lemma query_shard_healthy: "query_shard got ok q = (r, Some c) \<Longrightarrow> healthy c \<Longrightarrow> r \<noteq> None"
  by (auto simp: query_shard_def split: option.splits if_splits prod.splits sum.splits)

lemma answered_round:
  "Answered line \<in> set (sg_handle_client rs client) \<Longrightarrow>
   \<exists>r q. r \<in> set rs \<and> q \<noteq> []
     \<and> sublist [Queried q (map snd (scatter r q)), Answered line] (sg_handle_client rs client)
     \<and> line = write_line (merged_line (gather 0 (map fst (scatter r q))) (elapsed_ms r))"
proof (induction rs client rule: sg_handle_client.induct)
  case (1 rs client)
  obtain q c1 where q: "read_line client = (Inr (Some q), c1)"
    using "1.prems"
    by (auto simp: sg_handle_client.simps [of rs client] dest: sym split: prod.splits sum.splits option.splits)
  show ?case
  proof (cases "q = []")
    case True
    then have eq: "sg_handle_client rs client = sg_handle_client rs c1" using q by (simp add: sg_handle_client.simps [of rs client])
    then show ?thesis using "1.IH"(1) [OF q [symmetric] refl refl True] "1.prems" by simp
  next
    case False
    then obtain r rs1 where rs: "rs = r # rs1"
      using "1.prems" q by (cases rs) (auto simp: sg_handle_client.simps [of "[]" client])
    let ?ts = "scatter r q"
    let ?now = "[Queried q (map snd ?ts), Answered (write_line (merged_line (gather 0 (map fst ?ts)) (elapsed_ms r)))]"
    let ?later = "if answer_ok r then sg_handle_client rs1 c1 else []"
    have run: "sg_handle_client rs client = ?now @ ?later"
      using q False rs by (simp add: sg_handle_client.simps [of "r # rs1" client] Let_def)
    show ?thesis
    proof (cases "Answered line \<in> set ?now")
      case True
      then show ?thesis unfolding run using rs False
        by (intro exI [of _ r] exI [of _ q]) (auto simp: sublist_appendI [of ?now "[]", simplified])
    next
      case no: False
      then have more: "answer_ok r" "Answered line \<in> set (sg_handle_client rs1 c1)"
        using "1.prems" unfolding run by (auto split: if_splits)
      have run': "sg_handle_client rs client = ?now @ sg_handle_client rs1 c1" using run more(1) by simp
      have later: "sublist xs (sg_handle_client rs1 c1) \<Longrightarrow> sublist xs (sg_handle_client rs client)" for xs
        unfolding run' by (rule sublist_order.order_trans [OF _ sublist_append_leftI])
      from "1.IH"(2) [OF q [symmetric] refl refl False rs refl refl more] later rs
      show ?thesis by (metis list.set_intros(2))
    qed
  qed
qed

text \<open>
  C37: Every answer the client gets is the merge of one scatter of one of its non-empty queries, made
  right before: it has one part per shard and in shard order, the part of a shard that failed being
  its error mark in its own place; and a shard connection goes back healthy only if it gave a reply.
\<close>

theorem answers_merge_in_shard_order:
  assumes "Answered line \<in> set (sg_handle_client rs (client :: 'e line))"
  shows "\<exists>r q parts. r \<in> set rs \<and> q \<noteq> []
     \<and> sublist [Queried q (map snd (scatter r q)), Answered line] (sg_handle_client rs client)
     \<and> line = write_line (merged_line parts (elapsed_ms r)) \<and> length parts = length (leases r)
     \<and> (\<forall>i < length parts. parts ! i = (case fst (scatter r q ! i) of Some reply \<Rightarrow> reply | None \<Rightarrow> err_part i))
     \<and> (\<forall>i < length parts. case scatter r q ! i of (None, Some c) \<Rightarrow> \<not> healthy c | _ \<Rightarrow> True)"
proof -
  obtain r q where r: "r \<in> set rs" "q \<noteq> []"
    "sublist [Queried q (map snd (scatter r q)), Answered line] (sg_handle_client rs client)"
    "line = write_line (merged_line (gather 0 (map fst (scatter r q))) (elapsed_ms r))"
    using answered_round [OF assms] by blast
  let ?parts = "gather 0 (map fst (scatter r q))"
  have len: "length ?parts = length (leases r)" by (simp add: scatter_def)
  have "\<not> healthy c" if "i < length ?parts" "scatter r q ! i = (None, Some c)" for i c
    using that query_shard_healthy [of "fst (leases r ! i)" "snd (leases r ! i)" q None c]
    by (auto simp: scatter_def case_prod_beta)
  moreover have "?parts ! i = (case fst (scatter r q ! i) of Some reply \<Rightarrow> reply | None \<Rightarrow> err_part i)"
    if "i < length ?parts" for i
    using that nth_gather [of i "map fst (scatter r q)" 0] by (simp split: option.split)
  ultimately show ?thesis using r len
    by (intro exI [of _ r] exI [of _ q] exI [of _ ?parts]) (auto split: prod.splits option.splits)
qed

definition sample_round :: "nat query_round" where
  "sample_round =
     \<lparr>leases = [(Some (line_new [Data (''s0=1'' @ [LF])]), True), (None, True)], elapsed_ms = ''5.0'', answer_ok = True\<rparr>"

lemma sample_run:
  "sg_handle_client [sample_round] (line_new [Data (''q'' @ [LF])]) =
     [Queried ''q'' [Some (line_new []), None], Answered (''s0=1 shard1=ERR | 2 shards in 5.0ms'' @ [LF])]"
proof -
  have s: "read_line (line_new [Data (''s0=1'' @ [LF])] :: nat line) = (Inr (Some ''s0=1''), line_new [])"
    and q: "read_line (line_new [Data (''q'' @ [LF])] :: nat line) = (Inr (Some ''q''), line_new [])"
    and e: "read_line (line_new [] :: nat line) = (Inr None, line_new [])"
    by (simp_all add: read_line.simps read_more_def line_new_def LF_def CR_def trim_end_matches_def max_line_def)
  have n: "show_nat (Suc 0) = ''1''" "show_nat (Suc (Suc 0)) = ''2''" by code_simp+
  show ?thesis
    by (simp add: sg_handle_client.simps q [simplified] e scatter_def sample_round_def query_shard_def s [simplified] merged_line_def
        write_line_def err_part_def n Let_def)
qed

theorem answers_merge_in_shard_order_witness:
  "\<exists>r q parts. r \<in> set [sample_round] \<and> q \<noteq> []
     \<and> sublist [Queried q (map snd (scatter r q)), Answered (''s0=1 shard1=ERR | 2 shards in 5.0ms'' @ [LF])]
         (sg_handle_client [sample_round] (line_new [Data (''q'' @ [LF])]))
     \<and> ''s0=1 shard1=ERR | 2 shards in 5.0ms'' @ [LF] = write_line (merged_line parts (elapsed_ms r))
     \<and> length parts = length (leases r)"
proof -
  have "Answered (''s0=1 shard1=ERR | 2 shards in 5.0ms'' @ [LF])
      \<in> set (sg_handle_client [sample_round] (line_new [Data (''q'' @ [LF])]))"
    unfolding sample_run by simp
  from answers_merge_in_shard_order [OF this] show ?thesis by blast
qed

end
