(* ===== verification/Echo.thy ===== *)
theory Echo
  imports Streams
begin

text \<open>
  The echo servers: \<open>src/examples/echo.rs\<close>, whose pooled resource is the read buffer;
  \<open>src/examples/tcp_pool.rs\<close>, which forwards each request over a pooled upstream to an echo backend; and
  the tokio relay and fan-out of \<open>src/crates/deadpool-baseline/examples\<close>, which hold an upstream, or a set
  of them, for the life of a connection.
\<close>

section \<open>The pooled buffer\<close>

text \<open>A buffer is the room it has and the bytes in it.\<close>

record buffer =
  room :: nat
  filled :: string

definition buffer_connect :: buffer where
  "buffer_connect = \<lparr>room = 16 * 1024, filled = []\<rparr>"

definition buffer_has_broken :: "buffer \<Rightarrow> bool \<times> buffer" where
  "buffer_has_broken c = (False, c)"

definition buffer_is_valid :: "buffer \<Rightarrow> 'e io_error option" where
  "buffer_is_valid c = None"

text \<open>
  \<open>serve\<close> from the lease on: per turn, what the read returns and whether the write goes through. The
  buffer is taken out of the lease for a read and a write and put back after; when the script ends the
  peer has closed.
\<close>

fun echo_serve :: "('e chunk \<times> bool) list \<Rightarrow> buffer \<Rightarrow> string list \<times> buffer" where
  "echo_serve [] lease = ([], lease\<lparr>filled := []\<rparr>)"
| "echo_serve ((ReadFailed e, write_ok) # turns) lease = ([], lease\<lparr>filled := []\<rparr>)"
| "echo_serve ((Data bs, write_ok) # turns) lease =
     (let taken = lease\<lparr>filled := []\<rparr>;
          buf1 = taken\<lparr>filled := bs\<rparr>
      in if bs = [] then ([], buf1)
         else if \<not> write_ok then ([], buf1)
         else (let (out, lease1) = echo_serve turns buf1 in (bs # out, lease1)))"

section \<open>A pooled upstream per request\<close>

record upstream =
  up_in :: string
  up_healthy :: bool

definition backend_connect :: upstream where
  "backend_connect = \<lparr>up_in = [], up_healthy = True\<rparr>"

definition backend_is_valid :: "upstream \<Rightarrow> 'e io_error option" where
  "backend_is_valid c = (if up_healthy c then None else Some (BrokenPipe ''upstream marked dead''))"

definition backend_has_broken :: "upstream \<Rightarrow> bool \<times> upstream" where
  "backend_has_broken c = (\<not> up_healthy c, c)"

record 'e tcp_turn =
  client_read :: "'e chunk"
  leased :: "upstream option"
  up_write_ok :: bool
  answered :: string
  client_write_ok :: bool

datatype tcp_event = Sent_up string | Given_back upstream | Sent_client string

text \<open>One leased round trip: \<open>answered\<close> is what the backend sends once the request has reached it.\<close>

definition round_trip :: "'e tcp_turn \<Rightarrow> string \<Rightarrow> upstream \<Rightarrow> string option \<times> upstream" where
  "round_trip t req up =
     (if \<not> up_write_ok t then (None, up\<lparr>up_healthy := False\<rparr>)
      else
        (let arrived = up_in up @ answered t
         in if length arrived < length req then (None, \<lparr>up_in = [], up_healthy = False\<rparr>)
            else (Some (take (length req) arrived), up\<lparr>up_in := drop (length req) arrived\<rparr>)))"

fun tcp_serve :: "'e tcp_turn list \<Rightarrow> tcp_event list" where
  "tcp_serve [] = []"
| "tcp_serve (t # ts) =
     (case client_read t of
        ReadFailed e \<Rightarrow> []
      | Data req \<Rightarrow>
          if req = [] then []
          else
            (case leased t of
               None \<Rightarrow> []
             | Some up \<Rightarrow>
                 (case round_trip t req up of
                    (None, up1) \<Rightarrow> [Sent_up req, Given_back up1]
                  | (Some reply, up1) \<Rightarrow>
                      [Sent_up req, Given_back up1, Sent_client reply] @ (if client_write_ok t then tcp_serve ts else []))))"

section \<open>Relays of the tokio baseline\<close>

text \<open>
  \<open>relay.rs\<close>: a request goes up and whatever one read returns comes back; \<open>reply\<close> is that read.
\<close>

record 'e relay_turn =
  relay_read :: "'e chunk"
  relay_up_ok :: bool
  relay_reply :: "'e chunk"
  relay_client_ok :: bool

fun relay_handle :: "'e relay_turn list \<Rightarrow> string list \<times> string list" where
  "relay_handle [] = ([], [])"
| "relay_handle (t # ts) =
     (case relay_read t of
        ReadFailed e \<Rightarrow> ([], [])
      | Data req \<Rightarrow>
          if req = [] \<or> \<not> relay_up_ok t then ([], [])
          else
            (case relay_reply t of
               ReadFailed e \<Rightarrow> ([req], [])
             | Data reply \<Rightarrow>
                 if reply = [] \<or> \<not> relay_client_ok t then ([req], [])
                 else (let (ups, downs) = relay_handle ts in (req # ups, reply # downs))))"

text \<open>
  \<open>fanout.rs\<close>: the request goes to every upstream in turn, one read is taken from each, and the request
  itself is echoed. The first failure ends the connection.
\<close>

record 'e fan_turn =
  fan_read :: "'e chunk"
  fan_writes :: "bool list"
  fan_replies :: "'e chunk list"
  fan_client_ok :: bool

definition reply_arrived :: "'e chunk \<Rightarrow> bool" where
  "reply_arrived c = (case c of Data bs \<Rightarrow> bs \<noteq> [] | ReadFailed e \<Rightarrow> False)"

fun fanout_handle :: "'e fan_turn list \<Rightarrow> string list" where
  "fanout_handle [] = []"
| "fanout_handle (t # ts) =
     (case fan_read t of
        ReadFailed e \<Rightarrow> []
      | Data req \<Rightarrow>
          if req = [] \<or> \<not> list_all (\<lambda>ok. ok) (fan_writes t) \<or> \<not> list_all reply_arrived (fan_replies t)
             \<or> \<not> fan_client_ok t
          then []
          else req # fanout_handle ts)"

section \<open>What comes back is what was sent\<close>

lemma echo_serve_echoes: "echo_serve (map (\<lambda>bs. (Data bs, True)) css) lease = (out, lease') \<Longrightarrow>
    list_all (\<lambda>bs. bs \<noteq> []) css \<Longrightarrow> out = css \<and> room lease' = room lease"
  by (induction css arbitrary: lease out) (auto simp: Let_def split: prod.splits)

text \<open>However a connection ends, its buffer is back in the lease with the room it had.\<close>

lemma echo_serve_keeps_buffer: "room (snd (echo_serve turns lease)) = room lease"
  by (induction turns lease rule: echo_serve.induct) (auto simp: Let_def split: prod.splits)

lemma round_trip_clean:
  "round_trip t req up = (r, up1) \<Longrightarrow> up_healthy up1 \<Longrightarrow> up_in up = [] \<Longrightarrow> length (answered t) = length req \<Longrightarrow>
   r = Some (answered t) \<and> up_in up1 = [] \<and> up_healthy up"
  by (auto simp: round_trip_def Let_def split: if_splits)

text \<open>
  Over clean upstreams to a backend that answers a request with as many bytes, an upstream given back
  healthy is clean again, and its answer is the one the client is sent: no crosstalk between clients.
\<close>

lemma tcp_serve_no_crosstalk:
  assumes "list_all (\<lambda>t. case (client_read t, leased t) of
      (Data req, Some up) \<Rightarrow> up_in up = [] \<and> length (answered t) = length req | _ \<Rightarrow> True) ts"
    and "Given_back up1 \<in> set (tcp_serve ts)" and "up_healthy up1"
  shows "up_in up1 = [] \<and> (\<exists>t. t \<in> set ts \<and> sublist [Given_back up1, Sent_client (answered t)] (tcp_serve ts))"
  using assms
proof (induction ts)
  case (Cons t ts)
  obtain req up where req: "client_read t = Data req" "req \<noteq> []" and up: "leased t = Some up"
    using Cons.prems(2) by (cases "client_read t"; cases "leased t") (auto split: if_splits)
  have clean: "up_in up = []" "length (answered t) = length req" using Cons.prems(1) req up by simp_all
  obtain r up' where rt: "round_trip t req up = (r, up')" by (cases "round_trip t req up")
  let ?later = "if client_write_ok t then tcp_serve ts else []"
  have run: "tcp_serve (t # ts) =
      (case r of None \<Rightarrow> [Sent_up req, Given_back up'] | Some reply \<Rightarrow> [Sent_up req, Given_back up', Sent_client reply] @ ?later)"
    using req up rt by (simp split: option.splits)
  show ?case
  proof (cases "up1 = up'")
    case True
    then have "r = Some (answered t)" "up_in up1 = []"
      using round_trip_clean [OF rt _ clean] Cons.prems(3) by auto
    moreover from this(1) have "sublist [Given_back up1, Sent_client (answered t)] (tcp_serve (t # ts))"
      unfolding run True sublist_def by (intro exI [of _ "[Sent_up req]"] exI [of _ ?later]) simp
    ultimately show ?thesis by (metis list.set_intros(1))
  next
    case False
    then obtain reply where r: "r = Some reply" and w: "client_write_ok t" "Given_back up1 \<in> set (tcp_serve ts)"
      using Cons.prems(2) unfolding run by (auto split: option.splits if_splits)
    have "tcp_serve (t # ts) = [Sent_up req, Given_back up', Sent_client reply] @ tcp_serve ts"
      unfolding run using r w(1) by simp
    then have later: "sublist xs (tcp_serve ts) \<Longrightarrow> sublist xs (tcp_serve (t # ts))" for xs
      by (simp only: sublist_order.order_trans [OF _ sublist_append_leftI])
    show ?thesis using Cons.IH [OF _ w(2) Cons.prems(3)] Cons.prems(1) later by (auto simp del: tcp_serve.simps)
  qed
qed simp

text \<open>Each request a fan-out echoes reached every upstream and was answered by every one.\<close>

lemma fanout_echo_complete:
  "req \<in> set (fanout_handle ts) \<Longrightarrow>
   \<exists>t. t \<in> set ts \<and> fan_read t = Data req \<and> list_all (\<lambda>ok. ok) (fan_writes t) \<and> list_all reply_arrived (fan_replies t)"
proof (induction ts)
  case (Cons t ts)
  then show ?case by (cases "fan_read t") (auto split: if_splits)
qed simp

end
