(* ===== verification/Leasing.thy ===== *)
theory Leasing
  imports Thread_Runs Http_Proxy Scatter_Gather Echo
begin

text \<open>
  The pool and its managers together. A \<open>ManageConnection\<close> implementation decides when a connection may
  go back to the pool; the pool decides which connections a later checkout gets. The locale
  \<open>managed_resource\<close> is the contract between the two: what \<open>connect\<close> opens is fit, \<open>is_valid\<close> leaves a
  connection fit when it accepts it, the holder of a lease keeps it \<open>usable\<close>, and a usable connection
  that \<open>has_broken\<close> lets through is fit again. From it, whatever the interleaving of a thread's calls,
  every idle connection is fit and so is every connection handed out. The managers of \<open>http_proxy.rs\<close>,
  \<open>scatter_gather.rs\<close>, \<open>tcp_pool.rs\<close> and \<open>echo.rs\<close> interpret it.
\<close>

section \<open>Runs under a manager\<close>

text \<open>What the code outside the pool may do to a connection: open it, check it, use it.\<close>

record 'c manager =
  opened :: "'c \<Rightarrow> bool"
  checked :: "'c \<Rightarrow> bool \<Rightarrow> 'c \<Rightarrow> bool"
  used :: "'c \<Rightarrow> 'c \<Rightarrow> bool"

fun task_conn :: "('c, 'e) task \<Rightarrow> 'c conn option" where
  "task_conn (GetValidating h start waited) = h_conn h"
| "task_conn (GetConnecting h start waited) = h_conn h"
| "task_conn (TryValidating h) = h_conn h"
| "task_conn (TryConnecting h) = h_conn h"
| "task_conn (WarmConnecting h made) = h_conn h"
| "task_conn (Leased p) = p_conn p"
| "task_conn t = None"

fun signal_fits :: "'c manager \<Rightarrow> ('c, 'e) signal \<Rightarrow> ('c, 'e) task \<Rightarrow> bool" where
  "signal_fits m (Connected r) t = opened m r"
| "signal_fits m (Validity r ok) t =
     (case task_conn t of Some c \<Rightarrow> checked m (raw c) ok r | None \<Rightarrow> True)"
| "signal_fits m (Use r) t = (case task_conn t of Some c \<Rightarrow> used m (raw c) r | None \<Rightarrow> True)"
| "signal_fits m sig t = True"

fun event_fits :: "'c manager \<Rightarrow> ('c, 'e) event \<Rightarrow> ('c, 'e) thread \<Rightarrow> bool" where
  "event_fits m (OnTask i t1 t2 sig) th =
     (if i < length (th_tasks th) then signal_fits m sig (th_tasks th ! i) else True)"
| "event_fits m e th = True"

text \<open>The connection a step of call \<open>i\<close> leaves it holding a lease on, if it had none before.\<close>

definition handed_out :: "nat \<Rightarrow> ('c, 'e) thread \<Rightarrow> ('c, 'e) thread \<Rightarrow> 'c conn option" where
  "handed_out i th th' =
     (case th_tasks th ! i of
        Leased p \<Rightarrow> None
      | _ \<Rightarrow> (case th_tasks th' ! i of Leased p \<Rightarrow> p_conn p | _ \<Rightarrow> None))"

inductive managed_run ::
  "'c has_broken \<Rightarrow> 'c manager \<Rightarrow> ('c, 'e) thread \<Rightarrow> ('c, 'e) thread \<Rightarrow> bool" for hb m th0 where
  managed_start: "managed_run hb m th0 th0"
| managed_step: "managed_run hb m th0 th \<Longrightarrow> event_fits m e th \<Longrightarrow> thread_step hb e th = Some th'
    \<Longrightarrow> managed_run hb m th0 th'"

section \<open>The contract\<close>

locale managed_resource =
  fixes hb :: "'c has_broken" and m :: "'c manager" and fit :: "'c \<Rightarrow> bool" and usable :: "'c \<Rightarrow> bool"
  assumes fit_opened: "opened m r \<Longrightarrow> fit r"
    and fit_checked: "fit c \<Longrightarrow> checked m c True r \<Longrightarrow> fit r"
    and fit_usable: "fit c \<Longrightarrow> usable c"
    and usable_used: "usable c \<Longrightarrow> used m c r \<Longrightarrow> usable r"
    and fit_returned: "usable c \<Longrightarrow> hb c = (False, r) \<Longrightarrow> fit r"
begin

definition fit_conn :: "'c conn option \<Rightarrow> bool" where
  "fit_conn x \<longleftrightarrow> (case x of Some c \<Rightarrow> fit (raw c) | None \<Rightarrow> True)"

definition all_fit :: "('c, nat) inner \<Rightarrow> bool" where
  "all_fit s \<longleftrightarrow> (\<forall>c \<in> set (idle s). fit (raw c))"

text \<open>A connection outside the idle list is fit; a lease in use need only be usable.\<close>

definition task_fit :: "('c, 'e) task \<Rightarrow> bool" where
  "task_fit t \<longleftrightarrow>
     (case t of
        Leased p \<Rightarrow> (case p_conn p of Some c \<Rightarrow> usable (raw c) | None \<Rightarrow> True)
      | _ \<Rightarrow> fit_conn (task_conn t))"

definition fresh :: "('c, 'e) task \<times> ('c, nat) inner \<Rightarrow> bool" where
  "fresh x \<longleftrightarrow> fit_conn (task_conn (fst x)) \<and> all_fit (snd x)"

lemma fresh_pair [simp]: "fresh (t, s) \<longleftrightarrow> fit_conn (task_conn t) \<and> all_fit s"
  by (simp add: fresh_def)

lemma fit_conn_simps [simp]: "fit_conn None" "fit_conn (Some c) = fit (raw c)"
  by (simp_all add: fit_conn_def)

lemma all_fit_idle: "idle s' = idle s \<Longrightarrow> all_fit s' = all_fit s"
  by (simp add: all_fit_def)

lemma all_fit_same [simp]:
  "all_fit (observe f s) = all_fit s" "all_fit (notify sh n s) = all_fit s"
  "all_fit (release_slots n s) = all_fit s" "all_fit (release_slot sh s) = all_fit s"
  "all_fit (note_expired reason s) = all_fit s" "all_fit (note_created s) = all_fit s"
  "all_fit (note_broken s) = all_fit s" "all_fit (note_closed_manual n s) = all_fit s"
  "all_fit (note_timed_out s) = all_fit s" "all_fit (record_acquire w a b s) = all_fit s"
  "all_fit (held_drop sh h s) = all_fit s" "all_fit (wait_ready_drop wr s) = all_fit s"
  "all_fit (take_slot s) = all_fit s" "all_fit (s\<lparr>waiters := q\<rparr>) = all_fit s"
  by (simp_all add: all_fit_def release_slots_def note_expired_def note_created_def note_broken_def
      note_closed_manual_def note_timed_out_def record_acquire_def held_drop_def wait_ready_drop_sel
      take_slot_def)

lemma all_fit_push_idle: "all_fit (push_idle c s) \<longleftrightarrow> fit (raw c) \<and> all_fit s"
  by (auto simp: all_fit_def push_idle_def vec_push_def)

lemma fit_pop_idle: "pop_idle s = (r, s') \<Longrightarrow> all_fit s \<Longrightarrow> fit_conn r \<and> all_fit s'"
  by (auto simp: all_fit_def pop_idle_def dest!: vec_pop_SomeD split: prod.splits option.splits)

lemma fit_pop_fresh_idle:
  "pop_fresh_idle sh now s = (r, s') \<Longrightarrow> all_fit s \<Longrightarrow>
   (\<forall>h. r = Some h \<longrightarrow> fit_conn (h_conn h)) \<and> all_fit s'"
proof (induction sh now s rule: pop_fresh_idle.induct)
  case (1 sh now s)
  obtain c s1 where p: "pop_idle s = (c, s1)" by (cases "pop_idle s")
  with fit_pop_idle [OF p "1.prems"(2)] "1.prems"(1) "1.IH" [OF p [symmetric]] show ?case
    by (auto simp: pop_fresh_idle.simps [of sh now s] split: option.splits)
qed

lemma fit_try_reserve: "try_reserve sh s = Some (h, s') \<Longrightarrow> h_conn h = None \<and> all_fit s' = all_fit s"
  by (auto simp: try_reserve_def Let_def split: if_splits)

lemma fresh_hand_out [simp]:
  "fresh (hand_out sh waited start now h s) \<longleftrightarrow> fit_conn (h_conn h) \<and> all_fit s"
  by (simp add: fresh_def hand_out_eq)

lemma all_fit_wait_ready_poll: "wait_ready_poll sh w wr s = (r, wr', s') \<Longrightarrow> all_fit s' = all_fit s"
  using wait_ready_poll_sel(1) [of sh w wr s] by (simp add: all_fit_def)

lemma fresh_get_wait: "all_fit s \<Longrightarrow> fresh (get_wait sh w t1 t2 start waited wr s :: ('c, 'e) task \<times> _)"
proof (induction sh w t1 t2 start waited wr s rule: get_wait.induct)
  case (1 sh w t1 t2 start waited wr s)
  obtain a wr' s1 where p: "wait_ready_poll sh w wr s = (a, wr', s1)" by (cases "wait_ready_poll sh w wr s")
  obtain g s2 where q: "pop_fresh_idle sh t1 (wait_ready_drop wr' s1) = (g, s2)"
    by (cases "pop_fresh_idle sh t1 (wait_ready_drop wr' s1)")
  have s1: "all_fit s1" using all_fit_wait_ready_poll [OF p] "1.prems" by simp
  then have g: "g = Some h \<Longrightarrow> fit_conn (h_conn h)" and s2: "all_fit s2" for h
    using fit_pop_fresh_idle [OF q] by simp_all
  show ?case
  proof (cases "\<not> closed sh \<and> a \<noteq> None \<and> g = None \<and> try_reserve sh s2 = None")
    case True
    then obtain b where "a = Some b" by blast
    with "1.IH" [OF p [symmetric] this refl _ q [symmetric]] True p q s2 show ?thesis
      by (simp add: get_wait.simps [of sh w t1 t2 start waited wr s])
  next
    case False
    then show ?thesis
      using p q s1 s2 g fit_try_reserve [of sh s2]
      by (auto simp: get_wait.simps [of sh w t1 t2 start waited wr s] split: option.split)
  qed
qed

lemma fresh_get_loop: "all_fit s \<Longrightarrow> fresh (get_loop sh w t1 t2 start waited s)"
  by (simp add: get_loop_def fresh_get_wait)

lemma fresh_get_start: "all_fit s \<Longrightarrow> fresh (get_start sh w t1 t2 s)"
  using fit_pop_fresh_idle [of sh t1 s]
  by (cases "pop_fresh_idle sh t1 s") (auto simp: get_start_def fresh_get_loop split: option.split)

lemma fresh_try_loop: "all_fit s \<Longrightarrow> fresh (try_loop sh t1 t2 s)"
  using fit_pop_fresh_idle [of sh t1 s]
  by (cases "pop_fresh_idle sh t1 s")
    (auto simp: try_loop_def dest: fit_try_reserve split: option.split)

lemma fresh_warm_loop: "all_fit s \<Longrightarrow> fresh (warm_loop sh made s)"
  by (auto simp: warm_loop_def dest: fit_try_reserve split: option.split)

lemma all_fit_into_idle: "all_fit s \<Longrightarrow> fit_conn (h_conn h) \<Longrightarrow> all_fit (into_idle sh now h s)"
  by (cases "h_conn h") (simp_all add: into_idle_def Let_def all_fit_push_idle)

lemma all_fit_reap: "all_fit s \<Longrightarrow> all_fit (snd (reap sh now s))"
  by (auto simp: reap_def reap_scan_eq Let_def) (auto simp: all_fit_def)

lemma all_fit_clear: "all_fit (snd (clear sh s))"
  by (auto simp: clear_def Let_def) (auto simp: all_fit_def)

lemma all_fit_pooled_drop:
  assumes "all_fit s" and "task_fit (Leased p :: ('c, 'e) task)"
  shows "all_fit (pooled_drop hb sh n1 n2 p s)"
  using assms fit_returned
  by (auto simp: pooled_drop_def task_fit_def Let_def all_fit_push_idle split: option.split prod.split)

definition is_use :: "('c, 'e) signal \<Rightarrow> bool" where
  "is_use sig \<longleftrightarrow> (case sig of Use r \<Rightarrow> True | _ \<Rightarrow> False)"

lemma fresh_validated:
  assumes "all_fit s" and "fit_conn (h_conn h)" and "ok \<Longrightarrow> h_conn h \<noteq> None \<Longrightarrow> fit r"
  shows "fresh (get_validated sh w t1 t2 r ok h start waited s)" and "fresh (try_validated sh t1 t2 r ok h s)"
  using assms
  by (cases "h_conn h"; simp add: get_validated_def try_validated_def fresh_get_loop fresh_try_loop set_raw_def)+

lemma validity_fits:
  "signal_fits m (Validity r True) t \<Longrightarrow> fit_conn (task_conn t) \<Longrightarrow> task_conn t \<noteq> None \<Longrightarrow> fit r"
  using fit_checked by (auto split: option.splits)

lemma fresh_connected:
  assumes "all_fit s" and "fit r"
  shows "fresh (get_connected sh t1 t2 r h start waited s)" and "fresh (try_connected sh t1 t2 r h s)"
    and "fresh (warm_connected sh t1 t2 r h made s)"
  using assms
  by (simp_all add: get_connected_def try_connected_def warm_connected_def fill_def fresh_warm_loop all_fit_into_idle)

lemma fresh_resume: "on_resume sh w t1 t2 t s = Some x \<Longrightarrow> all_fit s \<Longrightarrow> fresh x"
  by (cases t)
    (auto simp: on_resume_def fresh_get_start fresh_get_wait fresh_get_loop try_start_def fresh_try_loop
      warm_start_def maintain_start_def fresh_warm_loop all_fit_reap)

lemma fresh_drop:
  assumes "on_drop hb sh t1 t2 t s = Some x" and "all_fit s" and "task_fit t"
  shows "fresh x"
  using assms by (cases t) (auto simp: on_drop_def all_fit_pooled_drop)

text \<open>Every step but a use leaves the task it ran with a fit connection, or none.\<close>

lemma task_step_fresh:
  assumes "task_step hb sh w t1 t2 sig t s = Some x" and "all_fit s" and "task_fit t"
    and "signal_fits m sig t" and "\<not> is_use sig"
  shows "fresh x"
proof (cases sig)
  case (Validity r ok)
  with assms validity_fits [of r t] show ?thesis
    by (cases t) (auto simp: on_validity_def task_fit_def intro!: fresh_validated)
next
  case (Connected r)
  with assms fit_opened [of r] show ?thesis
    by (cases t) (auto simp: on_connected_def fresh_connected)
next
  case Elapsed
  with assms show ?thesis by (cases t) (auto simp: on_elapsed_def)
qed (use assms in \<open>auto simp: is_use_def fresh_resume fresh_drop on_connect_failed_def get_connect_failed_def
  on_take_def pooled_take_def split: task.splits if_splits\<close>)

lemma fresh_task_fit: "fresh (t, s) \<Longrightarrow> task_fit t \<and> all_fit s"
  using fit_usable by (auto simp: task_fit_def fit_conn_def split: task.splits option.splits)

lemma task_step_fit:
  assumes "task_step hb sh w t1 t2 sig t s = Some (t', s')" and "all_fit s" and "task_fit t"
    and "signal_fits m sig t"
  shows "task_fit t' \<and> all_fit s'"
proof (cases "is_use sig")
  case True
  then obtain r where "sig = Use r" by (auto simp: is_use_def split: signal.splits)
  with assms usable_used show ?thesis
    by (cases t) (auto simp: on_use_def task_fit_def pooled_deref_mut_def split: option.splits)
next
  case False
  show ?thesis using task_step_fresh [OF assms False] by (rule fresh_task_fit)
qed

section \<open>Runs\<close>

definition fit_thread :: "('c, 'e) thread \<Rightarrow> bool" where
  "fit_thread th \<longleftrightarrow> all_fit (th_pool th) \<and> (\<forall>t \<in> set (th_tasks th). task_fit t)"

lemma fit_thread_new: "fit_thread (thread_new cfg features)"
  by (simp add: fit_thread_def thread_new_def local_pool_new_def all_fit_def)

lemma thread_step_fit:
  assumes "fit_thread th" and "event_fits m e th" and "thread_step hb e th = Some th'"
  shows "fit_thread th'"
proof (cases e)
  case (OnTask i t1 t2 sig)
  with assms obtain t s where i: "i < length (th_tasks th)"
    and st: "task_step hb (th_shared th) i t1 t2 sig (th_tasks th ! i) (th_pool th) = Some (t, s)"
    and th': "th' = th\<lparr>th_pool := s, th_tasks := (th_tasks th)[i := t]\<rparr>"
    by (auto split: if_splits)
  have "task_fit t \<and> all_fit s"
    using task_step_fit [OF st] assms(1,2) i OnTask by (auto simp: fit_thread_def)
  then show ?thesis
    using assms(1) set_update_subset_insert [of "th_tasks th" i t] by (auto simp: fit_thread_def th')
next
  case (Call c)
  with assms show ?thesis by (cases c) (auto simp: fit_thread_def task_fit_def)
qed (use assms in \<open>auto simp: fit_thread_def all_fit_reap all_fit_clear\<close>)

lemma managed_run_fit: "managed_run hb m th0 th \<Longrightarrow> fit_thread th0 \<Longrightarrow> fit_thread th"
  by (induction rule: managed_run.induct) (auto intro: thread_step_fit)

text \<open>What a run guarantees: every idle connection is fit, and so is the one a step hands out.\<close>

lemma idle_are_fit:
  assumes "managed_run hb m (thread_new cfg features) (th :: ('c, 'e) thread)" and "c \<in> set (idle (th_pool th))"
  shows "fit (raw c)"
  using managed_run_fit [OF assms(1) fit_thread_new] assms(2) by (auto simp: fit_thread_def all_fit_def)

lemma handed_out_fit:
  assumes run: "managed_run hb m (thread_new cfg features) (th :: ('c, 'e) thread)"
    and sig: "event_fits m (OnTask i t1 t2 sig) th" and step: "thread_step hb (OnTask i t1 t2 sig) th = Some th'"
    and got: "handed_out i th th' = Some c"
  shows "fit (raw c)"
proof -
  obtain t s where i: "i < length (th_tasks th)"
    and st: "task_step hb (th_shared th) i t1 t2 sig (th_tasks th ! i) (th_pool th) = Some (t, s)"
    and th': "th' = th\<lparr>th_pool := s, th_tasks := (th_tasks th)[i := t]\<rparr>"
    using step by (auto split: if_splits)
  have "\<not> is_use sig" using st got by (auto simp: handed_out_def is_use_def on_use_def split: signal.splits task.splits)
  then have "fresh (t, s)"
    using task_step_fresh [OF st] managed_run_fit [OF run fit_thread_new] sig i by (auto simp: fit_thread_def)
  with got i th' show ?thesis by (auto simp: handed_out_def split: task.splits)
qed

end

section \<open>The managers of the examples\<close>

text \<open>
  \<open>http_proxy.rs\<close>: \<open>connect\<close> wraps a new stream, \<open>is_valid\<close> only looks, and a lease is used for one
  exchange after another. An upstream is fit when it is healthy and nothing is left in its buffer.
\<close>

definition http_manager :: "'e framed manager" where
  "http_manager =
     \<lparr>opened = (\<lambda>r. r = framed_new (stream r)),
      checked = (\<lambda>c ok r. r = c \<and> ok = (origin_is_valid c = None)),
      used = (\<lambda>c r. \<exists>t request. r = snd (exchange t request c))\<rparr>"

definition clean_upstream :: "'e framed \<Rightarrow> bool" where
  "clean_upstream c \<longleftrightarrow> healthy c \<and> buf c = []"

lemma exchange_leaves: "healthy (snd (exchange t request c)) \<Longrightarrow> buf (snd (exchange t request c)) = []"
  using exchange_Some [of t request c] exchange_None [of t request c]
  by (cases "exchange t request c"; cases "fst (exchange t request c)") auto

interpretation http_pool:
  managed_resource origin_has_broken http_manager clean_upstream "\<lambda>c :: 'e framed. healthy c \<longrightarrow> buf c = []"
proof unfold_locales
  fix r :: "'e framed"
  assume "opened http_manager r"
  then have "r = framed_new (stream r)" by (simp add: http_manager_def)
  then show "clean_upstream r" by (metis clean_upstream_def framed.select_convs(2,3) framed_new_def)
qed (auto simp: http_manager_def clean_upstream_def origin_has_broken_def exchange_leaves)

text \<open>
  \<open>scatter_gather.rs\<close> and \<open>tcp_pool.rs\<close> only flag a connection whose round trip failed: a fit one is a
  healthy one.
\<close>

definition shard_manager :: "'e line manager" where
  "shard_manager =
     \<lparr>opened = (\<lambda>r. r = line_new (stream r)),
      checked = (\<lambda>c ok r. r = c \<and> ok = (shard_is_valid c = None)),
      used = (\<lambda>c r. \<exists>write_ok query. Some r = snd (query_shard (Some c) write_ok query))\<rparr>"

definition healthy_line :: "'e line \<Rightarrow> bool" where
  "healthy_line c = healthy c"

interpretation shard_pool: managed_resource shard_has_broken shard_manager healthy_line "\<lambda>c :: 'e line. True"
proof unfold_locales
  fix r :: "'e line"
  assume "opened shard_manager r"
  then have "r = line_new (stream r)" by (simp add: shard_manager_def)
  then show "healthy_line r" by (metis framed.select_convs(3) line_new_def healthy_line_def)
qed (auto simp: shard_manager_def healthy_line_def shard_has_broken_def)

definition backend_manager :: "upstream manager" where
  "backend_manager =
     \<lparr>opened = (\<lambda>r. r = backend_connect),
      checked = (\<lambda>c ok r. r = c \<and> ok = (backend_is_valid c = (None :: unit io_error option))),
      used = (\<lambda>c r. \<exists>(t :: unit tcp_turn) req. r = snd (round_trip t req c))\<rparr>"

interpretation backend_pool: managed_resource backend_has_broken backend_manager up_healthy "\<lambda>c. True"
  by unfold_locales (auto simp: backend_manager_def backend_has_broken_def backend_connect_def)

text \<open>\<open>echo.rs\<close>: a buffer is never invalid nor broken, and serving a connection keeps its room.\<close>

definition buffer_manager :: "buffer manager" where
  "buffer_manager =
     \<lparr>opened = (\<lambda>r. r = buffer_connect),
      checked = (\<lambda>c ok r. r = c \<and> ok = (buffer_is_valid c = (None :: unit io_error option))),
      used = (\<lambda>c r. \<exists>turns :: (unit chunk \<times> bool) list. r = snd (echo_serve turns c))\<rparr>"

definition full_room :: "buffer \<Rightarrow> bool" where
  "full_room c \<longleftrightarrow> room c = 16 * 1024"

interpretation buffer_pool: managed_resource buffer_has_broken buffer_manager full_room full_room
  by unfold_locales
    (auto simp: buffer_manager_def buffer_has_broken_def buffer_connect_def full_room_def echo_serve_keeps_buffer)

section \<open>What a checkout gets\<close>

text \<open>
  C15: The pool and the proxy's manager keep clients apart. In any run of a thread of \<open>http_proxy.rs\<close>, with
  calls, exchanges, cancellations, maintenance and shutdown interleaved in any way, every idle upstream and
  every upstream a checkout hands out is healthy and has an empty read buffer.
\<close>

theorem checkout_gets_clean_upstream:
  assumes "managed_run origin_has_broken http_manager (thread_new cfg features) (th :: ('e framed, 'e io_error) thread)"
    and "event_fits http_manager (OnTask i t1 t2 sig) th"
    and "thread_step origin_has_broken (OnTask i t1 t2 sig) th = Some th'"
    and "handed_out i th th' = Some c"
  shows "healthy (raw c) \<and> buf (raw c) = [] \<and> (\<forall>d \<in> set (idle (th_pool th)). healthy (raw d) \<and> buf (raw d) = [])"
  using http_pool.handed_out_fit [OF assms] http_pool.idle_are_fit [OF assms(1)]
  by (auto simp: clean_upstream_def)

text \<open>
  A buffer the echo server's pool hands out has all the room it was allocated with, however the
  connections before it ended.
\<close>

theorem checkout_gets_full_buffer:
  assumes "managed_run buffer_has_broken buffer_manager (thread_new cfg features) th"
    and "event_fits buffer_manager (OnTask i t1 t2 sig) th"
    and "thread_step buffer_has_broken (OnTask i t1 t2 sig) th = Some th'"
    and "handed_out i th th' = Some c"
  shows "room (raw c) = 16 * 1024"
  using buffer_pool.handed_out_fit [OF assms] by (simp add: full_room_def)

text \<open>
  One upstream serves two clients: opened for the first, used for an exchange, given back, and checked on
  its way out to the second.
\<close>

definition reuse_thread :: "'e framed conn list \<Rightarrow> u32 \<Rightarrow> ('e framed, 'x) task list \<Rightarrow> ('e framed, 'x) thread" where
  "reuse_thread cs n ts =
     \<lparr>th_shared = \<lparr>conf = default_config, closed = False\<rparr>,
      th_pool = \<lparr>idle = cs, slots = n, waiters = waiters_new None\<rparr>, th_tasks = ts\<rparr>"

definition an_upstream :: "nat \<Rightarrow> 'e chunk list \<Rightarrow> 'e framed conn" where
  "an_upstream used_at s = \<lparr>raw = framed_new s, created_at = 1, last_used = used_at\<rparr>"

lemmas reuse_evals = step_evals reuse_thread_def an_upstream_def origin_has_broken_def framed_new_def

lemma reuse_steps:
  "thread_step origin_has_broken (OnTask 0 0 0 Resume) (reuse_thread [] 0 [GetStart])
     = Some (reuse_thread [] 1 [GetConnecting \<lparr>h_conn = None, h_released = False\<rparr> 0 False])"
  "thread_step origin_has_broken (OnTask 0 1 1 (Connected (framed_new s)))
       (reuse_thread [] 1 [GetConnecting \<lparr>h_conn = None, h_released = False\<rparr> 0 False])
     = Some (reuse_thread [] 1 [Leased \<lparr>p_conn = Some (an_upstream 1 s)\<rparr>])"
  "thread_step origin_has_broken (OnTask 0 2 2 (Use (framed_new s')))
       (reuse_thread [] 1 [Leased \<lparr>p_conn = Some (an_upstream 1 s)\<rparr>])
     = Some (reuse_thread [] 1 [Leased \<lparr>p_conn = Some (an_upstream 1 s')\<rparr>])"
  "thread_step origin_has_broken (OnTask 0 3 3 DropIt) (reuse_thread [] 1 [Leased \<lparr>p_conn = Some (an_upstream 1 s)\<rparr>])
     = Some (reuse_thread [an_upstream 3 s] 1 [Finished Recycled])"
  "thread_step origin_has_broken (OnTask 1 4 4 Resume) (reuse_thread [an_upstream 3 s] 1 [Finished Recycled, GetStart])
     = Some (reuse_thread [] 1
         [Finished Recycled, GetValidating \<lparr>h_conn = Some (an_upstream 3 s), h_released = False\<rparr> 4 False])"
  "thread_step origin_has_broken (OnTask 1 5 5 (Validity (framed_new s) True)) (reuse_thread [] 1
         [Finished Recycled, GetValidating \<lparr>h_conn = Some (an_upstream 3 s), h_released = False\<rparr> 4 False])
     = Some (reuse_thread [] 1 [Finished Recycled, Leased \<lparr>p_conn = Some (an_upstream 3 s)\<rparr>])"
  by (simp_all add: reuse_evals)

lemma reuse_thread_simps [simp]:
  "thread_new default_config False = reuse_thread [] 0 []" "th_tasks (reuse_thread cs n ts) = ts"
  "(reuse_thread cs n ts)\<lparr>th_tasks := us\<rparr> = reuse_thread cs n us"
  by (simp_all add: reuse_thread_def thread_new_def local_pool_new_def)

lemma buf_framed_new [simp]: "buf (framed_new s) = []"
  by (simp add: framed_new_def)

lemma sample_exchange: "used http_manager (framed_new [Data sample_response]) (framed_new [] :: nat framed)"
  unfolding http_manager_def
  by simp (rule exI [of _ sample_turn], simp add: sample_turn_def exchange_def read_sample_response)

lemma an_upstream_raw [simp]: "raw (an_upstream n s) = framed_new s"
  by (simp add: an_upstream_def)

lemma reuse_run:
  "managed_run origin_has_broken http_manager (thread_new default_config False)
     (reuse_thread [] 1
        [Finished Recycled, GetValidating \<lparr>h_conn = Some (an_upstream 3 []), h_released = False\<rparr> 4 False]
      :: (nat framed, nat io_error) thread)"
proof -
  let ?run = "managed_run origin_has_broken http_manager (reuse_thread [] 0 [])
    :: (nat framed, nat io_error) thread \<Rightarrow> bool"
  have "?run (reuse_thread [] 0 [GetStart])"
    by (rule managed_step [OF managed_start, of _ "Call CallGet"]) simp_all
  from managed_step [OF this _ reuse_steps(1)]
  have "?run (reuse_thread [] 1 [GetConnecting \<lparr>h_conn = None, h_released = False\<rparr> 0 False])" by simp
  from managed_step [OF this _ reuse_steps(2)]
  have "?run (reuse_thread [] 1 [Leased \<lparr>p_conn = Some (an_upstream 1 [Data sample_response])\<rparr>])"
    by (simp add: http_manager_def framed_new_def)
  from managed_step [OF this _ reuse_steps(3)]
  have "?run (reuse_thread [] 1 [Leased \<lparr>p_conn = Some (an_upstream 1 [])\<rparr>])"
    by (simp add: sample_exchange)
  from managed_step [OF this _ reuse_steps(4)]
  have "?run (reuse_thread [an_upstream 3 []] 1 [Finished Recycled])" by simp
  from managed_step [OF this, of "Call CallGet"]
  have "?run (reuse_thread [an_upstream 3 []] 1 [Finished Recycled, GetStart])" by simp
  from managed_step [OF this _ reuse_steps(5)] show ?thesis by simp
qed

theorem checkout_gets_clean_upstream_witness:
  "healthy (raw (an_upstream 3 [] :: nat framed conn)) \<and> buf (raw (an_upstream 3 [] :: nat framed conn)) = []"
proof -
  have "event_fits http_manager (OnTask 1 5 5 (Validity (framed_new []) True)) (reuse_thread [] 1
      [Finished Recycled, GetValidating \<lparr>h_conn = Some (an_upstream 3 []), h_released = False\<rparr> 4 False]
      :: (nat framed, nat io_error) thread)"
    by (simp add: http_manager_def origin_is_valid_def framed_new_def)
  from checkout_gets_clean_upstream [OF reuse_run this reuse_steps(6)] show ?thesis
    by (simp add: handed_out_def)
qed

end
