(* ===== verification/Fanout_Requests.thy ===== *)
theory Fanout_Requests
  imports Pool_Properties
begin

text \<open>
  \<open>src/examples/fanout_requests.rs\<close>: many client tasks on one runtime share a \<open>LocalPool\<close> of upstreams and
  drain a counter of requests. The clients run over the pool's own model: a client's poll drives the pool's
  \<open>get\<close> and goes on with it in the same atomic section, up to its next await. The backend decides whether a
  write or a read succeeds. What the example sets out to show is proved here: the upstreams in use, and
  their peak, never exceed the capacity however many clients there are.
\<close>

section \<open>Clients\<close>

text \<open>Where a client is suspended, and which of the pool's calls is its own.\<close>

datatype client = Spawned | Getting nat | Writing nat | Reading nat | Returned

text \<open>The \<open>Rc<Cell>\<close>s and \<open>OPENS\<close>, the pool's thread, and the clients.\<close>

record ('c, 'e) fan =
  fr_thread :: "('c, 'e) thread"
  fr_opens :: u64
  fr_next :: nat
  fr_bytes :: u64
  fr_inflight :: u32
  fr_peak :: u32
  fr_clients :: "client list"

definition upstreams_has_broken :: "'c has_broken" where
  "upstreams_has_broken c = (False, c)"

text \<open>The pool and the counters \<open>main\<close> makes; a capacity of zero panics.\<close>

definition fan_new :: "bool \<Rightarrow> u32 \<Rightarrow> nat \<Rightarrow> ('c, 'e) fan option" where
  "fan_new features cap clients =
     (case build (set_max_size cap builder_new) of
        Inl e \<Rightarrow> None
      | Inr cfg \<Rightarrow>
          Some \<lparr>fr_thread = thread_new cfg features, fr_opens = 0, fr_next = 0, fr_bytes = 0,
                fr_inflight = 0, fr_peak = 0, fr_clients = replicate clients Spawned\<rparr>)"

definition set_client :: "nat \<Rightarrow> client \<Rightarrow> ('c, 'e) fan \<Rightarrow> ('c, 'e) fan" where
  "set_client k c fs = fs\<lparr>fr_clients := (fr_clients fs)[k := c]\<rparr>"

fun is_leased :: "('c, 'e) task \<Rightarrow> bool" where
  "is_leased (Leased p) = True"
| "is_leased t = False"

text \<open>After \<open>get().await\<close>: \<open>Ok\<close> counts the upstream in and starts the write, \<open>Err\<close> returns.\<close>

definition got :: "nat \<Rightarrow> nat \<Rightarrow> ('c, 'e) fan \<Rightarrow> ('c, 'e) fan" where
  "got k j fs =
     (case th_tasks (fr_thread fs) ! j of
        Leased p \<Rightarrow>
          (let now = fr_inflight fs + 1
           in set_client k (Writing j)
                (fs\<lparr>fr_inflight := now, fr_peak := (if now > fr_peak fs then now else fr_peak fs)\<rparr>))
      | Finished r \<Rightarrow> set_client k Returned fs
      | _ \<Rightarrow> set_client k (Getting j) fs)"

definition poll_get ::
  "nat \<Rightarrow> nat \<Rightarrow> instant \<Rightarrow> instant \<Rightarrow> ('c, 'e) signal \<Rightarrow> ('c, 'e) fan \<Rightarrow> ('c, 'e) fan option" where
  "poll_get k j t1 t2 sig fs =
     map_option
       (\<lambda>th. got k j (fs\<lparr>fr_thread := th,
                          fr_opens := (case sig of Connected r \<Rightarrow> fr_opens fs + 1 | _ \<Rightarrow> fr_opens fs)\<rparr>))
       (thread_step upstreams_has_broken (OnTask j t1 t2 sig) (fr_thread fs))"

text \<open>The top of the loop: claim an index and poll a new \<open>get\<close>, or leave.\<close>

definition claim :: "nat \<Rightarrow> nat \<Rightarrow> instant \<Rightarrow> instant \<Rightarrow> ('c, 'e) fan \<Rightarrow> ('c, 'e) fan option" where
  "claim requests k t1 t2 fs =
     (if fr_next fs \<ge> requests then Some (set_client k Returned fs)
      else
        (case thread_step upstreams_has_broken (Call CallGet) (fr_thread fs) of
           None \<Rightarrow> None
         | Some th \<Rightarrow>
             poll_get k (length (th_tasks (fr_thread fs))) t1 t2 Resume
               (fs\<lparr>fr_next := fr_next fs + 1, fr_thread := th\<rparr>)))"

text \<open>The end of the loop body: count the upstream out, drop the lease, go round.\<close>

definition round_over ::
  "nat \<Rightarrow> nat \<Rightarrow> nat \<Rightarrow> instant \<Rightarrow> instant \<Rightarrow> instant \<Rightarrow> instant \<Rightarrow> ('c, 'e) fan \<Rightarrow> ('c, 'e) fan option" where
  "round_over requests k j d1 d2 t1 t2 fs =
     (case thread_step upstreams_has_broken (OnTask j d1 d2 DropIt) (fr_thread fs) of
        None \<Rightarrow> None
      | Some th \<Rightarrow> claim requests k t1 t2 (fs\<lparr>fr_inflight := fr_inflight fs - 1, fr_thread := th\<rparr>))"

datatype ('c, 'e) fan_event =
    FirstPoll nat instant instant
  | GetPolled nat instant instant "('c, 'e) signal"
  | Wrote nat bool instant instant instant instant
  | ReadDone nat bool instant instant instant instant

fun cancels :: "('c, 'e) signal \<Rightarrow> bool" where
  "cancels DropIt = True"
| "cancels sig = False"

text \<open>One poll of one client. The clients are awaited, never cancelled.\<close>

fun fan_step :: "nat \<Rightarrow> nat \<Rightarrow> ('c, 'e) fan_event \<Rightarrow> ('c, 'e) fan \<Rightarrow> ('c, 'e) fan option" where
  "fan_step requests size_b (FirstPoll k t1 t2) fs =
     (if k < length (fr_clients fs) \<and> fr_clients fs ! k = Spawned then claim requests k t1 t2 fs else None)"
| "fan_step requests size_b (GetPolled k t1 t2 sig) fs =
     (if k < length (fr_clients fs) \<and> \<not> cancels sig
      then (case fr_clients fs ! k of Getting j \<Rightarrow> poll_get k j t1 t2 sig fs | _ \<Rightarrow> None)
      else None)"
| "fan_step requests size_b (Wrote k ok d1 d2 t1 t2) fs =
     (if k < length (fr_clients fs)
      then (case fr_clients fs ! k of
              Writing j \<Rightarrow> if ok then Some (set_client k (Reading j) fs) else round_over requests k j d1 d2 t1 t2 fs
            | _ \<Rightarrow> None)
      else None)"
| "fan_step requests size_b (ReadDone k ok d1 d2 t1 t2) fs =
     (if k < length (fr_clients fs)
      then (case fr_clients fs ! k of
              Reading j \<Rightarrow>
                round_over requests k j d1 d2 t1 t2
                  (if ok then fs\<lparr>fr_bytes := fr_bytes fs + of_nat size_b\<rparr> else fs)
            | _ \<Rightarrow> None)
      else None)"

fun fan_run :: "nat \<Rightarrow> nat \<Rightarrow> ('c, 'e) fan_event list \<Rightarrow> ('c, 'e) fan \<Rightarrow> ('c, 'e) fan option" where
  "fan_run requests size_b [] fs = Some fs"
| "fan_run requests size_b (e # es) fs =
     (case fan_step requests size_b e fs of None \<Rightarrow> None | Some fs' \<Rightarrow> fan_run requests size_b es fs')"

section \<open>Whose call is whose\<close>

fun owns :: "client \<Rightarrow> nat option" where
  "owns (Getting j) = Some j"
| "owns (Writing j) = Some j"
| "owns (Reading j) = Some j"
| "owns c = None"

fun busy :: "client \<Rightarrow> bool" where
  "busy (Writing j) = True"
| "busy (Reading j) = True"
| "busy c = False"

text \<open>A client's call exists, and is a lease exactly while the client is in a round trip.\<close>

definition client_ok :: "('c, 'e) task list \<Rightarrow> client \<Rightarrow> bool" where
  "client_ok ts c = (case owns c of None \<Rightarrow> True | Some j \<Rightarrow> j < length ts \<and> is_leased (ts ! j) = busy c)"

definition apart :: "client list \<Rightarrow> nat \<Rightarrow> nat \<Rightarrow> bool" where
  "apart cs k j \<longleftrightarrow> (\<forall>k' < length cs. k' \<noteq> k \<longrightarrow> owns (cs ! k') \<noteq> Some j)"

definition clients_ok :: "('c, 'e) task list \<Rightarrow> client list \<Rightarrow> bool" where
  "clients_ok ts cs \<longleftrightarrow>
     (\<forall>k < length cs. client_ok ts (cs ! k) \<and> (\<forall>j. owns (cs ! k) = Some j \<longrightarrow> apart cs k j))"

lemma nth_updated: "i < length xs \<Longrightarrow> xs[k := x] ! i = (if i = k then x else xs ! i)"
  by simp

lemma client_ok_frame:
  assumes "client_ok ts c" and "owns c \<noteq> Some j" and "length ts \<le> length ts'"
    and "\<And>i. i < length ts \<Longrightarrow> i \<noteq> j \<Longrightarrow> ts' ! i = ts ! i"
  shows "client_ok ts' c"
  using assms by (auto simp: client_ok_def split: option.splits)

text \<open>Client \<open>k\<close> moves on and only its call changes.\<close>

lemma clients_ok_set:
  assumes "clients_ok ts (cs[k := Returned])" and "apart cs k j" and "client_ok ts' c"
    and "owns c = None \<or> owns c = Some j" and "length ts \<le> length ts'"
    and "\<And>i. i < length ts \<Longrightarrow> i \<noteq> j \<Longrightarrow> ts' ! i = ts ! i"
  shows "clients_ok ts' (cs[k := c])"
proof -
  have others: "client_ok ts' (cs ! k')" if "k' < length cs" "k' \<noteq> k" for k'
  proof (rule client_ok_frame [OF _ _ assms(5,6)])
    show "client_ok ts (cs ! k')" using assms(1) that by (auto simp: clients_ok_def)
    show "owns (cs ! k') \<noteq> Some j" using assms(2) that by (auto simp: apart_def)
  qed
  have "apart (cs[k := c]) k' i" if k': "k' < length cs" "owns (cs[k := c] ! k') = Some i" for k' i
  proof (cases "k' = k")
    case True
    with assms(2,4) k' show ?thesis by (auto simp: apart_def)
  next
    case False
    then have "apart (cs[k := Returned]) k' i" using assms(1) k' by (auto simp: clients_ok_def)
    moreover have "i \<noteq> j" using assms(2) False k' by (auto simp: apart_def)
    ultimately show ?thesis using assms(4) by (auto simp: apart_def nth_updated)
  qed
  with others assms(3) show ?thesis by (auto simp: clients_ok_def nth_updated)
qed

lemma client_ok_Returned [simp]: "client_ok ts Returned"
  by (simp add: client_ok_def)

lemma clients_ok_release:
  assumes "clients_ok ts cs"
  shows "clients_ok ts (cs[k := Returned])"
  unfolding clients_ok_def
proof (intro allI impI conjI)
  fix i
  assume i: "i < length (cs[k := Returned])"
  then show "client_ok ts (cs[k := Returned] ! i)" using assms by (simp add: clients_ok_def nth_updated)
  fix j
  assume "owns (cs[k := Returned] ! i) = Some j"
  then have "apart cs i j" using assms i by (auto simp: clients_ok_def nth_updated split: if_splits)
  then show "apart (cs[k := Returned]) i j" by (simp add: apart_def nth_updated)
qed

lemma clients_ok_apart:
  assumes "clients_ok ts cs" and "k < length cs" and "owns (cs ! k) = Some j"
  shows "apart cs k j" and "j < length ts" and "is_leased (ts ! j) = busy (cs ! k)"
  using assms by (auto simp: clients_ok_def client_ok_def)

lemma apart_new: "clients_ok ts (cs[k := Returned]) \<Longrightarrow> apart cs k (length ts)"
  by (auto simp: clients_ok_def client_ok_def apart_def nth_updated split: option.splits)

lemma length_filter_update:
  "j < length xs \<Longrightarrow> length (filter P (xs[j := x])) + (if P (xs ! j) then 1 else 0)
     = length (filter P xs) + (if P x then 1 else 0)"
proof (induction xs arbitrary: j)
  case (Cons y ys)
  then show ?case using Cons.IH [of "j - 1"] by (cases j) (auto split: if_splits)
qed simp

section \<open>The invariant of the fan-out\<close>

definition pool_run :: "pool_config \<Rightarrow> bool \<Rightarrow> nat \<Rightarrow> ('c, 'e) thread \<Rightarrow> bool" where
  "pool_run cfg features n th \<longleftrightarrow>
     (\<exists>evs. thread_run upstreams_has_broken evs (thread_new cfg features) = Some th \<and> length evs \<le> n)"

definition fan_inv :: "pool_config \<Rightarrow> bool \<Rightarrow> nat \<Rightarrow> nat \<Rightarrow> ('c, 'e) fan \<Rightarrow> bool" where
  "fan_inv cfg features requests n fs \<longleftrightarrow>
     pool_run cfg features n (fr_thread fs) \<and>
     clients_ok (th_tasks (fr_thread fs)) (fr_clients fs) \<and>
     unat (fr_inflight fs) = length (filter busy (fr_clients fs)) \<and>
     unat (fr_inflight fs) = length (filter is_leased (th_tasks (fr_thread fs))) \<and>
     fr_inflight fs \<le> fr_peak fs \<and> fr_peak fs \<le> max_size cfg \<and> fr_next fs \<le> requests"

lemma thread_run_snoc:
  "thread_run hb evs th = Some th1 \<Longrightarrow> thread_step hb e th1 = Some th2 \<Longrightarrow>
   thread_run hb (evs @ [e]) th = Some th2"
  by (induction evs arbitrary: th) (auto split: option.splits)

lemma pool_run_step:
  "pool_run cfg features n th \<Longrightarrow> thread_step upstreams_has_broken e th = Some th' \<Longrightarrow>
   pool_run cfg features (n + 1) th'"
  unfolding pool_run_def by (metis thread_run_snoc length_append_singleton Suc_eq_plus1 Suc_le_mono)

lemma length_filter_mono: "(\<And>x. P x \<Longrightarrow> Q x) \<Longrightarrow> length (filter P xs) \<le> length (filter Q xs)"
  by (induction xs) auto

lemma is_leased_holds_slot: "is_leased t \<Longrightarrow> holds_slot t"
  by (cases t) simp_all

text \<open>The pool's slot bound, as the clients see it.\<close>

lemma leased_within_max:
  assumes "pool_run cfg features n th" and "n < 2 ^ 64 - 2"
  shows "length (filter is_leased (th_tasks th)) \<le> unat (max_size cfg)"
proof -
  obtain evs where r: "reaches upstreams_has_broken cfg features evs th"
    using assms le_less_trans by (fastforce simp: pool_run_def reaches_def)
  have "length (filter is_leased (th_tasks th)) \<le> length (filter holds_slot (th_tasks th))"
    by (rule length_filter_mono) (rule is_leased_holds_slot)
  with reaches_accounts [OF r] reaches_conf [OF r] show ?thesis by (simp add: accounts_def)
qed

lemma on_task_step:
  assumes "thread_step hb (OnTask j t1 t2 sig) th = Some th'"
  obtains t where "j < length (th_tasks th)" and "th_tasks th' = (th_tasks th)[j := t]"
    and "task_step hb (th_shared th) j t1 t2 sig (th_tasks th ! j) (th_pool th) = Some (t, th_pool th')"
  using assms by (auto split: if_splits)

lemma set_client_sel [simp]:
  "fr_thread (set_client k c fs) = fr_thread fs" "fr_inflight (set_client k c fs) = fr_inflight fs"
  "fr_peak (set_client k c fs) = fr_peak fs" "fr_next (set_client k c fs) = fr_next fs"
  "fr_clients (set_client k c fs) = (fr_clients fs)[k := c]"
  by (simp_all add: set_client_def)

lemma busy_set:
  assumes "k < length cs"
  shows "length (filter busy (cs[k := c])) = length (filter busy (cs[k := Returned])) + (if busy c then 1 else 0)"
  using length_filter_update [of k "cs[k := Returned]" busy c] assms by simp

text \<open>A poll of client \<open>k\<close>'s own \<open>get\<close>, client \<open>k\<close> being in no round trip.\<close>

lemma fan_inv_got:
  assumes inv: "fan_inv cfg features requests n (set_client k Returned fs)" and k: "k < length (fr_clients fs)"
    and j: "apart (fr_clients fs) k j" "\<not> is_leased (th_tasks (fr_thread fs) ! j)"
    and st: "thread_step upstreams_has_broken (OnTask j t1 t2 sig) (fr_thread fs) = Some th"
    and n: "n + 1 < 2 ^ 64 - 2"
  shows "fan_inv cfg features requests (n + 1) (got k j (fs\<lparr>fr_thread := th, fr_opens := p\<rparr>))"
proof -
  let ?ts = "th_tasks (fr_thread fs)" and ?cs = "fr_clients fs"
  obtain t where jl: "j < length ?ts" and ts: "th_tasks th = ?ts[j := t]" using st by (rule on_task_step)
  have run: "pool_run cfg features (n + 1) th"
    using inv by (intro pool_run_step [OF _ st]) (simp add: fan_inv_def)
  have cnt: "length (filter is_leased (th_tasks th)) = unat (fr_inflight fs) + (if is_leased t then 1 else 0)"
    using length_filter_update [OF jl, of is_leased t] inv j(2) by (simp add: ts fan_inv_def)
  have ok: "clients_ok (th_tasks th) (?cs[k := c])" if "owns c = None \<or> owns c = Some j" "is_leased t = busy c" for c
  proof (rule clients_ok_set [OF _ j(1) _ that(1)])
    show "clients_ok ?ts (?cs[k := Returned])" using inv by (simp add: fan_inv_def)
    show "client_ok (th_tasks th) c" using that jl by (auto simp: ts client_ok_def)
  qed (simp_all add: ts)
  have bs: "length (filter busy (?cs[k := c])) = unat (fr_inflight fs) + (if busy c then 1 else 0)" for c
    using busy_set [OF k, of c] inv by (simp add: fan_inv_def)
  have up: "is_leased t \<Longrightarrow> unat (fr_inflight fs + 1) = unat (fr_inflight fs) + 1 \<and> fr_inflight fs + 1 \<le> max_size cfg"
    using leased_within_max [OF run n] cnt unat_plus_one [of "fr_inflight fs" "max_size cfg"] by (simp add: word_le_nat_alt)
  have rest: "fr_inflight fs \<le> fr_peak fs" "fr_peak fs \<le> max_size cfg" "fr_next fs \<le> requests"
    using inv by (simp_all add: fan_inv_def)
  have tj: "th_tasks th ! j = t" using jl by (simp add: ts)
  show ?thesis
  proof (cases "is_leased t")
    case True
    then obtain q where "t = Leased q" by (cases t) auto
    with run cnt bs [of "Writing j"] ok [of "Writing j"] up rest tj show ?thesis
      by (simp add: got_def fan_inv_def Let_def not_less)
  next
    case False
    then obtain c where "got k j (fs\<lparr>fr_thread := th, fr_opens := p\<rparr>) = set_client k c (fs\<lparr>fr_thread := th, fr_opens := p\<rparr>)"
      and "c = Returned \<or> c = Getting j"
      using tj by (cases t) (auto simp: got_def)
    with False run cnt bs [of c] ok [of c] rest show ?thesis by (auto simp: fan_inv_def)
  qed
qed

lemma fan_inv_poll_get:
  assumes "fan_inv cfg features requests n (set_client k Returned fs)" and "k < length (fr_clients fs)"
    and "apart (fr_clients fs) k j" and "\<not> is_leased (th_tasks (fr_thread fs) ! j)"
    and "poll_get k j t1 t2 sig fs = Some fs'" and "n + 1 < 2 ^ 64 - 2"
  shows "fan_inv cfg features requests (n + 1) fs'"
  using assms(5) fan_inv_got [OF assms(1-4) _ assms(6)] by (auto simp: poll_get_def)

lemma fan_inv_weaken: "fan_inv cfg features requests n fs \<Longrightarrow> n \<le> n' \<Longrightarrow> fan_inv cfg features requests n' fs"
  unfolding fan_inv_def pool_run_def by (meson order_trans)

lemma fan_inv_called:
  assumes "fan_inv cfg features requests n fs" and "fr_next fs < requests"
    and "thread_step upstreams_has_broken (Call CallGet) (fr_thread fs) = Some th"
  shows "fan_inv cfg features requests (n + 1) (fs\<lparr>fr_next := fr_next fs + 1, fr_thread := th\<rparr>)"
proof -
  have ts: "th_tasks th = th_tasks (fr_thread fs) @ [GetStart]" using assms(3) by auto
  have "client_ok (th_tasks (fr_thread fs)) c \<Longrightarrow> client_ok (th_tasks th) c" for c
    by (auto simp: client_ok_def ts nth_append split: option.splits)
  then have "clients_ok (th_tasks th) (fr_clients fs)"
    using assms(1) by (simp add: fan_inv_def clients_ok_def)
  moreover have "pool_run cfg features (n + 1) th"
    using assms(1) by (intro pool_run_step [OF _ assms(3)]) (simp add: fan_inv_def)
  ultimately show ?thesis using assms(1,2) ts by (simp add: fan_inv_def)
qed

lemma fan_inv_claim:
  assumes inv: "fan_inv cfg features requests n (set_client k Returned fs)" and k: "k < length (fr_clients fs)"
    and cl: "claim requests k t1 t2 fs = Some fs'" and n: "n + 2 < 2 ^ 64 - 2"
  shows "fan_inv cfg features requests (n + 2) fs'"
proof (cases "fr_next fs \<ge> requests")
  case True
  with cl have "fs' = set_client k Returned fs" by (simp add: claim_def)
  then show ?thesis using fan_inv_weaken [OF inv, of "n + 2"] by simp
next
  case False
  obtain th where th: "thread_step upstreams_has_broken (Call CallGet) (fr_thread fs) = Some th" by simp
  let ?fs = "fs\<lparr>fr_next := fr_next fs + 1, fr_thread := th\<rparr>" and ?j = "length (th_tasks (fr_thread fs))"
  have poll: "poll_get k ?j t1 t2 Resume ?fs = Some fs'" using cl False th by (simp add: claim_def)
  have "fan_inv cfg features requests (n + 1) (set_client k Returned ?fs)"
    using fan_inv_called [OF inv, of th] False th by (auto simp: fan_inv_def)
  moreover have "apart (fr_clients fs) k ?j" using inv by (intro apart_new) (simp add: fan_inv_def)
  moreover have "\<not> is_leased (th_tasks th ! ?j)" using th by auto
  ultimately show ?thesis using fan_inv_poll_get [of cfg features requests "n + 1" k ?fs ?j] poll k n by simp
qed

lemma drop_leased:
  assumes "thread_step hb (OnTask j d1 d2 DropIt) th = Some th'" and "is_leased (th_tasks th ! j)"
  shows "j < length (th_tasks th) \<and> th_tasks th' = (th_tasks th)[j := Finished Recycled]"
  using assms by (cases "th_tasks th ! j") (auto simp: on_drop_def split: if_splits)

lemma fan_inv_round_over:
  assumes inv: "fan_inv cfg features requests n fs" and k: "k < length (fr_clients fs)"
    and busy: "busy (fr_clients fs ! k)" and own: "owns (fr_clients fs ! k) = Some j"
    and over: "round_over requests k j d1 d2 t1 t2 fs = Some fs'" and n: "n + 3 < 2 ^ 64 - 2"
  shows "fan_inv cfg features requests (n + 3) fs'"
proof -
  let ?ts = "th_tasks (fr_thread fs)" and ?cs = "fr_clients fs"
  obtain th where st: "thread_step upstreams_has_broken (OnTask j d1 d2 DropIt) (fr_thread fs) = Some th"
    and cl: "claim requests k t1 t2 (fs\<lparr>fr_inflight := fr_inflight fs - 1, fr_thread := th\<rparr>) = Some fs'"
    using over by (auto simp: round_over_def split: option.splits)
  have ok: "clients_ok ?ts ?cs" using inv by (simp add: fan_inv_def)
  note own_j = clients_ok_apart [OF ok k own]
  have ts: "th_tasks th = ?ts[j := Finished Recycled]" using drop_leased [OF st] own_j(3) busy by simp
  have leased: "length (filter is_leased (th_tasks th)) + 1 = unat (fr_inflight fs)"
    using length_filter_update [OF own_j(2), of is_leased "Finished Recycled"] own_j(3) busy inv
    by (simp add: ts fan_inv_def)
  have bs: "length (filter busy (?cs[k := Returned])) + 1 = unat (fr_inflight fs)"
    using length_filter_update [OF k, of busy Returned] busy inv by (simp add: fan_inv_def)
  have down: "unat (fr_inflight fs - 1) + 1 = unat (fr_inflight fs)"
    using bs unat_gt_0 [of "fr_inflight fs"] by (simp add: unat_minus_one)
  have "clients_ok (th_tasks th) (?cs[k := Returned])"
    by (rule clients_ok_set [OF clients_ok_release [OF ok] own_j(1)]) (simp_all add: ts)
  moreover have "pool_run cfg features (n + 1) th"
    using inv by (intro pool_run_step [OF _ st]) (simp add: fan_inv_def)
  ultimately have "fan_inv cfg features requests (n + 1)
      (set_client k Returned (fs\<lparr>fr_inflight := fr_inflight fs - 1, fr_thread := th\<rparr>))"
    using inv leased bs down by (simp add: fan_inv_def word_le_nat_alt)
  from fan_inv_claim [OF this _ cl] k n show ?thesis by (simp add: numeral_3_eq_3)
qed

lemma fan_inv_not_busy:
  assumes "fan_inv cfg features requests n fs" and "k < length (fr_clients fs)" and "\<not> busy (fr_clients fs ! k)"
  shows "fan_inv cfg features requests n (set_client k Returned fs)"
  using assms length_filter_update [OF assms(2), of busy Returned] clients_ok_release
  by (auto simp: fan_inv_def)

lemma fan_inv_reading:
  assumes "fan_inv cfg features requests n fs" and "k < length (fr_clients fs)" and "fr_clients fs ! k = Writing j"
  shows "fan_inv cfg features requests n (set_client k (Reading j) fs)"
proof -
  have ok: "clients_ok (th_tasks (fr_thread fs)) (fr_clients fs)" using assms(1) by (simp add: fan_inv_def)
  have j: "apart (fr_clients fs) k j" "j < length (th_tasks (fr_thread fs))" "is_leased (th_tasks (fr_thread fs) ! j)"
    using clients_ok_apart [OF ok assms(2)] assms(3) by simp_all
  have "clients_ok (th_tasks (fr_thread fs)) ((fr_clients fs)[k := Reading j])"
    by (rule clients_ok_set [OF clients_ok_release [OF ok] j(1)]) (simp_all add: client_ok_def j)
  then show ?thesis
    using assms length_filter_update [OF assms(2), of busy "Reading j"] by (simp add: fan_inv_def)
qed

lemma fan_step_inv:
  assumes inv: "fan_inv cfg features requests n fs" and st: "fan_step requests size_b e fs = Some fs'"
    and n: "n + 3 < 2 ^ 64 - 2"
  shows "fan_inv cfg features requests (n + 3) fs'"
proof (cases e)
  case (FirstPoll k t1 t2)
  then have k: "k < length (fr_clients fs)" "fr_clients fs ! k = Spawned" and cl: "claim requests k t1 t2 fs = Some fs'"
    using st by (auto split: if_splits)
  then have "fan_inv cfg features requests (n + 2) fs'"
    using fan_inv_not_busy [OF inv k(1)] by (intro fan_inv_claim [OF _ k(1) cl]) (use k(2) n in auto)
  then show ?thesis by (rule fan_inv_weaken) simp
next
  case (GetPolled k t1 t2 sig)
  then obtain j where k: "k < length (fr_clients fs)" "fr_clients fs ! k = Getting j"
    and pg: "poll_get k j t1 t2 sig fs = Some fs'"
    using st by (auto split: if_splits client.splits)
  have ok: "clients_ok (th_tasks (fr_thread fs)) (fr_clients fs)" using inv by (simp add: fan_inv_def)
  have "fan_inv cfg features requests (n + 1) fs'"
    using fan_inv_not_busy [OF inv k(1)] clients_ok_apart [OF ok k(1), of j] k(2) n
    by (intro fan_inv_poll_get [OF _ k(1) _ _ pg]) auto
  then show ?thesis by (rule fan_inv_weaken) simp
next
  case (Wrote k ok d1 d2 t1 t2)
  then obtain j where k: "k < length (fr_clients fs)" "fr_clients fs ! k = Writing j"
    and s: "(if ok then Some (set_client k (Reading j) fs) else round_over requests k j d1 d2 t1 t2 fs) = Some fs'"
    using st by (auto split: if_splits client.splits)
  show ?thesis
    using s fan_inv_weaken [OF fan_inv_reading [OF inv k]] fan_inv_round_over [OF inv k(1) _ _ _ n] k(2)
    by (auto split: if_splits)
next
  case (ReadDone k ok d1 d2 t1 t2)
  define fs1 where "fs1 = (if ok then fs\<lparr>fr_bytes := fr_bytes fs + of_nat size_b\<rparr> else fs)"
  obtain j where k: "k < length (fr_clients fs)" "fr_clients fs ! k = Reading j"
    and s: "round_over requests k j d1 d2 t1 t2 fs1 = Some fs'"
    using st ReadDone by (auto simp: fs1_def split: if_splits client.splits)
  have "fan_inv cfg features requests n fs1" and "fr_clients fs1 = fr_clients fs"
    using inv by (auto simp: fs1_def fan_inv_def)
  then show ?thesis using fan_inv_round_over [OF _ _ _ _ s n] k by simp
qed

lemma fan_run_inv:
  assumes "fan_inv cfg features requests n fs" and "fan_run requests size_b evs fs = Some fs'"
    and "n + 3 * length evs < 2 ^ 64 - 2"
  shows "fan_inv cfg features requests (n + 3 * length evs) fs'"
  using assms
proof (induction evs arbitrary: n fs)
  case (Cons e es)
  then obtain fs1 where st: "fan_step requests size_b e fs = Some fs1" and rn: "fan_run requests size_b es fs1 = Some fs'"
    by (auto split: option.splits)
  have "fan_inv cfg features requests (n + 3) fs1" using fan_step_inv [OF Cons.prems(1) st] Cons.prems(3) by simp
  from Cons.IH [OF this rn] Cons.prems(3) show ?case by (simp add: algebra_simps)
qed simp

lemma fan_inv_new:
  assumes "fan_new features cap clients = Some fs"
  shows "\<exists>cfg. max_size cfg = cap \<and> fan_inv cfg features requests 0 fs"
proof -
  obtain cfg where b: "build (set_max_size cap builder_new) = Inr cfg"
    and fs: "fs = \<lparr>fr_thread = thread_new cfg features, fr_opens = 0, fr_next = 0, fr_bytes = 0,
      fr_inflight = 0, fr_peak = 0, fr_clients = replicate clients Spawned\<rparr>"
    using assms by (auto simp: fan_new_def split: sum.splits)
  have "max_size cfg = cap" using b by (auto simp: build_def builder_defs Let_def split: if_splits)
  moreover have "pool_run cfg features 0 (thread_new cfg features)" by (auto simp: pool_run_def)
  ultimately show ?thesis
    by (intro exI [of _ cfg]) (simp add: fan_inv_def fs clients_ok_def client_ok_def thread_new_def)
qed

section \<open>Backpressure\<close>

text \<open>
  C16: However many client tasks run and however their calls, writes and reads interleave or fail, the
  upstreams in use are exactly the leases alive, one per client in a round trip; their number and its peak
  stay within the capacity, no index past the last request is claimed, and once every client has returned
  none is in use.
\<close>

theorem fanout_within_capacity:
  assumes "fan_new features cap clients = Some (fs :: ('c, 'e) fan)" and "fan_run requests size_b evs fs = Some fs'"
    and "3 * length evs < 2 ^ 64 - 2"
  shows "unat (fr_inflight fs') = length (filter is_leased (th_tasks (fr_thread fs')))
    \<and> unat (fr_inflight fs') = length (filter busy (fr_clients fs'))
    \<and> fr_inflight fs' \<le> fr_peak fs' \<and> fr_peak fs' \<le> cap \<and> fr_next fs' \<le> requests
    \<and> (list_all (\<lambda>c. c = Returned) (fr_clients fs') \<longrightarrow> fr_inflight fs' = 0)"
proof -
  obtain cfg where cap: "max_size cfg = cap" and new: "fan_inv cfg features requests 0 fs"
    using fan_inv_new [OF assms(1)] by blast
  have inv: "fan_inv cfg features requests (0 + 3 * length evs) fs'"
    using assms(3) by (intro fan_run_inv [OF new assms(2)]) simp
  have "list_all (\<lambda>c. c = Returned) cs \<Longrightarrow> filter busy cs = []" for cs by (induction cs) auto
  with inv cap show ?thesis by (auto simp: fan_inv_def unat_eq_0 [symmetric])
qed

text \<open>
  One upstream, two clients, two requests: the second client waits until the first has given the upstream
  back, which its \<open>get\<close> is then handed.
\<close>

definition two_clients :: "(nat, nat) fan_event list" where
  "two_clients =
     [FirstPoll 0 0 0, FirstPoll 1 0 0, GetPolled 0 1 1 (Connected 7), Wrote 0 True 0 0 0 0,
      ReadDone 0 True 2 2 3 3, GetPolled 1 4 4 Resume, GetPolled 1 5 5 (Validity 7 True)]"

definition fan_final :: "nat \<Rightarrow> (nat, nat) fan_event list \<Rightarrow> (nat, nat) fan option" where
  "fan_final clients evs = (case fan_new False 1 clients of None \<Rightarrow> None | Some fs \<Rightarrow> fan_run 2 1 evs fs)"

lemmas fan_evals = step_evals fan_final_def fan_new_def set_client_def got_def poll_get_def claim_def
  round_over_def upstreams_has_broken_def build_def builder_defs builder_new_def register_def queued_at_def
  unregister_def release_slot_def release_slots_def note_expired_def saturating_sub_def Let_def

theorem fanout_within_capacity_witness:
  "\<exists>fs. fan_final 2 two_clients = Some fs \<and> fr_peak fs \<le> 1
     \<and> unat (fr_inflight fs) = length (filter busy (fr_clients fs))"
proof -
  have "fan_final 2 two_clients \<noteq> None" by (simp add: two_clients_def fan_evals)
  then obtain fs0 fs where "fan_new False 1 2 = Some fs0" and "fan_run 2 1 two_clients fs0 = Some fs"
    and "fan_final 2 two_clients = Some fs"
    by (auto simp: fan_final_def split: option.splits)
  with fanout_within_capacity [of False 1 2 fs0 2 1 two_clients fs] show ?thesis
    by (simp add: two_clients_def)
qed

text \<open>
  The upstreams ever opened are not bounded by the capacity: one that reaches \<open>max_lifetime\<close> during a round
  trip is closed when it is given back, and the next request opens another.
\<close>

definition slow_client :: "(nat, nat) fan_event list" where
  "slow_client =
     [FirstPoll 0 0 0, GetPolled 0 1 1 (Connected 7), Wrote 0 True 0 0 0 0,
      ReadDone 0 True (from_secs (31 * 60)) (from_secs (31 * 60)) (from_secs (31 * 60)) (from_secs (31 * 60)),
      GetPolled 0 (from_secs (31 * 60)) (from_secs (31 * 60)) (Connected 8)]"

lemma opens_past_capacity: "\<exists>fs. fan_final 1 slow_client = Some fs \<and> fr_opens fs = 2"
  by (simp add: slow_client_def fan_evals)

end
