(* ===== verification/Redis_Proxy.thy ===== *)
theory Redis_Proxy
  imports Streams
begin

text \<open>
  \<open>src/crates/deadpool-baseline/examples/redis_proxy.rs\<close>: a line protocol in front of one Redis
  server. The client library \<open>deadpool_redis\<close> is a parameter: a record of the five commands the
  proxy sends, each on a connection state. Lines are ASCII. \<open>handle\<close> starts with
  the connection \<open>pool.get()\<close> returned; start-up is in \<open>Tokio_Start\<close>.
\<close>

section \<open>The Redis client\<close>

record redis_error =
  is_io_error :: bool
  is_connection_dropped :: bool
  is_connection_refusal :: bool
  display :: string

record 'r redis =
  cmd_ping :: "'r \<Rightarrow> (redis_error + string) \<times> 'r"
  cmd_get :: "'r \<Rightarrow> string \<Rightarrow> (redis_error + string option) \<times> 'r"
  cmd_set :: "'r \<Rightarrow> string \<Rightarrow> string \<Rightarrow> (redis_error + unit) \<times> 'r"
  cmd_incr :: "'r \<Rightarrow> string \<Rightarrow> (redis_error + int) \<times> 'r"
  cmd_del :: "'r \<Rightarrow> string \<Rightarrow> (redis_error + int) \<times> 'r"

section \<open>Text\<close>

definition upper_char :: "char \<Rightarrow> char" where
  "upper_char c = (let n = of_char c :: nat in if 97 \<le> n \<and> n \<le> 122 then char_of (n - 32) else c)"

definition to_ascii_uppercase :: "string \<Rightarrow> string" where
  "to_ascii_uppercase s = map upper_char s"

definition show_int :: "int \<Rightarrow> string" where
  "show_int n = (if n < 0 then ''-'' @ show_nat (nat (- n)) else show_nat (nat n))"

text \<open>\<open>{:?}\<close> of an ASCII string.\<close>

fun show_hex :: "nat \<Rightarrow> string" where
  "show_hex n = (if n < 16 then [hex_char n] else show_hex (n div 16) @ [hex_char (n mod 16)])"

declare show_hex.simps [simp del]

definition escape_debug :: "char \<Rightarrow> string" where
  "escape_debug c =
     (let n = of_char c :: nat
      in if n = 0 then [CHR 0x5C, CHR ''0'']
         else if n = 9 then [CHR 0x5C, CHR ''t'']
         else if n = 10 then [CHR 0x5C, CHR ''n'']
         else if n = 13 then [CHR 0x5C, CHR ''r'']
         else if n = 34 \<or> n = 92 then [CHR 0x5C, c]
         else if n < 32 \<or> n = 127 then [CHR 0x5C, CHR ''u'', CHR ''{''] @ show_hex n @ ''}''
         else [c])"

definition debug_str :: "string \<Rightarrow> string" where
  "debug_str s = [CHR 0x22] @ concat (map escape_debug s) @ [CHR 0x22]"

section \<open>One request line\<close>

fun reply_of :: "(redis_error + string) \<Rightarrow> string \<times> bool" where
  "reply_of (Inr reply) = (reply @ [LF], False)"
| "reply_of (Inl e) =
     (''ERR '' @ display e @ [LF], is_io_error e \<or> is_connection_dropped e \<or> is_connection_refusal e)"

text \<open>The \<open>match\<close> on the command: the result it leaves, or nothing when it returns at once (\<open>QUIT\<close>).\<close>

definition command :: "'r redis \<Rightarrow> string \<Rightarrow> string list \<Rightarrow> 'r \<Rightarrow> (redis_error + string) option \<times> 'r" where
  "command R c parts conn =
     (if c = ''PING'' then (let (res, conn1) = cmd_ping R conn in (Some res, conn1))
      else if c = ''GET''
      then (case parts of
              key # _ \<Rightarrow>
                (let (res, conn1) = cmd_get R conn key
                 in (Some (map_sum (\<lambda>e. e) (\<lambda>v. case v of Some s \<Rightarrow> s | None \<Rightarrow> ''(nil)'') res), conn1))
            | [] \<Rightarrow> (Some (Inr ''ERR GET needs a key''), conn))
      else if c = ''SET''
      then (case parts of
              key # val # _ \<Rightarrow>
                (let (res, conn1) = cmd_set R conn key val in (Some (map_sum (\<lambda>e. e) (\<lambda>u. ''OK'') res), conn1))
            | _ \<Rightarrow> (Some (Inr ''ERR SET needs a key and a value''), conn))
      else if c = ''INCR''
      then (case parts of
              key # _ \<Rightarrow> (let (res, conn1) = cmd_incr R conn key in (Some (map_sum (\<lambda>e. e) show_int res), conn1))
            | [] \<Rightarrow> (Some (Inr ''ERR INCR needs a key''), conn))
      else if c = ''DEL''
      then (case parts of
              key # _ \<Rightarrow> (let (res, conn1) = cmd_del R conn key in (Some (map_sum (\<lambda>e. e) show_int res), conn1))
            | [] \<Rightarrow> (Some (Inr ''ERR DEL needs a key''), conn))
      else if c = ''QUIT'' then (None, conn)
      else (Some (Inr (''ERR unknown command '' @ debug_str c)), conn))"

definition run :: "'r redis \<Rightarrow> string \<Rightarrow> 'r \<Rightarrow> (string \<times> bool) \<times> 'r" where
  "run R line conn =
     (case split_whitespace line of
        [] \<Rightarrow> ((''ERR empty command'' @ [LF], False), conn)
      | c # parts \<Rightarrow>
          (case command R (to_ascii_uppercase c) parts conn of
             (None, conn1) \<Rightarrow> ((''BYE'' @ [LF], True), conn1)
           | (Some res, conn1) \<Rightarrow> (reply_of res, conn1)))"

section \<open>One inbound connection\<close>

text \<open>
  What the peer sends before the stream ends, and whether it ends in an error rather than in a close:
  \<open>BufReader::read_line\<close> returns the bytes up to and including the next newline, at a clean end what
  is left, and nothing of a line cut off by an error.
\<close>

record inbound =
  input :: string
  cut_off :: bool

definition buf_read_line :: "inbound \<Rightarrow> string option \<times> inbound" where
  "buf_read_line s =
     (let line = takeWhile (\<lambda>c. c \<noteq> LF) (input s); rest = dropWhile (\<lambda>c. c \<noteq> LF) (input s)
      in case rest of
           c # cs \<Rightarrow> (Some (line @ [c]), s\<lparr>input := cs\<rparr>)
         | [] \<Rightarrow> (if cut_off s then None else Some line, s\<lparr>input := []\<rparr>))"

definition trim_line_end :: "string \<Rightarrow> string" where
  "trim_line_end s = rev (dropWhile (\<lambda>c. c = CR \<or> c = LF) (rev s))"

text \<open>\<open>handle\<close>: the replies it writes, while writes succeed, and the connection it gives back.\<close>

fun proxy_handle :: "'r redis \<Rightarrow> bool list \<Rightarrow> inbound \<Rightarrow> 'r \<Rightarrow> string list \<times> 'r" where
  "proxy_handle R [] s conn = ([], conn)"
| "proxy_handle R (write_ok # oks) s conn =
     (case buf_read_line s of
        (None, s1) \<Rightarrow> ([], conn)
      | (Some line, s1) \<Rightarrow>
          if line = [] then ([], conn)
          else
            (case run R (trim_line_end line) conn of
               ((reply, fatal), conn1) \<Rightarrow>
                 if \<not> write_ok \<or> fatal then ([reply], conn1)
                 else (let (replies, conn2) = proxy_handle R oks s1 conn1 in (reply # replies, conn2))))"

section \<open>Start-up\<close>

datatype mode = Percore | Default

record 'a launch =
  launch_addr :: 'a
  launch_cap :: nat
  launch_workers :: nat
  launch_mode :: mode

fun next_arg :: "string list \<Rightarrow> string option \<times> string list" where
  "next_arg [] = (None, [])"
| "next_arg (a # as) = (Some a, as)"

definition usize_arg :: "nat \<Rightarrow> string option \<Rightarrow> 'e io_error + nat" where
  "usize_arg fallback a =
     (case a of
        None \<Rightarrow> Inr fallback
      | Some s \<Rightarrow> (case parse_usize s of Some n \<Rightarrow> Inr n | None \<Rightarrow> Inl (InvalidInput ''usize'')))"

text \<open>
  \<open>main\<close> up to the dispatch on the mode; how an address parses is a parameter, and the text a parse
  error carries is left out.
\<close>

definition main_args :: "(string \<Rightarrow> 'a option) \<Rightarrow> nat \<Rightarrow> string list \<Rightarrow> 'e io_error + 'a launch" where
  "main_args parse_addr parallelism args =
     (let (a, args1) = next_arg args
      in case parse_addr (case a of Some s \<Rightarrow> s | None \<Rightarrow> ''0.0.0.0:7000'') of
           None \<Rightarrow> Inl (InvalidInput ''bad address'')
         | Some addr \<Rightarrow>
             (let (c, args2) = next_arg args1
              in case usize_arg 1024 c of
                   Inl e \<Rightarrow> Inl e
                 | Inr cap \<Rightarrow>
                     (let (w, args3) = next_arg args2
                      in case usize_arg parallelism w of
                           Inl e \<Rightarrow> Inl e
                         | Inr workers \<Rightarrow>
                             (let (m, args4) = next_arg args3;
                                  mode = (case m of Some s \<Rightarrow> s | None \<Rightarrow> ''percore'')
                              in if mode = ''percore'' then Inr \<lparr>launch_addr = addr, launch_cap = cap, launch_workers = workers, launch_mode = Percore\<rparr>
                                 else if mode = ''default'' then Inr \<lparr>launch_addr = addr, launch_cap = cap, launch_workers = workers, launch_mode = Default\<rparr>
                                 else Inl (InvalidInput (''mode must be percore or default, got '' @ debug_str mode))))))"

text \<open>\<open>CPU_SETSIZE\<close> is 1024; the mask is absent when \<open>sched_getaffinity\<close> fails.\<close>

definition proxy_core_ids :: "(nat \<Rightarrow> bool) option \<Rightarrow> nat \<Rightarrow> nat list" where
  "proxy_core_ids affinity parallelism =
     (case affinity of Some isset \<Rightarrow> filter isset [0..<1024] | None \<Rightarrow> [0..<parallelism])"

definition worker_core :: "nat list \<Rightarrow> nat \<Rightarrow> nat option" where
  "worker_core cores i =
     (let j = i mod max (length cores) 1 in if j < length cores then Some (cores ! j) else None)"

section \<open>One reply line per request line\<close>

definition plain_reply :: "redis_error + string \<Rightarrow> bool" where
  "plain_reply res = (case res of Inl e \<Rightarrow> LF \<notin> set (display e) | Inr s \<Rightarrow> LF \<notin> set s)"

lemma plain_reply_Inr [simp]: "plain_reply (Inr s) \<longleftrightarrow> LF \<notin> set s"
  by (simp add: plain_reply_def)

text \<open>
  A server whose texts hold no newline as long as no value with one is stored: what it stores is
  tracked by the predicate \<open>good\<close>.
\<close>

definition plain_redis :: "'r redis \<Rightarrow> ('r \<Rightarrow> bool) \<Rightarrow> bool" where
  "plain_redis R good =
     ((\<forall>r res r'. good r \<longrightarrow> cmd_ping R r = (res, r') \<longrightarrow> good r' \<and> plain_reply res) \<and>
      (\<forall>r k res r'. good r \<longrightarrow> cmd_get R r k = (res, r') \<longrightarrow> good r' \<and>
         (case res of Inl e \<Rightarrow> LF \<notin> set (display e) | Inr (Some s) \<Rightarrow> LF \<notin> set s | Inr None \<Rightarrow> True)) \<and>
      (\<forall>r k v res r'. good r \<longrightarrow> LF \<notin> set v \<longrightarrow> cmd_set R r k v = (res, r') \<longrightarrow> good r' \<and>
         (case res of Inl e \<Rightarrow> LF \<notin> set (display e) | Inr u \<Rightarrow> True)) \<and>
      (\<forall>r k res r'. good r \<longrightarrow> cmd_incr R r k = (res, r') \<longrightarrow> good r' \<and>
         (case res of Inl e \<Rightarrow> LF \<notin> set (display e) | Inr n \<Rightarrow> True)) \<and>
      (\<forall>r k res r'. good r \<longrightarrow> cmd_del R r k = (res, r') \<longrightarrow> good r' \<and>
         (case res of Inl e \<Rightarrow> LF \<notin> set (display e) | Inr n \<Rightarrow> True)))"

lemma reply_of_line: "plain_reply res \<Longrightarrow> one_line (fst (reply_of res))"
  by (cases res) (auto simp: plain_reply_def LF_def one_line_def)

lemma show_int_no_LF [simp]: "LF \<notin> set (show_int n)"
  by (simp add: show_int_def)

lemma hex_char_no_LF: "d < 16 \<Longrightarrow> hex_char d \<noteq> LF"
proof
  assume d: "d < 16" and e: "hex_char d = LF"
  have "(of_char (hex_char d) :: nat) = (if d < 10 then 48 + d else 87 + d)" using d by (simp add: hex_char_def)
  then show False using e d by (simp add: LF_def split: if_splits)
qed

lemma show_hex_no_LF: "LF \<notin> set (show_hex n)"
proof (induction n rule: show_hex.induct)
  case (1 n)
  then show ?case
    using hex_char_no_LF [of n] hex_char_no_LF [of "n mod 16"] by (auto simp: show_hex.simps [of n])
qed

lemma escape_debug_no_LF: "LF \<notin> set (escape_debug c)"
proof (cases "of_char c = (10 :: nat)")
  case False
  then have "c \<noteq> LF" by (auto simp: LF_def)
  then show ?thesis using show_hex_no_LF by (auto simp: escape_debug_def Let_def LF_def)
qed (simp add: escape_debug_def LF_def)

lemma debug_str_no_LF: "LF \<notin> set (debug_str s)"
  using escape_debug_no_LF by (auto simp: debug_str_def LF_def)

lemma word_no_LF: "w \<in> set (split_whitespace line) \<Longrightarrow> LF \<notin> set w"
proof -
  assume "w \<in> set (split_whitespace line)"
  then have "\<forall>c \<in> set w. \<not> is_space c"
    using words_from_nonspace [of "[]" line] by (auto simp: split_whitespace_def list_all_iff)
  moreover have "is_space LF" by (simp add: is_space_def LF_def)
  ultimately show ?thesis by blast
qed

text \<open>What each call of the client library gives such a server's proxy.\<close>

lemma ping_plain: "plain_redis R good \<Longrightarrow> good conn \<Longrightarrow> cmd_ping R conn = (x, r') \<Longrightarrow> good r' \<and> plain_reply x"
  unfolding plain_redis_def by blast

lemma get_plain:
  assumes "plain_redis R good" "good conn" "cmd_get R conn k = (x, r')"
  shows "good r' \<and> plain_reply (map_sum (\<lambda>e. e) (\<lambda>v. case v of Some s \<Rightarrow> s | None \<Rightarrow> ''(nil)'') x)"
proof -
  have "good r' \<and> (case x of Inl e \<Rightarrow> LF \<notin> set (display e) | Inr (Some s) \<Rightarrow> LF \<notin> set s | Inr None \<Rightarrow> True)"
    using assms unfolding plain_redis_def by blast
  then show ?thesis by (auto simp: plain_reply_def split: sum.splits option.splits)
qed

lemma set_plain:
  assumes "plain_redis R good" "good conn" "cmd_set R conn k v = (x, r')" "LF \<notin> set v"
  shows "good r' \<and> plain_reply (map_sum (\<lambda>e. e) (\<lambda>u. ''OK'') x)"
proof -
  have "good r' \<and> (case x of Inl e \<Rightarrow> LF \<notin> set (display e) | Inr u \<Rightarrow> True)"
    using assms unfolding plain_redis_def by blast
  then show ?thesis by (cases x) (simp_all add: plain_reply_def)
qed

lemma count_plain:
  assumes "plain_redis R good" "good conn" "cmd_incr R conn k = (x, r') \<or> cmd_del R conn k = (x, r')"
  shows "good r' \<and> plain_reply (map_sum (\<lambda>e. e) show_int x)"
proof -
  have "good r' \<and> (case x of Inl e \<Rightarrow> LF \<notin> set (display e) | Inr n \<Rightarrow> True)"
    using assms unfolding plain_redis_def by blast
  then show ?thesis by (cases x) (simp_all add: plain_reply_def)
qed

lemma command_plain:
  assumes R: "plain_redis R good" and g: "good conn" and p: "list_all (\<lambda>w. LF \<notin> set w) parts"
    and r: "command R c parts conn = (res, conn')"
  shows "good conn' \<and> (case res of None \<Rightarrow> True | Some x \<Rightarrow> plain_reply x)"
proof -
  note ping = ping_plain [OF R g] and get = get_plain [OF R g] and put = set_plain [OF R g] and incr = count_plain [OF R g]
  consider "c = ''PING''" | "c = ''GET''" | "c = ''SET''" | "c = ''INCR''" | "c = ''DEL''"
    | "c \<notin> {''PING'', ''GET'', ''SET'', ''INCR'', ''DEL''}" by auto
  then show ?thesis
  proof cases
    case 1
    with r ping show ?thesis by (auto simp: command_def split: prod.splits)
  next
    case 2
    with r g get show ?thesis by (cases parts) (auto simp: command_def split: prod.splits)
  next
    case 3
    with r g p put show ?thesis by (auto simp: command_def split: prod.splits list.splits)
  next
    case 4
    with r g incr [OF disjI1] show ?thesis by (cases parts) (auto simp: command_def split: prod.splits)
  next
    case 5
    with r g incr [OF disjI2] show ?thesis by (cases parts) (auto simp: command_def split: prod.splits)
  next
    case 6
    with r g debug_str_no_LF [of c] show ?thesis by (auto simp: command_def split: if_splits)
  qed
qed

lemma run_one_line:
  assumes "plain_redis R good" and "good conn" and r: "run R line conn = ((reply, fatal), conn')"
  shows "one_line reply \<and> good conn'"
proof (cases "split_whitespace line")
  case Nil
  then show ?thesis using r assms(2) by (auto simp: run_def one_line_def LF_def)
next
  case (Cons c parts)
  have p: "list_all (\<lambda>w. LF \<notin> set w) parts" using word_no_LF [of _ line] Cons by (simp add: list_all_iff)
  obtain res conn1 where res: "command R (to_ascii_uppercase c) parts conn = (res, conn1)"
    by (cases "command R (to_ascii_uppercase c) parts conn")
  show ?thesis
    using command_plain [OF assms(1,2) p res] reply_of_line [of "the res"] r Cons res one_line_snoc [of "''BYE''"]
    by (cases res) (auto simp: run_def LF_def)
qed

section \<open>A connection is a sequence of request lines\<close>

text \<open>What the proxy does, on lines: answer each one in turn, until one is fatal.\<close>

fun answers :: "'r redis \<Rightarrow> string list \<Rightarrow> 'r \<Rightarrow> string list \<times> 'r" where
  "answers R [] conn = ([], conn)"
| "answers R (line # lines) conn =
     (case run R (trim_line_end line) conn of
        ((reply, fatal), conn1) \<Rightarrow>
          if fatal then ([reply], conn1)
          else (let (replies, conn2) = answers R lines conn1 in (reply # replies, conn2)))"

lemma buf_read_line_line:
  "one_line line \<Longrightarrow> buf_read_line \<lparr>input = line @ rest, cut_off = b\<rparr> = (Some line, \<lparr>input = rest, cut_off = b\<rparr>)"
proof -
  assume "one_line line"
  then obtain body where body: "line = body @ [LF]" "LF \<notin> set body"
    by (metis append_butlast_last_id one_line_def)
  then have "takeWhile (\<lambda>c. c \<noteq> LF) (line @ rest) = body" "dropWhile (\<lambda>c. c \<noteq> LF) (line @ rest) = LF # rest"
    by (simp_all add: takeWhile_append dropWhile_append)
  then show ?thesis using body by (simp add: buf_read_line_def)
qed

lemma handle_at_end: "proxy_handle R oks \<lparr>input = [], cut_off = b\<rparr> conn = ([], conn)"
  by (cases oks) (simp_all add: buf_read_line_def)

lemma handle_answers:
  "list_all one_line lines \<Longrightarrow> length lines \<le> n \<Longrightarrow>
   proxy_handle R (replicate n True) \<lparr>input = concat lines, cut_off = b\<rparr> conn = answers R lines conn"
proof (induction lines arbitrary: conn n)
  case (Cons line lines)
  then obtain m where "n = Suc m" "length lines \<le> m" by (cases n) auto
  moreover have "line \<noteq> []" using Cons.prems(1) by (auto simp: one_line_def)
  ultimately show ?case using Cons by (simp add: buf_read_line_line split: prod.split)
qed (simp add: handle_at_end)

lemma answers_plain:
  "plain_redis R good \<Longrightarrow> good conn \<Longrightarrow> answers R lines conn = (replies, conn') \<Longrightarrow>
   list_all one_line replies \<and> good conn' \<and> length replies \<le> length lines"
proof (induction lines arbitrary: conn replies conn')
  case (Cons line lines)
  obtain reply fatal conn1 where r: "run R (trim_line_end line) conn = ((reply, fatal), conn1)"
    by (metis surj_pair)
  have one: "one_line reply" "good conn1" using run_one_line [OF Cons.prems(1,2) r] by blast+
  show ?case
  proof (cases fatal)
    case True
    then show ?thesis using Cons.prems(3) r one by auto
  next
    case False
    obtain rs c2 where rs: "answers R lines conn1 = (rs, c2)" by (cases "answers R lines conn1")
    then show ?thesis using Cons.prems(3) r one False Cons.IH [OF Cons.prems(1) one(2) rs] by auto
  qed
qed simp


section \<open>What is set can be read back\<close>

text \<open>The documented behaviour of \<open>SET\<close> and \<open>GET\<close>, over what the connection's server stores.\<close>

definition stores_values :: "'r redis \<Rightarrow> ('r \<Rightarrow> string \<Rightarrow> string option) \<Rightarrow> bool" where
  "stores_values R store =
     ((\<forall>r k. cmd_get R r k = (Inr (store r k), r)) \<and>
      (\<forall>r k v. \<exists>r'. cmd_set R r k v = (Inr (), r') \<and> store r' = (store r)(k \<mapsto> v)))"

definition word :: "string \<Rightarrow> bool" where
  "word w = (w \<noteq> [] \<and> list_all (\<lambda>c. \<not> is_space c) w)"

lemma is_space_space [simp]: "is_space (CHR '' '')" "is_space LF" "is_space CR"
  by (simp_all add: is_space_def LF_def CR_def)

lemma word_uppercase: "to_ascii_uppercase c = u \<Longrightarrow> word u \<Longrightarrow> word c"
proof -
  assume u: "to_ascii_uppercase c = u" "word u"
  have "upper_char x = x" if "is_space x" for x
    using that by (auto simp: is_space_def upper_char_def Let_def)
  then show ?thesis using u by (force simp: word_def to_ascii_uppercase_def list_all_iff)
qed

lemma trim_line: "\<not> is_space (last s) \<Longrightarrow> s \<noteq> [] \<Longrightarrow> trim_line_end (s @ [LF]) = s"
  by (cases s rule: rev_cases) (auto simp: trim_line_end_def)

lemma split_three:
  assumes "word a" "word b" "word c"
  shows "split_whitespace (a @ '' '' @ b @ '' '' @ c) = [a, b, c]" "split_whitespace (a @ '' '' @ b) = [a, b]"
  using assms by (simp_all add: word_def split_whitespace_word)

lemma last_word: "word w \<Longrightarrow> \<not> is_space (last (s @ w)) \<and> s @ w \<noteq> []"
  by (auto simp: word_def list_all_iff)

lemma word_line: "word w \<Longrightarrow> LF \<notin> set w"
  by (auto simp: word_def list_all_iff)

lemma run_set:
  assumes "stores_values R store" "to_ascii_uppercase c = ''SET''" "word k" "word v"
  shows "\<exists>conn'. run R (trim_line_end (c @ '' '' @ k @ '' '' @ v @ [LF])) conn = ((''OK'' @ [LF], False), conn')
           \<and> store conn' = (store conn)(k \<mapsto> v)"
proof -
  have c: "word c" using word_uppercase [OF assms(2)] by (simp add: word_def is_space_def)
  have "trim_line_end ((c @ '' '' @ k @ '' '' @ v) @ [LF]) = c @ '' '' @ k @ '' '' @ v"
    using last_word [OF assms(4), of "c @ '' '' @ k @ '' ''"] by (intro trim_line) simp_all
  moreover obtain conn' where "cmd_set R conn k v = (Inr (), conn')" "store conn' = (store conn)(k \<mapsto> v)"
    using assms(1) unfolding stores_values_def by blast
  ultimately show ?thesis
    using split_three(1) [OF c assms(3,4)] assms(2) by (simp add: run_def command_def)
qed

lemma run_get:
  assumes "stores_values R store" "to_ascii_uppercase c = ''GET''" "word k" "store conn k = Some v"
  shows "run R (trim_line_end (c @ '' '' @ k @ [LF])) conn = ((v @ [LF], False), conn)"
proof -
  have c: "word c" using word_uppercase [OF assms(2)] by (simp add: word_def is_space_def)
  have "trim_line_end ((c @ '' '' @ k) @ [LF]) = c @ '' '' @ k"
    using last_word [OF assms(3), of "c @ '' ''"] by (intro trim_line) simp_all
  moreover have "cmd_get R conn k = (Inr (Some v), conn)"
    using assms(1,4) unfolding stores_values_def by simp
  ultimately show ?thesis
    using split_three(2) [OF c assms(3) assms(3)] assms(2) by (simp add: run_def command_def)
qed

text \<open>
  Through the proxy, what was set is read back: after \<open>SET k v\<close> the reply to \<open>GET k\<close> is \<open>v\<close>, for any
  words \<open>k\<close> and \<open>v\<close> and any spelling of the command names, over a server that stores values.
\<close>

theorem proxy_set_then_get:
  assumes "stores_values R store" and "word k" and "word v"
    and "to_ascii_uppercase set_name = ''SET''" and "to_ascii_uppercase get_name = ''GET''"
  shows "fst (proxy_handle R [True, True]
      \<lparr>input = set_name @ '' '' @ k @ '' '' @ v @ [LF] @ get_name @ '' '' @ k @ [LF], cut_off = b\<rparr> conn)
    = [''OK'' @ [LF], v @ [LF]]"
proof -
  let ?ls = "[set_name @ '' '' @ k @ '' '' @ v @ [LF], get_name @ '' '' @ k @ [LF]]"
  have "word set_name" "word get_name"
    using word_uppercase [OF assms(4)] word_uppercase [OF assms(5)] by (simp_all add: word_def is_space_def)
  then have "LF \<notin> set (set_name @ '' '' @ k @ '' '' @ v)" "LF \<notin> set (get_name @ '' '' @ k)"
    using word_line assms(2,3) by auto
  then have lines: "list_all one_line ?ls"
    using one_line_snoc [of "set_name @ '' '' @ k @ '' '' @ v"] one_line_snoc [of "get_name @ '' '' @ k"] by simp
  obtain conn1 where s: "run R (trim_line_end (set_name @ '' '' @ k @ '' '' @ v @ [LF])) conn = ((''OK'' @ [LF], False), conn1)"
    and st: "store conn1 = (store conn)(k \<mapsto> v)"
    using run_set [OF assms(1,4,2,3)] by blast
  have g: "run R (trim_line_end (get_name @ '' '' @ k @ [LF])) conn1 = ((v @ [LF], False), conn1)"
    by (rule run_get [OF assms(1,5,2)]) (simp add: st)
  have "answers R ?ls conn = ([''OK'' @ [LF], v @ [LF]], conn1)" using s g by simp
  then show ?thesis using handle_answers [OF lines le_refl, of R b conn] by (simp add: numeral_eq_Suc)
qed

section \<open>An in-memory server\<close>

text \<open>A server that meets both contracts: an association list, with Redis's error on a bad increment.\<close>

definition not_integer :: redis_error where
  "not_integer = \<lparr>is_io_error = False, is_connection_dropped = False, is_connection_refusal = False,
     display = ''value is not an integer''\<rparr>"

definition memory_redis :: "(string \<times> string) list redis" where
  "memory_redis =
     \<lparr>cmd_ping = (\<lambda>m. (Inr ''PONG'', m)),
      cmd_get = (\<lambda>m k. (Inr (map_of m k), m)),
      cmd_set = (\<lambda>m k v. (Inr (), (k, v) # m)),
      cmd_incr = (\<lambda>m k. case map_of m k of
          None \<Rightarrow> (Inr 1, (k, ''1'') # m)
        | Some s \<Rightarrow> (case parse_usize s of
              None \<Rightarrow> (Inl not_integer, m)
            | Some n \<Rightarrow> (Inr (int n + 1), (k, show_nat (n + 1)) # m))),
      cmd_del = (\<lambda>m k. (Inr (if map_of m k = None then 0 else 1), filter (\<lambda>kv. fst kv \<noteq> k) m))\<rparr>"

definition memory_plain :: "(string \<times> string) list \<Rightarrow> bool" where
  "memory_plain m = list_all (\<lambda>kv. LF \<notin> set (snd kv)) m"

lemma memory_stores: "stores_values memory_redis map_of"
  by (simp add: stores_values_def memory_redis_def)

lemma memory_plain_redis: "plain_redis memory_redis memory_plain"
proof -
  have "LF \<notin> set s" if "memory_plain m" "map_of m k = Some s" for m k s
    using map_of_SomeD [OF that(2)] that(1) by (auto simp: memory_plain_def list_all_iff)
  then show ?thesis
    unfolding plain_redis_def memory_redis_def
    by (auto simp: memory_plain_def list_all_iff not_integer_def split: option.splits)
qed


theorem proxy_set_then_get_witness:
  "fst (proxy_handle memory_redis [True, True]
      \<lparr>input = ''set'' @ '' '' @ ''a'' @ '' '' @ ''xx'' @ [LF] @ ''Get'' @ '' '' @ ''a'' @ [LF], cut_off = False\<rparr> [])
    = [''OK'' @ [LF], ''xx'' @ [LF]]"
  by (rule proxy_set_then_get [OF memory_stores]; code_simp)

end
