(* ===== verification/Kvload.thy ===== *)
theory Kvload
  imports Redis_Proxy
begin

unbundle bit_operations_syntax

text \<open>
  \<open>src/examples/kvload.rs\<close>: the load generator that drives the key-value servers. The server at the
  other end is a parameter: given what was written it returns the bytes it sends back, or nothing when
  the write fails. Resolving an address is a parameter too. The text a parse error carries is left
  out; what \<open>main\<close> prints is in \<open>Latency_Report\<close>.
\<close>

section \<open>Options\<close>

datatype workload = Get | Set | Incr | Ping | Mix

record 'a opts =
  addrs :: "'a list"
  conns :: nat
  seconds :: u64
  workload :: workload
  val_len :: nat
  keys :: nat
  pipeline :: nat

fun split_char_from :: "char \<Rightarrow> string \<Rightarrow> string \<Rightarrow> string list" where
  "split_char_from d acc [] = [acc]"
| "split_char_from d acc (c # cs) =
     (if c = d then acc # split_char_from d [] cs else split_char_from d (acc @ [c]) cs)"

fun resolve_all :: "(string \<Rightarrow> 'a list option) \<Rightarrow> string list \<Rightarrow> 'e io_error + 'a list" where
  "resolve_all resolve [] = Inr []"
| "resolve_all resolve (a # as) =
     (case resolve a of
        None \<Rightarrow> Inl (InvalidInput (''bad address '' @ a))
      | Some [] \<Rightarrow> Inl (InvalidInput (''address '' @ a @ '' resolved to nothing''))
      | Some (sa # _) \<Rightarrow>
          (case resolve_all resolve as of Inl e \<Rightarrow> Inl e | Inr sas \<Rightarrow> Inr (sa # sas)))"

definition workload_of :: "string \<Rightarrow> workload option" where
  "workload_of v =
     (if v = ''get'' then Some Get else if v = ''set'' then Some Set else if v = ''incr'' then Some Incr
      else if v = ''ping'' then Some Ping else if v = ''mix'' then Some Mix else None)"

text \<open>One turn of the flag loop.\<close>

definition set_flag :: "string \<Rightarrow> string \<Rightarrow> 'a opts \<Rightarrow> 'e io_error + 'a opts" where
  "set_flag flag v opt =
     (if flag = ''--conns''
      then (case parse_usize v of Some n \<Rightarrow> Inr (opt\<lparr>conns := n\<rparr>) | None \<Rightarrow> Inl (InvalidInput ''--conns''))
      else if flag = ''--seconds''
      then (case parse_usize v of Some n \<Rightarrow> Inr (opt\<lparr>seconds := of_nat n\<rparr>) | None \<Rightarrow> Inl (InvalidInput ''--seconds''))
      else if flag = ''--value''
      then (case parse_usize v of Some n \<Rightarrow> Inr (opt\<lparr>val_len := n\<rparr>) | None \<Rightarrow> Inl (InvalidInput ''--value''))
      else if flag = ''--keys''
      then (case parse_usize v of Some n \<Rightarrow> Inr (opt\<lparr>keys := n\<rparr>) | None \<Rightarrow> Inl (InvalidInput ''--keys''))
      else if flag = ''--pipeline''
      then (case parse_usize v of Some n \<Rightarrow> Inr (opt\<lparr>pipeline := n\<rparr>) | None \<Rightarrow> Inl (InvalidInput ''--pipeline''))
      else if flag = ''--workload''
      then (case workload_of v of
              Some w \<Rightarrow> Inr (opt\<lparr>workload := w\<rparr>)
            | None \<Rightarrow> Inl (InvalidInput (''unknown workload '' @ v)))
      else Inl (InvalidInput (''unknown flag '' @ flag)))"

fun set_flags :: "string list \<Rightarrow> 'a opts \<Rightarrow> 'e io_error + 'a opts" where
  "set_flags [] opt = Inr opt"
| "set_flags [flag] opt = Inl (InvalidInput (flag @ '' needs a value''))"
| "set_flags (flag # v # args) opt =
     (case set_flag flag v opt of Inl e \<Rightarrow> Inl e | Inr opt1 \<Rightarrow> set_flags args opt1)"

definition clamp :: "'a opts \<Rightarrow> 'a opts" where
  "clamp opt = opt\<lparr>conns := max (conns opt) 1, keys := max (keys opt) 1, pipeline := max (pipeline opt) 1\<rparr>"

definition parse :: "(string \<Rightarrow> 'a list option) \<Rightarrow> string list \<Rightarrow> 'e io_error + 'a opts" where
  "parse resolve args =
     (case args of
        [] \<Rightarrow> Inl (InvalidInput ''usage: kvload ADDR[,ADDR...] [--conns N] [--seconds S] [--workload W] [--value B] [--keys K] [--pipeline P]'')
      | addr_arg # flags \<Rightarrow>
          (case resolve_all resolve (filter (\<lambda>s. s \<noteq> []) (split_char_from (CHR '','') [] addr_arg)) of
             Inl e \<Rightarrow> Inl e
           | Inr sas \<Rightarrow>
               if sas = [] then Inl (InvalidInput ''no address given'')
               else
                 (case set_flags flags
                    \<lparr>addrs = sas, conns = 64, seconds = 5, workload = Get, val_len = 16, keys = 128, pipeline = 1\<rparr> of
                    Inl e \<Rightarrow> Inl e
                  | Inr opt \<Rightarrow> Inr (clamp opt))))"

section \<open>Random keys\<close>

definition next_rng :: "u64 \<Rightarrow> u64" where
  "next_rng s =
     (let x1 = s XOR push_bit 13 s;
          x2 = x1 XOR drop_bit 7 x1
      in x2 XOR push_bit 17 x2)"

definition seed :: "nat \<Rightarrow> u64" where
  "seed i = 0x9e3779b97f4a7c15 XOR (of_nat i * 0xd1b54a32d192) XOR 1"

definition key :: "nat \<Rightarrow> 'a opts \<Rightarrow> u64 \<Rightarrow> string" where
  "key i opt n = show_nat i @ '':'' @ show_nat (unat (n mod of_nat (keys opt)))"

section \<open>One connection\<close>

text \<open>The read loop of \<open>round\<close>: \<open>n\<close> lines, the last one in \<open>scratch\<close>; an empty line means the server closed.\<close>

fun read_replies :: "nat \<Rightarrow> string \<Rightarrow> string \<Rightarrow> ('e io_error + string) \<times> string" where
  "read_replies 0 scratch s = (Inr scratch, s)"
| "read_replies (Suc n) scratch s =
     (let (line, rest) = next_line s
      in if line = [] then (Inl (UnexpectedEof ''server closed''), rest) else read_replies n line rest)"

record 's kv_conn =
  server :: 's
  unread_in :: string

text \<open>\<open>round\<close>, with the server's side of the exchange as a function of its state.\<close>

definition kv_round :: "('s \<Rightarrow> string \<Rightarrow> string option \<times> 's) \<Rightarrow> string \<Rightarrow> nat \<Rightarrow> string \<Rightarrow> 's kv_conn
    \<Rightarrow> ('e io_error + string) \<times> 's kv_conn" where
  "kv_round serve batch n scratch c =
     (case serve (server c) batch of
        (None, s1) \<Rightarrow> (Inl (BrokenPipe ''write''), c\<lparr>server := s1\<rparr>)
      | (Some sent, s1) \<Rightarrow>
          (let (r, rest) = read_replies n scratch (unread_in c @ sent)
           in (r, \<lparr>server = s1, unread_in = rest\<rparr>)))"

definition set_line :: "string \<Rightarrow> string \<Rightarrow> string" where
  "set_line k v = ''SET '' @ k @ '' '' @ v @ [LF]"

definition get_line :: "string \<Rightarrow> string" where
  "get_line k = ''GET '' @ k @ [LF]"

definition op_line :: "workload \<Rightarrow> nat \<Rightarrow> string \<Rightarrow> string \<Rightarrow> string" where
  "op_line w p k v =
     (case w of
        Get \<Rightarrow> get_line k
      | Set \<Rightarrow> set_line k v
      | Incr \<Rightarrow> ''INCR '' @ k @ [LF]
      | Ping \<Rightarrow> ''PING'' @ [LF]
      | Mix \<Rightarrow> if p mod 2 = 0 then set_line k v else get_line k)"

text \<open>The lines of one batch, from position \<open>p\<close> on, and the generator's next state.\<close>

fun batch_lines :: "nat \<Rightarrow> 'a opts \<Rightarrow> string \<Rightarrow> nat \<Rightarrow> nat \<Rightarrow> u64 \<Rightarrow> string list \<times> u64" where
  "batch_lines i opt v p 0 rng = ([], rng)"
| "batch_lines i opt v p (Suc n) rng =
     (let rng1 = next_rng rng;
          (ls, rng2) = batch_lines i opt v (Suc p) n rng1
      in (op_line (workload opt) p (key i opt rng1) v # ls, rng2))"

definition mismatch :: "'a opts \<Rightarrow> string \<Rightarrow> bool" where
  "mismatch opt scratch =
     (case workload opt of
        Get \<Rightarrow> length (trim_end scratch) \<noteq> val_len opt
      | Ping \<Rightarrow> trim_end scratch \<noteq> ''PONG''
      | _ \<Rightarrow> False)"

record conn_result =
  latencies :: "u64 list"
  ops :: u64
  mismatches :: u64

text \<open>The timed loop: one entry of the clock per turn, the nanoseconds it took.\<close>

fun timed_loop :: "('s \<Rightarrow> string \<Rightarrow> string option \<times> 's) \<Rightarrow> nat \<Rightarrow> 'a opts \<Rightarrow> string \<Rightarrow> u64 list \<Rightarrow> u64 \<Rightarrow> string
    \<Rightarrow> 's kv_conn \<Rightarrow> conn_result \<Rightarrow> ('e io_error + conn_result) \<times> 's kv_conn" where
  "timed_loop serve i opt v [] rng scratch c res = (Inr res, c)"
| "timed_loop serve i opt v (t # clock) rng scratch c res =
     (let (ls, rng1) = batch_lines i opt v 0 (pipeline opt) rng
      in case kv_round serve (concat ls) (pipeline opt) scratch c of
           (Inl (e :: 'e io_error), c1) \<Rightarrow> (Inl (BrokenPipe ''round failed''), c1)
         | (Inr scratch1, c1) \<Rightarrow>
             timed_loop serve i opt v clock rng1 scratch1 c1
               \<lparr>latencies = latencies res @ [t],
                ops = ops res + of_nat (pipeline opt),
                mismatches = mismatches res + (if mismatch opt scratch1 then 1 else 0)\<rparr>)"

fun warm_keys :: "('s \<Rightarrow> string \<Rightarrow> string option \<times> 's) \<Rightarrow> nat \<Rightarrow> 'a opts \<Rightarrow> string \<Rightarrow> nat list \<Rightarrow> string
    \<Rightarrow> 's kv_conn \<Rightarrow> ('e io_error + string) \<times> 's kv_conn" where
  "warm_keys serve i opt v [] scratch c = (Inr scratch, c)"
| "warm_keys serve i opt v (n # ns) scratch c =
     (case kv_round serve (set_line (key i opt (of_nat n)) v) 1 scratch c of
        (Inl e, c1) \<Rightarrow> (Inl e, c1)
      | (Inr scratch1, c1) \<Rightarrow> warm_keys serve i opt v ns scratch1 c1)"

definition run_conn :: "('s \<Rightarrow> string \<Rightarrow> string option \<times> 's) \<Rightarrow> nat \<Rightarrow> 'a opts \<Rightarrow> u64 list \<Rightarrow> 's
    \<Rightarrow> ('e io_error + conn_result) \<times> 's kv_conn" where
  "run_conn serve i opt clock s =
     (let v = replicate (val_len opt) (CHR ''x'');
          c = \<lparr>server = s, unread_in = []\<rparr>;
          (w, c1) = (if workload opt = Get \<or> workload opt = Mix then warm_keys serve i opt v [0..<keys opt] [] c
                     else (Inr [], c))
      in case w of
           Inl e \<Rightarrow> (Inl e, c1)
         | Inr scratch \<Rightarrow>
             timed_loop serve i opt v clock (seed i) scratch c1 \<lparr>latencies = [], ops = 0, mismatches = 0\<rparr>)"

text \<open>The totals \<open>main\<close> gathers from its threads, in the order they are joined.\<close>

record totals =
  all_latencies :: "u64 list"
  total_ops :: u64
  failed :: nat
  total_mismatches :: u64

fun gather_results :: "('e io_error + conn_result) list \<Rightarrow> totals \<Rightarrow> totals" where
  "gather_results [] t = t\<lparr>all_latencies := sort (all_latencies t)\<rparr>"
| "gather_results (Inr res # ws) t =
     gather_results ws
       \<lparr>all_latencies = all_latencies t @ latencies res, total_ops = total_ops t + ops res, failed = failed t,
        total_mismatches = total_mismatches t + mismatches res\<rparr>"
| "gather_results (Inl e # ws) t = gather_results ws (t\<lparr>failed := failed t + 1\<rparr>)"

section \<open>Options are usable\<close>

lemma set_flag_frame:
  "set_flag flag v opt = Inr opt' \<Longrightarrow>
   addrs opt' = addrs opt \<and> (keys opt < 2 ^ 64 \<longrightarrow> keys opt' < 2 ^ 64)"
  by (auto simp: set_flag_def dest: parse_usize_bound split: if_splits option.splits)

lemma set_flags_frame:
  "set_flags args opt = (Inr opt' :: 'e io_error + 'a opts) \<Longrightarrow>
   addrs opt' = addrs opt \<and> (keys opt < 2 ^ 64 \<longrightarrow> keys opt' < 2 ^ 64)"
proof (induction args arbitrary: opt rule: induct_list012)
  case (3 flag v args)
  obtain opt1 where f: "set_flag flag v opt = (Inr opt1 :: 'e io_error + 'a opts)"
    and r: "set_flags args opt1 = (Inr opt' :: 'e io_error + 'a opts)"
    using "3.prems" by (auto split: sum.splits)
  show ?case using "3.IH"(1) [OF r] set_flag_frame [OF f] by simp
qed simp_all

text \<open>
  C40: Whatever the command line, options that parse are usable: there is an address to connect to and
  at least one connection, key and request per batch, so no index is taken modulo zero and the barrier
  waits for every thread; and the number of keys fits the 64-bit arithmetic on keys.
\<close>

theorem parsed_options_usable:
  assumes "parse resolve args = (Inr opt :: 'e io_error + 'a opts)"
  shows "addrs opt \<noteq> [] \<and> 0 < conns opt \<and> 0 < keys opt \<and> keys opt < 2 ^ 64 \<and> 0 < pipeline opt
     \<and> (of_nat (keys opt) :: u64) \<noteq> 0"
proof -
  obtain flags sas and opt1 :: "'a opts" where o: "set_flags flags
      \<lparr>addrs = sas, conns = 64, seconds = 5, workload = Get, val_len = 16, keys = 128, pipeline = 1\<rparr> = (Inr opt1 :: 'e io_error + 'a opts)"
    and c: "opt = clamp opt1" and s: "sas \<noteq> []"
    using assms by (auto simp: parse_def split: list.splits sum.splits if_splits)
  have k: "keys opt1 < 2 ^ 64" using set_flags_frame [OF o] by simp
  have "addrs opt \<noteq> []" using set_flags_frame [OF o] s by (simp add: c clamp_def)
  moreover have fits: "0 < keys opt" "keys opt < 2 ^ 64" using k by (simp_all add: c clamp_def less_max_iff_disj)
  moreover have "unat (of_nat (keys opt) :: u64) = keys opt" using fits(2) by (simp add: unat_of_nat)
  then have "(of_nat (keys opt) :: u64) \<noteq> 0" using fits(1) by (metis less_irrefl unat_0)
  moreover have "0 < conns opt" "0 < pipeline opt" by (simp_all add: c clamp_def less_max_iff_disj)
  ultimately show ?thesis by blast
qed

theorem parsed_options_usable_witness:
  "\<exists>opt. parse (\<lambda>a. Some [a]) [''h:1,'', ''--keys'', ''0'', ''--conns'', ''0''] = (Inr opt :: unit io_error + string opts)
     \<and> addrs opt = [''h:1''] \<and> 0 < conns opt \<and> 0 < keys opt"
proof -
  define opt :: "string opts" where
    "opt = \<lparr>addrs = [''h:1''], conns = 1, seconds = 5, workload = Get, val_len = 16, keys = 1, pipeline = 1\<rparr>"
  have p: "parse (\<lambda>a. Some [a]) [''h:1,'', ''--keys'', ''0'', ''--conns'', ''0''] = (Inr opt :: unit io_error + string opts)"
    by (simp add: parse_def set_flag_def clamp_def opt_def parse_usize_def char_digit_def)
  from parsed_options_usable [OF p] p show ?thesis by (auto simp: opt_def)
qed

section \<open>The generator\<close>

lemma push_bit_fixed: "0 < k \<Longrightarrow> push_bit k d = d \<Longrightarrow> (d :: 'a :: len word) = 0"
proof -
  assume k: "0 < k" and d: "push_bit k d = d"
  have "\<not> bit d n" for n
  proof (induction n rule: less_induct)
    case (less n)
    show ?case
    proof
      assume b: "bit d n"
      then have "bit (push_bit k d) n" using d by simp
      then have "k \<le> n \<and> bit d (n - k)" by (simp add: bit_push_bit_iff)
      then show False using less [of "n - k"] k by auto
    qed
  qed
  then show ?thesis by (simp add: bit_eq_iff)
qed

lemma drop_bit_fixed: "0 < k \<Longrightarrow> drop_bit k d = d \<Longrightarrow> (d :: 'a :: len word) = 0"
proof -
  assume k: "0 < k" and d: "drop_bit k d = d"
  have step: "bit d n = bit d (k + n)" for n using d by (metis bit_drop_bit_eq comp_apply)
  have "bit d n = bit d (m * k + n)" for m n
  proof (induction m arbitrary: n)
    case (Suc m)
    show ?case using Suc [of "k + n"] step [of n] by (simp add: algebra_simps)
  qed simp
  moreover have "\<not> bit d (LENGTH('a) * k + n)" for n
    using k by (intro notI) (metis bit_imp_le_length le_add1 le_trans mult_le_mono2 nat_mult_1_right not_less Suc_leI One_nat_def)
  ultimately show ?thesis by (simp add: bit_eq_iff)
qed

lemma xor_shift_inj: 
  assumes "\<And>d :: 'a :: len word. f d = d \<Longrightarrow> d = 0" and "\<And>x y. f (x XOR y) = f x XOR f y"
    and "x XOR f x = y XOR f y"
  shows "x = y"
proof -
  have "f (x XOR y) = x XOR y"
    using assms(2,3) by (metis xor.assoc xor.commute xor_self_eq xor.right_neutral)
  then have "x XOR y = 0" by (rule assms(1))
  then show ?thesis by (metis xor.assoc xor_self_eq xor.left_neutral xor.right_neutral)
qed

lemma xor_push_inj: "x XOR push_bit k x = y XOR push_bit k y \<Longrightarrow> 0 < k \<Longrightarrow> x = (y :: 'a :: len word)"
  by (rule xor_shift_inj [where f = "push_bit k", OF push_bit_fixed push_bit_xor])

lemma xor_drop_inj: "x XOR drop_bit k x = y XOR drop_bit k y \<Longrightarrow> 0 < k \<Longrightarrow> x = (y :: 'a :: len word)"
  by (rule xor_shift_inj [where f = "drop_bit k", OF drop_bit_fixed drop_bit_xor])

lemma next_rng_inj: "inj next_rng"
proof (rule injI)
  fix x y :: u64
  assume eq: "next_rng x = next_rng y"
  note a = xor_push_inj [OF eq [unfolded next_rng_def Let_def] zero_less_numeral]
  note b = xor_drop_inj [OF a zero_less_numeral]
  show "x = y" by (rule xor_push_inj [OF b zero_less_numeral])
qed

text \<open>
  The key generator never degenerates: one step is injective on the 64-bit words, so a stream of
  keys is periodic without a tail, and it reaches zero, where it would stay, only when seeded with it.
\<close>

theorem rng_never_sticks: "inj next_rng \<and> ((next_rng ^^ n) s = 0 \<longleftrightarrow> s = 0)"
proof
  have z: "(next_rng ^^ n) 0 = 0" by (induction n) (simp_all add: next_rng_def)
  show "(next_rng ^^ n) s = 0 \<longleftrightarrow> s = 0"
    using z injD [OF inj_fn [OF next_rng_inj, of n], of s 0] by auto
qed (rule next_rng_inj)

section \<open>A round over a server that keeps in step\<close>

lemma read_replies_lines:
  "list_all one_line ls \<Longrightarrow> read_replies (length ls) scratch (concat ls) = (Inr (last (scratch # ls)), [])"
proof (induction ls arbitrary: scratch)
  case (Cons l ls)
  then have "l \<noteq> []" by (auto simp: one_line_def)
  with Cons show ?case by (simp add: next_line_line)
qed simp

text \<open>The proxy as the server at the other end: it takes whole batches, its writes go through.\<close>

definition proxy_serve :: "'r redis \<Rightarrow> 'r \<Rightarrow> string \<Rightarrow> string option \<times> 'r" where
  "proxy_serve R r batch =
     (let (replies, r') = proxy_handle R (replicate (length batch) True) \<lparr>input = batch, cut_off = False\<rparr> r
      in (Some (concat replies), r'))"

lemma length_concat_lines: "list_all one_line ls \<Longrightarrow> length ls \<le> length (concat ls)"
proof (induction ls)
  case (Cons l ls)
  then have "l \<noteq> []" by (auto simp: one_line_def)
  then have "1 \<le> length l" by (simp add: Suc_le_eq)
  with Cons show ?case by simp
qed simp

lemma round_proxy:
  assumes "list_all one_line ls" and "answers R ls r = (replies, r')" and "list_all one_line replies"
    and "length replies = length ls"
  shows "kv_round (proxy_serve R) (concat ls) (length ls) scratch \<lparr>server = r, unread_in = []\<rparr> =
    (Inr (last (scratch # replies)), \<lparr>server = r', unread_in = []\<rparr>)"
proof -
  have "proxy_handle R (replicate (length (concat ls)) True) \<lparr>input = concat ls, cut_off = False\<rparr> r = (replies, r')"
    using handle_answers [OF assms(1) length_concat_lines [OF assms(1)], of R False r] assms(2) by simp
  then have "proxy_serve R r (concat ls) = (Some (concat replies), r')" by (simp add: proxy_serve_def)
  then show ?thesis by (simp add: kv_round_def read_replies_lines assms(3) flip: assms(4))
qed

section \<open>Keys and values on the wire\<close>

lemma show_nat_word: "word (show_nat n)"
proof -
  have "\<not> is_space c" if "c \<in> set (show_nat n)" for c
    using set_show_nat [OF that] by (auto simp: char_digit_def is_space_def Let_def split: if_splits)
  then show ?thesis using show_nat_not_empty by (auto simp: word_def list_all_iff)
qed

lemma key_word: "word (key i opt n)"
  using show_nat_word [of i] show_nat_word [of "unat (n mod of_nat (keys opt))"]
  by (auto simp: key_def word_def is_space_def)

lemma value_word: "0 < n \<Longrightarrow> word (replicate n (CHR ''x''))"
  by (simp add: word_def list_all_iff is_space_def)

lemma set_line_line: "word k \<Longrightarrow> word v \<Longrightarrow> one_line (set_line k v)"
  using one_line_snoc [of "''SET '' @ k @ '' '' @ v"] word_line by (simp add: set_line_def)

lemma get_line_line: "word k \<Longrightarrow> one_line (get_line k)"
  using one_line_snoc [of "''GET '' @ k"] word_line by (simp add: get_line_def)

lemma run_set_line:
  assumes "stores_values R store" "word k" "word v"
  shows "\<exists>r'. answers R [set_line k v] r = ([''OK'' @ [LF]], r') \<and> store r' = (store r)(k \<mapsto> v)"
  using run_set [OF assms(1) _ assms(2,3), of "''SET''" r]
  by (auto simp: set_line_def to_ascii_uppercase_def upper_char_def)

lemma run_get_lines:
  assumes "stores_values R store" and "list_all (\<lambda>k. word k \<and> store r k = Some v) ks"
  shows "answers R (map get_line ks) r = (map (\<lambda>k. v @ [LF]) ks, r)"
  using assms(2)
proof (induction ks)
  case (Cons k ks)
  then have "run R (trim_line_end (get_line k)) r = ((v @ [LF], False), r)"
    using run_get [OF assms(1), of "''GET''" k r v]
    by (simp add: get_line_def to_ascii_uppercase_def upper_char_def)
  with Cons show ?case by simp
qed simp

section \<open>A read-only run against the proxy\<close>

lemma warm_keys_proxy:
  assumes R: "stores_values R store" and v: "word v"
  shows "\<exists>scratch' r'. warm_keys (proxy_serve R) i opt v ns scratch \<lparr>server = r, unread_in = []\<rparr> =
        ((Inr scratch' :: 'e io_error + string), \<lparr>server = r', unread_in = []\<rparr>)
      \<and> list_all (\<lambda>n. store r' (key i opt (of_nat n)) = Some v) ns
      \<and> (\<forall>k. store r k = Some v \<longrightarrow> store r' k = Some v)"
proof (induction ns arbitrary: scratch r)
  case (Cons n ns)
  let ?k = "key i opt (of_nat n)"
  obtain r1 where r1: "answers R [set_line ?k v] r = ([''OK'' @ [LF]], r1)" "store r1 = (store r)(?k \<mapsto> v)"
    using run_set_line [OF R key_word v] by blast
  have "kv_round (proxy_serve R) (concat [set_line ?k v]) (length [set_line ?k v]) scratch \<lparr>server = r, unread_in = []\<rparr> =
      ((Inr (last (scratch # [''OK'' @ [LF]])) :: 'e io_error + string), \<lparr>server = r1, unread_in = []\<rparr>)"
    by (rule round_proxy [OF _ r1(1)]) (use one_line_snoc [of "''OK''"] in \<open>simp_all add: set_line_line [OF key_word v]\<close>)
  then have "kv_round (proxy_serve R) (set_line ?k v) 1 scratch \<lparr>server = r, unread_in = []\<rparr> =
      ((Inr (''OK'' @ [LF]) :: 'e io_error + string), \<lparr>server = r1, unread_in = []\<rparr>)" by simp
  moreover obtain scratch' r' where "warm_keys (proxy_serve R) i opt v ns (''OK'' @ [LF]) \<lparr>server = r1, unread_in = []\<rparr> =
        ((Inr scratch' :: 'e io_error + string), \<lparr>server = r', unread_in = []\<rparr>)"
      "list_all (\<lambda>n. store r' (key i opt (of_nat n)) = Some v) ns" "\<forall>k. store r1 k = Some v \<longrightarrow> store r' k = Some v"
    using Cons.IH by blast
  ultimately show ?case using r1(2) by (intro exI [of _ scratch'] exI [of _ r']) simp
qed simp

definition warmed :: "('r \<Rightarrow> string \<Rightarrow> string option) \<Rightarrow> nat \<Rightarrow> 'a opts \<Rightarrow> string \<Rightarrow> 'r \<Rightarrow> bool" where
  "warmed store i opt v r = list_all (\<lambda>n. store r (key i opt (of_nat n)) = Some v) [0..<keys opt]"

lemma warmed_key:
  assumes "warmed store i opt v r" and "0 < keys opt" and "keys opt < 2 ^ 64"
  shows "store r (key i opt n) = Some v"
proof -
  have u: "unat (of_nat (keys opt) :: u64) = keys opt" using assms(3) by (simp add: unat_of_nat)
  let ?m = "unat (n mod of_nat (keys opt))"
  have "?m < keys opt" using u assms(2) by (simp add: unat_mod)
  moreover have "n mod of_nat (keys opt) mod of_nat (keys opt) = n mod of_nat (keys opt)"
    by (simp add: word_unat_eq_iff unat_mod)
  then have "key i opt (of_nat ?m) = key i opt n" by (simp add: key_def)
  moreover have "store r (key i opt (of_nat m)) = Some v" if "m < keys opt" for m
    using assms(1) that by (simp add: warmed_def list_all_iff)
  ultimately show ?thesis by metis
qed

lemma batch_lines_get:
  "workload opt = Get \<Longrightarrow> \<exists>ns. batch_lines i opt v p n rng = (map (\<lambda>m. get_line (key i opt m)) ns, (next_rng ^^ n) rng) \<and> length ns = n"
proof (induction n arbitrary: p rng)
  case (Suc n)
  from Suc.IH [OF Suc.prems, of "Suc p" "next_rng rng"] obtain ns where
    "batch_lines i opt v (Suc p) n (next_rng rng) = (map (\<lambda>m. get_line (key i opt m)) ns, (next_rng ^^ n) (next_rng rng))"
    "length ns = n" by blast
  then show ?case
    using Suc.prems by (intro exI [of _ "next_rng rng # ns"]) (simp add: op_line_def funpow_swap1 Let_def)
qed simp

lemma mismatch_value: "0 < n \<Longrightarrow> workload opt = Get \<Longrightarrow> val_len opt = n \<Longrightarrow> \<not> mismatch opt (replicate n (CHR ''x'') @ [LF])"
  by (cases n) (simp_all add: mismatch_def trim_end_def is_space_def rev_replicate LF_def flip: replicate_Suc)

lemma timed_loop_proxy:
  assumes R: "stores_values R store" and w: "workload opt = Get" and v: "v = replicate (val_len opt) (CHR ''x'')"
    and pos: "0 < val_len opt" "0 < pipeline opt" "0 < keys opt" "keys opt < 2 ^ 64"
    and r: "warmed store i opt v r"
  shows "timed_loop (proxy_serve R) i opt v clock rng scratch \<lparr>server = r, unread_in = []\<rparr> res =
    ((Inr \<lparr>latencies = latencies res @ clock, ops = ops res + of_nat (length clock * pipeline opt),
          mismatches = mismatches res\<rparr> :: 'e io_error + conn_result), \<lparr>server = r, unread_in = []\<rparr>)"
proof (induction clock arbitrary: rng scratch res)
  case (Cons t clock)
  obtain ns rng1 where b: "batch_lines i opt v 0 (pipeline opt) rng = (map get_line (map (key i opt) ns), rng1)"
    and n: "length ns = pipeline opt"
    using batch_lines_get [OF w, of i v 0 "pipeline opt" rng] by (auto simp: comp_def)
  let ?ks = "map (key i opt) ns"
  have ks: "list_all (\<lambda>k. word k \<and> store r k = Some v) ?ks"
    using warmed_key [OF r pos(3,4)] by (simp add: list_all_iff key_word)
  have vl: "LF \<notin> set v" using word_line [OF value_word [OF pos(1)]] by (simp add: v)
  have a: "answers R (map get_line ?ks) r = (map (\<lambda>k. v @ [LF]) ?ks, r)" by (rule run_get_lines [OF R ks])
  have "kv_round (proxy_serve R) (concat (map get_line ?ks)) (length (map get_line ?ks)) scratch \<lparr>server = r, unread_in = []\<rparr> =
      ((Inr (last (scratch # map (\<lambda>k. v @ [LF]) ?ks)) :: 'e io_error + string), \<lparr>server = r, unread_in = []\<rparr>)"
    by (rule round_proxy [OF _ a]) (simp_all add: list_all_iff get_line_line key_word vl)
  moreover have "last (scratch # map (\<lambda>k. v @ [LF]) ?ks) = v @ [LF]"
    using n pos(2) by (cases ns rule: rev_cases) simp_all
  moreover have "\<not> mismatch opt (v @ [LF])" using mismatch_value [OF pos(1) w refl] v by simp
  ultimately show ?case using b n Cons.IH by (simp add: algebra_simps)
qed simp


definition tiny_opts :: "unit opts" where
  "tiny_opts = \<lparr>addrs = [()], conns = 1, seconds = 1, workload = Get, val_len = 2, keys = 3, pipeline = 2\<rparr>"


section \<open>An empty value is reported as a mismatch\<close>

text \<open>
  With \<open>--value 0\<close> the warm-up sends \<open>SET k\<close> without a value, which the proxy refuses and \<open>kvload\<close> does
  not look at; every batch then reads \<open>(nil)\<close> and counts as a mismatch although the server is sound.
\<close>

lemma value_zero_mismatches:
  "fst (run_conn (proxy_serve memory_redis) 0 (tiny_opts\<lparr>val_len := 0, keys := 1, pipeline := 1\<rparr>) [10, 20] []) =
    (Inr \<lparr>latencies = [10, 20], ops = 2, mismatches = 2\<rparr> :: unit io_error + conn_result)"
  by code_simp

end
