(* ===== verification/Warmup.thy ===== *)
theory Warmup
  imports Pool_Operations
begin

text \<open>
  \<open>src/examples/warmup.rs\<close>: a tour of one thread's pool, run over the pool's own model. The pooled resource
  is an id; the manager opens it at once, accepts every check and never finds it broken. Each awaited call
  is driven to its end, one resumption after another, at a fixed reading \<open>t\<close> of the clock. What the tour
  prints after each step is its result.
\<close>

section \<open>The manager and the calls\<close>

record tour =
  tr_thread :: "(u64, unit) thread"
  tr_opens :: u64

abbreviation pool_of :: "tour \<Rightarrow> (u64, nat) inner" where
  "pool_of tr \<equiv> th_pool (tr_thread tr)"

abbreviation tasks_of :: "tour \<Rightarrow> (u64, unit) task list" where
  "tasks_of tr \<equiv> th_tasks (tr_thread tr)"

definition resource_has_broken :: "u64 has_broken" where
  "resource_has_broken r = (False, r)"

definition tour_step :: "instant \<Rightarrow> nat \<Rightarrow> (u64, unit) signal \<Rightarrow> tour \<Rightarrow> tour option" where
  "tour_step t i sig tr =
     map_option (\<lambda>th. tr\<lparr>tr_thread := th\<rparr>)
       (thread_step resource_has_broken (OnTask i t t sig) (tr_thread tr))"

text \<open>
  Awaiting call \<open>i\<close>: \<open>connect\<close> counts an open and stamps its id, \<open>is_valid\<close> accepts. A lease or a finished
  call ends it; a call that has to wait is never woken on this one task.
\<close>

fun await_call :: "nat \<Rightarrow> instant \<Rightarrow> nat \<Rightarrow> tour \<Rightarrow> tour option" where
  "await_call 0 t i tr = None"
| "await_call (Suc n) t i tr =
     (case tasks_of tr ! i of
        Leased p \<Rightarrow> Some tr
      | Finished r \<Rightarrow> Some tr
      | GetConnecting h start waited \<Rightarrow>
          Option.bind (tour_step t i (Connected (tr_opens tr)) (tr\<lparr>tr_opens := tr_opens tr + 1\<rparr>)) (await_call n t i)
      | WarmConnecting h made \<Rightarrow>
          Option.bind (tour_step t i (Connected (tr_opens tr)) (tr\<lparr>tr_opens := tr_opens tr + 1\<rparr>)) (await_call n t i)
      | GetValidating h start waited \<Rightarrow>
          (case h_conn h of
             None \<Rightarrow> None
           | Some c \<Rightarrow> Option.bind (tour_step t i (Validity (raw c) True) tr) (await_call n t i))
      | GetWaiting wr start waited \<Rightarrow> None
      | _ \<Rightarrow> Option.bind (tour_step t i Resume tr) (await_call n t i))"

text \<open>A call takes a first poll, at most one dial or check, and for \<open>warm\<close> a dial per connection.\<close>

definition call_await :: "call \<Rightarrow> instant \<Rightarrow> tour \<Rightarrow> tour option" where
  "call_await c t tr =
     Option.bind (thread_step resource_has_broken (Call c) (tr_thread tr))
       (\<lambda>th. await_call (Suc (Suc (Suc (unat (min_idle (conf (th_shared th))))))) t (length (tasks_of tr)) (tr\<lparr>tr_thread := th\<rparr>))"

fun drop_all :: "instant \<Rightarrow> nat list \<Rightarrow> tour \<Rightarrow> tour option" where
  "drop_all t [] tr = Some tr"
| "drop_all t (i # is) tr = Option.bind (tour_step t i DropIt tr) (drop_all t is)"

fun get_many :: "nat \<Rightarrow> instant \<Rightarrow> tour \<Rightarrow> tour option" where
  "get_many 0 t tr = Some tr"
| "get_many (Suc n) t tr = Option.bind (call_await CallGet t tr) (get_many n t)"

text \<open>A line of the tour: open connections, idle ones, waiters, and how many were ever opened.\<close>

definition printed :: "tour \<Rightarrow> pool_state \<times> u64" where
  "printed tr = (local_state (pool_of tr), tr_opens tr)"

definition warmup_main :: "instant \<Rightarrow> (pool_state \<times> u64) list option" where
  "warmup_main t =
     (case build (set_min_idle 4 (set_max_size 8 builder_new)) of
        Inl e \<Rightarrow> None
      | Inr cfg \<Rightarrow>
          (let t0 = \<lparr>tr_thread = thread_new cfg True, tr_opens = 0\<rparr>
           in Option.bind (call_await CallWarm t t0) (\<lambda>t1.
              Option.bind (get_many 3 t t1) (\<lambda>t2.
              Option.bind (drop_all t [1, 2, 3] t2) (\<lambda>t3.
              Option.bind (get_many 8 t t3) (\<lambda>t4.
              Option.bind (drop_all t [4, 5, 6, 7, 8, 9, 10, 11] t4) (\<lambda>t5.
              Some (map printed [t0, t1, t2, t3, t4, t5]))))))))"

fun is_lease :: "('c, 'e) task \<Rightarrow> bool" where
  "is_lease (Leased p) = True"
| "is_lease t = False"

section \<open>A call at a time\<close>

text \<open>A configuration that checks on check-out and expires nothing at the instant it was made.\<close>

definition steady :: "pool_config \<Rightarrow> bool" where
  "steady cfg \<longleftrightarrow> test_on_check_out cfg \<and> max_lifetime cfg \<noteq> Some 0 \<and> idle_timeout cfg \<noteq> Some 0"

definition made_at :: "instant \<Rightarrow> 'c conn \<Rightarrow> bool" where
  "made_at t c \<longleftrightarrow> created_at c = t \<and> last_used c = t"

definition quiet :: "pool_config \<Rightarrow> instant \<Rightarrow> tour \<Rightarrow> bool" where
  "quiet cfg t tr \<longleftrightarrow>
     th_shared (tr_thread tr) = \<lparr>conf = cfg, closed = False\<rparr>
     \<and> list_all (made_at t) (idle (pool_of tr))
     \<and> entries (waiters (pool_of tr)) = []"

lemma made_at_fresh: "steady cfg \<Longrightarrow> made_at t c \<Longrightarrow> expiry c t cfg = None"
  by (auto simp: steady_def made_at_def expiry_def duration_since_def split: option.splits)

lemma get_poll_idle:
  assumes "\<not> closed sh" and "test_on_check_out (conf sh)" and "idle s = cs @ [c]" and "expiry c t (conf sh) = None"
  shows "get_start sh w t t s
    = (GetValidating \<lparr>h_conn = Some c, h_released = False\<rparr> t False, observe (dec_idle 1) (s\<lparr>idle := cs\<rparr>))"
  using assms
  by (simp add: get_start_def get_loop_def get_wait.simps wait_ready_poll_def ready_now_def wait_ready_new_def
      wait_ready_drop_def pop_fresh_idle_snoc)

lemma get_poll_room:
  assumes "\<not> closed sh" and "test_on_check_out (conf sh)" and "idle s = []" and "slots s < max_size (conf sh)"
  shows "get_start sh w t t s = (GetConnecting \<lparr>h_conn = None, h_released = False\<rparr> t False, take_slot s)"
  using assms
  by (simp add: get_start_def get_loop_def get_wait.simps wait_ready_poll_def ready_now_def wait_ready_new_def
      wait_ready_drop_def pop_fresh_idle_empty inner_connections_def try_reserve_def)

text \<open>What one \<open>get\<close> does to a quiet tour: take the newest idle connection, or open one if there is room.\<close>

lemma get_reuses:
  assumes cfg: "steady cfg" and q: "quiet cfg t tr" and i: "idle (pool_of tr) = cs @ [c]"
  obtains tr' where "call_await CallGet t tr = Some tr'" and "quiet cfg t tr'" and "idle (pool_of tr') = cs"
    and "slots (pool_of tr') = slots (pool_of tr)" and "tr_opens tr' = tr_opens tr"
    and "tasks_of tr' = tasks_of tr @ [Leased \<lparr>p_conn = Some c\<rparr>]" and "made_at t c"
proof -
  have c: "made_at t c" and cs: "list_all (made_at t) cs" using q i by (auto simp: quiet_def)
  let ?s = "observe (dec_idle 1) ((pool_of tr)\<lparr>idle := cs\<rparr>)"
  have poll: "get_start \<lparr>conf = cfg, closed = False\<rparr> w t t (pool_of tr)
      = (GetValidating \<lparr>h_conn = Some c, h_released = False\<rparr> t False, ?s)" for w
    using cfg c i by (intro get_poll_idle) (auto simp: steady_def made_at_fresh)
  let ?th = "(tr_thread tr)\<lparr>th_pool := record_acquire False t t ?s,
    th_tasks := tasks_of tr @ [Leased \<lparr>p_conn = Some c\<rparr>]\<rparr>"
  have "call_await CallGet t tr = Some (tr\<lparr>tr_thread := ?th\<rparr>)"
    using q
    by (simp add: call_await_def tour_step_def on_resume_def on_validity_def get_validated_def
        hand_out_eq set_raw_def poll quiet_def)
  moreover have "quiet cfg t (tr\<lparr>tr_thread := ?th\<rparr>)" using q cs by (simp add: quiet_def record_acquire_def)
  ultimately show ?thesis using that c by (simp add: record_acquire_def)
qed

lemma get_opens:
  assumes cfg: "steady cfg" and q: "quiet cfg t tr" and i: "idle (pool_of tr) = []"
    and room: "slots (pool_of tr) < max_size cfg"
  obtains tr' c where "call_await CallGet t tr = Some tr'" and "quiet cfg t tr'" and "idle (pool_of tr') = []"
    and "slots (pool_of tr') = slots (pool_of tr) + 1" and "tr_opens tr' = tr_opens tr + 1"
    and "tasks_of tr' = tasks_of tr @ [Leased \<lparr>p_conn = Some c\<rparr>]" and "made_at t c"
proof -
  let ?c = "\<lparr>raw = tr_opens tr, created_at = t, last_used = t\<rparr>"
  have poll: "get_start \<lparr>conf = cfg, closed = False\<rparr> w t t (pool_of tr)
      = (GetConnecting \<lparr>h_conn = None, h_released = False\<rparr> t False, take_slot (pool_of tr))" for w
    using cfg i room by (intro get_poll_room) (auto simp: steady_def)
  let ?th = "(tr_thread tr)\<lparr>th_pool := record_acquire False t t (note_created (take_slot (pool_of tr))),
    th_tasks := tasks_of tr @ [Leased \<lparr>p_conn = Some ?c\<rparr>]\<rparr>"
  have "call_await CallGet t tr = Some (tr\<lparr>tr_opens := tr_opens tr + 1, tr_thread := ?th\<rparr>)"
    using q
    by (simp add: call_await_def tour_step_def on_resume_def on_connected_def get_connected_def
        hand_out_eq fill_def poll quiet_def)
  moreover have "quiet cfg t (tr\<lparr>tr_opens := tr_opens tr + 1, tr_thread := ?th\<rparr>)"
    using q i by (simp add: quiet_def record_acquire_def note_created_def take_slot_def)
  ultimately show ?thesis
    using that i by (simp add: record_acquire_def note_created_def take_slot_def made_at_def)
qed

definition leases :: "instant \<Rightarrow> u64 pooled list \<Rightarrow> bool" where
  "leases t ps = list_all (\<lambda>p. case p_conn p of Some c \<Rightarrow> made_at t c | None \<Rightarrow> False) ps"

lemma get_many_burst:
  assumes "steady cfg" and "quiet cfg t tr"
    and "unat (slots (pool_of tr)) + (n - length (idle (pool_of tr))) \<le> unat (max_size cfg)"
  shows "\<exists>tr' ps. get_many n t tr = Some tr' \<and> quiet cfg t tr'
    \<and> length (idle (pool_of tr')) = length (idle (pool_of tr)) - n
    \<and> unat (slots (pool_of tr')) = unat (slots (pool_of tr)) + (n - length (idle (pool_of tr)))
    \<and> tr_opens tr' = tr_opens tr + of_nat (n - length (idle (pool_of tr)))
    \<and> tasks_of tr' = tasks_of tr @ map Leased ps \<and> length ps = n \<and> leases t ps"
  using assms(2,3)
proof (induction n arbitrary: tr)
  case 0
  then show ?case by (intro exI [of _ tr] exI [of _ "[]"]) (simp add: leases_def)
next
  case (Suc n)
  have "\<exists>tr1 c. call_await CallGet t tr = Some tr1 \<and> quiet cfg t tr1 \<and> made_at t c
      \<and> length (idle (pool_of tr1)) = length (idle (pool_of tr)) - 1
      \<and> unat (slots (pool_of tr1)) = unat (slots (pool_of tr)) + (1 - length (idle (pool_of tr)))
      \<and> tr_opens tr1 = tr_opens tr + of_nat (1 - length (idle (pool_of tr)))
      \<and> tasks_of tr1 = tasks_of tr @ [Leased \<lparr>p_conn = Some c\<rparr>]"
  proof (cases "idle (pool_of tr)" rule: rev_cases)
    case Nil
    then have room: "unat (slots (pool_of tr)) < unat (max_size cfg)" using Suc.prems(2) by simp
    show ?thesis
      by (rule get_opens [OF assms(1) Suc.prems(1) Nil]) (use room Nil in \<open>auto simp: word_less_nat_alt unat_plus_one\<close>)
  next
    case (snoc cs c)
    show ?thesis by (rule get_reuses [OF assms(1) Suc.prems(1) snoc]) (use snoc in auto)
  qed
  then obtain tr1 c where g: "call_await CallGet t tr = Some tr1" and q: "quiet cfg t tr1" and c: "made_at t c"
    and i: "length (idle (pool_of tr1)) = length (idle (pool_of tr)) - 1"
    and sl: "unat (slots (pool_of tr1)) = unat (slots (pool_of tr)) + (1 - length (idle (pool_of tr)))"
    and op: "tr_opens tr1 = tr_opens tr + of_nat (1 - length (idle (pool_of tr)))"
    and ts: "tasks_of tr1 = tasks_of tr @ [Leased \<lparr>p_conn = Some c\<rparr>]"
    by blast
  have split: "(1 - k) + (n - (k - 1)) = Suc n - k" for k :: nat by simp
  have "unat (slots (pool_of tr1)) + (n - length (idle (pool_of tr1))) \<le> unat (max_size cfg)"
    using Suc.prems(2) i sl by simp
  from Suc.IH [OF q this] obtain tr' ps where tr': "get_many n t tr1 = Some tr'" "quiet cfg t tr'"
    "length (idle (pool_of tr')) = length (idle (pool_of tr1)) - n"
    "unat (slots (pool_of tr')) = unat (slots (pool_of tr1)) + (n - length (idle (pool_of tr1)))"
    "tr_opens tr' = tr_opens tr1 + of_nat (n - length (idle (pool_of tr1)))"
    "tasks_of tr' = tasks_of tr1 @ map Leased ps" "length ps = n" "leases t ps"
    by blast
  show ?case
    using g tr' i sl op ts c split [of "length (idle (pool_of tr))"]
    by (intro exI [of _ tr'] exI [of _ "\<lparr>p_conn = Some c\<rparr> # ps"])
      (simp add: leases_def of_nat_add [symmetric] del: of_nat_add)
qed

lemma drop_returns:
  assumes cfg: "steady cfg" and q: "quiet cfg t tr" and i: "i < length (tasks_of tr)"
    and l: "tasks_of tr ! i = Leased p" "p_conn p = Some c" "made_at t c"
  obtains tr' where "tour_step t i DropIt tr = Some tr'" and "quiet cfg t tr'"
    and "idle (pool_of tr') = idle (pool_of tr) @ [c]" and "slots (pool_of tr') = slots (pool_of tr)"
    and "tr_opens tr' = tr_opens tr" and "tasks_of tr' = (tasks_of tr)[i := Finished Recycled]"
proof -
  have c: "c\<lparr>raw := raw c, last_used := t\<rparr> = c" "c\<lparr>raw := raw c\<rparr> = c" using l(3) by (simp_all add: made_at_def)
  let ?s = "notify \<lparr>conf = cfg, closed = False\<rparr> 1 (push_idle c (pool_of tr))"
  have drop: "pooled_drop resource_has_broken \<lparr>conf = cfg, closed = False\<rparr> t t p (pool_of tr) = ?s"
    using l made_at_fresh [OF cfg l(3)] c by (simp add: pooled_drop_def resource_has_broken_def)
  let ?th = "(tr_thread tr)\<lparr>th_pool := ?s, th_tasks := (tasks_of tr)[i := Finished Recycled]\<rparr>"
  have "tour_step t i DropIt tr = Some (tr\<lparr>tr_thread := ?th\<rparr>)"
    using q i l(1) by (simp add: tour_step_def on_drop_def drop quiet_def)
  moreover have "quiet cfg t (tr\<lparr>tr_thread := ?th\<rparr>)"
    using q l(3) by (simp add: quiet_def notify_def push_idle_def vec_push_def wake_entries)
  ultimately show ?thesis using that by (simp add: push_idle_def vec_push_def notify_def)
qed

definition leased_at :: "instant \<Rightarrow> tour \<Rightarrow> nat \<Rightarrow> bool" where
  "leased_at t tr i \<longleftrightarrow>
     i < length (tasks_of tr) \<and>
     (case tasks_of tr ! i of
        Leased p \<Rightarrow> (case p_conn p of Some c \<Rightarrow> made_at t c | None \<Rightarrow> False)
      | _ \<Rightarrow> False)"

lemma leased_at_lease:
  "tasks_of tr = ts @ map Leased ps \<Longrightarrow> leases t ps \<Longrightarrow> length ts \<le> i \<Longrightarrow> i < length ts + length ps \<Longrightarrow>
   leased_at t tr i"
  by (auto simp: leased_at_def leases_def nth_append list_all_length)

lemma drop_all_returns:
  assumes "steady cfg" and "quiet cfg t tr" and "distinct is" and "list_all (leased_at t tr) is"
  shows "\<exists>tr'. drop_all t is tr = Some tr' \<and> quiet cfg t tr'
    \<and> length (idle (pool_of tr')) = length (idle (pool_of tr)) + length is
    \<and> slots (pool_of tr') = slots (pool_of tr) \<and> tr_opens tr' = tr_opens tr
    \<and> length (tasks_of tr') = length (tasks_of tr)"
  using assms(2-4)
proof (induction "is" arbitrary: tr)
  case (Cons i js)
  obtain p c where i: "i < length (tasks_of tr)" and l: "tasks_of tr ! i = Leased p" "p_conn p = Some c" "made_at t c"
    using Cons.prems(3) by (auto simp: leased_at_def split: task.splits option.splits)
  obtain tr1 where st: "tour_step t i DropIt tr = Some tr1" "quiet cfg t tr1"
    "idle (pool_of tr1) = idle (pool_of tr) @ [c]" "slots (pool_of tr1) = slots (pool_of tr)"
    "tr_opens tr1 = tr_opens tr" "tasks_of tr1 = (tasks_of tr)[i := Finished Recycled]"
    using drop_returns [OF assms(1) Cons.prems(1) i l] by blast
  have "leased_at t tr1 j" if "j \<in> set js" for j
  proof -
    have "j \<noteq> i" and "leased_at t tr j" using that Cons.prems(2,3) by (auto simp: list_all_iff)
    then show ?thesis by (simp add: leased_at_def st(6))
  qed
  then have "list_all (leased_at t tr1) js" by (simp add: list_all_iff)
  from Cons.IH [OF st(2) _ this] Cons.prems(2) show ?case using st by auto
qed (use assms(2) in auto)

text \<open>\<open>warm\<close>: one dial after another, each parked idle, until \<open>min_idle\<close> are.\<close>

abbreviation dialling :: "u32 \<Rightarrow> (u64, unit) task" where
  "dialling made \<equiv> WarmConnecting \<lparr>h_conn = None, h_released = False\<rparr> made"

lemma warm_dial:
  assumes q: "quiet cfg t tr" and i: "i < length (tasks_of tr)" "tasks_of tr ! i = dialling made"
  obtains s where "idle s = idle (pool_of tr) @ [\<lparr>raw = tr_opens tr, created_at = t, last_used = t\<rparr>]"
    and "slots s = slots (pool_of tr)" and "entries (waiters s) = []"
    and "tour_step t i (Connected (tr_opens tr)) (tr\<lparr>tr_opens := tr_opens tr + 1\<rparr>)
      = (case warm_loop \<lparr>conf = cfg, closed = False\<rparr> (made + 1) s of
           (task, s') \<Rightarrow> Some \<lparr>tr_thread = (tr_thread tr)\<lparr>th_pool := s', th_tasks := (tasks_of tr)[i := task]\<rparr>,
                           tr_opens = tr_opens tr + 1\<rparr>)"
proof -
  let ?c = "\<lparr>raw = tr_opens tr, created_at = t, last_used = t\<rparr>"
  let ?s = "notify \<lparr>conf = cfg, closed = False\<rparr> 1 (push_idle ?c (note_created (pool_of tr)))"
  show ?thesis
  proof (rule that [of ?s])
    show "entries (waiters ?s) = []"
      using q by (simp add: quiet_def notify_def push_idle_def note_created_def wake_entries)
  qed (use q i in \<open>simp_all add: quiet_def notify_def push_idle_def note_created_def vec_push_def tour_step_def
      on_connected_def warm_connected_def into_idle_def fill_def held_drop_def split: prod.splits\<close>)
qed

lemma idle_len_less:
  assumes "length (idle s) \<le> unat (n :: u32)"
  shows "idle_len s < n \<longleftrightarrow> length (idle s) < unat n"
  using assms u32_bound [of n] by (simp add: idle_len_def word_less_nat_alt unat_as_u32)

lemma warm_loop_more:
  assumes "length (idle s) < unat (min_idle cfg)" and "unat (slots s) < unat (max_size cfg)"
  shows "warm_loop \<lparr>conf = cfg, closed = False\<rparr> made s = (dialling made, take_slot s)"
  using assms idle_len_less [of s "min_idle cfg"]
  by (simp add: warm_loop_def try_reserve_def inner_connections_def word_less_nat_alt [of "slots s"])

lemma warm_loop_done:
  assumes "length (idle s) = unat (min_idle cfg)"
  shows "warm_loop \<lparr>conf = cfg, closed = False\<rparr> made s = (Finished (Warmed made) :: (u64, unit) task, s)"
  using assms by (simp add: warm_loop_def idle_len_less)

lemma warm_dials:
  assumes "quiet cfg t tr" and "i < length (tasks_of tr)" and "tasks_of tr ! i = dialling made"
    and "length (idle (pool_of tr)) + Suc d = unat (min_idle cfg)"
    and "unat (slots (pool_of tr)) + d \<le> unat (max_size cfg)"
  shows "\<exists>tr'. await_call (Suc (Suc (d + f))) t i tr = Some tr' \<and> quiet cfg t tr'
    \<and> length (idle (pool_of tr')) = unat (min_idle cfg) \<and> unat (slots (pool_of tr')) = unat (slots (pool_of tr)) + d
    \<and> tr_opens tr' = tr_opens tr + of_nat (Suc d)
    \<and> tasks_of tr' = (tasks_of tr)[i := Finished (Warmed (made + of_nat (Suc d)))]"
  using assms
proof (induction d arbitrary: tr made)
  case 0
  obtain s where s: "idle s = idle (pool_of tr) @ [\<lparr>raw = tr_opens tr, created_at = t, last_used = t\<rparr>]"
    "slots s = slots (pool_of tr)" "entries (waiters s) = []"
    and st: "tour_step t i (Connected (tr_opens tr)) (tr\<lparr>tr_opens := tr_opens tr + 1\<rparr>)
      = (case warm_loop \<lparr>conf = cfg, closed = False\<rparr> (made + 1) s of
           (task, s') \<Rightarrow> Some \<lparr>tr_thread = (tr_thread tr)\<lparr>th_pool := s', th_tasks := (tasks_of tr)[i := task]\<rparr>,
                           tr_opens = tr_opens tr + 1\<rparr>)"
    using warm_dial [OF 0(1-3)] by metis
  have "warm_loop \<lparr>conf = cfg, closed = False\<rparr> (made + 1) s = (Finished (Warmed (made + 1)) :: (u64, unit) task, s)"
    using 0(4) s(1) by (intro warm_loop_done) simp
  with st s 0 show ?case by (auto simp: quiet_def made_at_def)
next
  case (Suc d)
  obtain s where s: "idle s = idle (pool_of tr) @ [\<lparr>raw = tr_opens tr, created_at = t, last_used = t\<rparr>]"
    "slots s = slots (pool_of tr)" "entries (waiters s) = []"
    and st: "tour_step t i (Connected (tr_opens tr)) (tr\<lparr>tr_opens := tr_opens tr + 1\<rparr>)
      = (case warm_loop \<lparr>conf = cfg, closed = False\<rparr> (made + 1) s of
           (task, s') \<Rightarrow> Some \<lparr>tr_thread = (tr_thread tr)\<lparr>th_pool := s', th_tasks := (tasks_of tr)[i := task]\<rparr>,
                           tr_opens = tr_opens tr + 1\<rparr>)"
    using warm_dial [OF Suc.prems(1-3)] by metis
  have wl: "warm_loop \<lparr>conf = cfg, closed = False\<rparr> (made + 1) s = (dialling (made + 1), take_slot s)"
    using Suc.prems(4,5) s(1,2) by (intro warm_loop_more) simp_all
  let ?tr = "\<lparr>tr_thread = (tr_thread tr)\<lparr>th_pool := take_slot s, th_tasks := (tasks_of tr)[i := dialling (made + 1)]\<rparr>,
    tr_opens = tr_opens tr + 1\<rparr>"
  have up: "unat (slots s + 1) = unat (slots s) + 1"
    using Suc.prems(5) s(2) by (intro unat_plus_one [of _ "max_size cfg"]) simp
  have q: "quiet cfg t ?tr" using Suc.prems(1) s by (simp add: quiet_def take_slot_def made_at_def)
  from Suc.IH [OF q, of "made + 1"] Suc.prems(2,4,5) s(1,2) up
  obtain tr' where "await_call (Suc (Suc (d + f))) t i ?tr = Some tr'" "quiet cfg t tr'"
    "length (idle (pool_of tr')) = unat (min_idle cfg)" "unat (slots (pool_of tr')) = unat (slots (pool_of tr)) + Suc d"
    "tr_opens tr' = tr_opens tr + 1 + of_nat (Suc d)"
    "tasks_of tr' = (tasks_of tr)[i := Finished (Warmed (made + 1 + of_nat (Suc d)))]"
    by (auto simp: take_slot_def)
  with st wl Suc.prems(3) show ?case by (auto simp: algebra_simps)
qed

definition tour_new :: "pool_config \<Rightarrow> tour" where
  "tour_new cfg = \<lparr>tr_thread = thread_new cfg True, tr_opens = 0\<rparr>"

lemma tour_new_sel [simp]:
  "quiet cfg t (tour_new cfg)" "idle (pool_of (tour_new cfg)) = []" "slots (pool_of (tour_new cfg)) = 0"
  "tasks_of (tour_new cfg) = []" "tr_opens (tour_new cfg) = 0"
  by (simp_all add: quiet_def tour_new_def thread_new_def local_pool_new_def waiters_new_def)

lemma warm_fills:
  assumes "min_idle cfg \<le> max_size cfg"
  shows "\<exists>tr. call_await CallWarm t (tour_new cfg) = Some tr \<and> quiet cfg t tr
    \<and> length (idle (pool_of tr)) = unat (min_idle cfg) \<and> slots (pool_of tr) = min_idle cfg
    \<and> tr_opens tr = of_nat (unat (min_idle cfg)) \<and> tasks_of tr = [Finished (Warmed (min_idle cfg))]"
proof (cases "unat (min_idle cfg)")
  case 0
  then have "min_idle cfg = 0" by (simp add: unat_eq_0)
  then show ?thesis
    by (auto simp: call_await_def tour_new_def thread_new_def local_pool_new_def tour_step_def
        on_resume_def warm_start_def warm_loop_def idle_len_def quiet_def waiters_new_def)
next
  case (Suc d)
  let ?s = "take_slot (local_pool_new True) :: (u64, nat) inner"
  let ?tr = "\<lparr>tr_thread = (thread_new cfg True)\<lparr>th_pool := ?s, th_tasks := [dialling 0]\<rparr>, tr_opens = 0\<rparr>"
  have max: "Suc d \<le> unat (max_size cfg)" using assms Suc by (simp add: word_le_nat_alt)
  have s: "idle ?s = []" "slots ?s = 1" "entries (waiters ?s) = []"
    by (simp_all add: take_slot_def local_pool_new_def waiters_new_def)
  have q: "quiet cfg t ?tr" using s by (simp add: quiet_def thread_new_def)
  have "warm_loop \<lparr>conf = cfg, closed = False\<rparr> 0 (local_pool_new True) = (dialling 0, ?s)"
    using Suc max by (intro warm_loop_more) (simp_all add: local_pool_new_def)
  then have poll: "await_call (Suc (Suc (Suc (d + 1)))) t 0 (tour_new cfg\<lparr>tr_thread := (thread_new cfg True)\<lparr>th_tasks := [WarmStart]\<rparr>\<rparr>)
      = await_call (Suc (Suc (d + 1))) t 0 ?tr"
    by (subst await_call.simps(2))
      (simp add: tour_new_def thread_new_def tour_step_def on_resume_def warm_start_def del: await_call.simps)
  then have "call_await CallWarm t (tour_new cfg) = await_call (Suc (Suc (d + 1))) t 0 ?tr"
    using poll Suc by (simp add: call_await_def tour_new_def thread_new_def del: await_call.simps)
  moreover obtain tr where "await_call (Suc (Suc (d + 1))) t 0 ?tr = Some tr" "quiet cfg t tr"
    "length (idle (pool_of tr)) = unat (min_idle cfg)" "unat (slots (pool_of tr)) = 1 + d"
    "tr_opens tr = of_nat (Suc d)" "tasks_of tr = [Finished (Warmed (of_nat (Suc d)))]"
    using warm_dials [OF q, of 0 0 d 1] s Suc max by auto
  moreover from this(4) have "slots (pool_of tr) = min_idle cfg" using Suc by (simp add: word_unat_eq_iff)
  moreover have "of_nat (Suc d) = min_idle cfg" by (simp flip: Suc)
  ultimately show ?thesis by (auto simp: Suc)
qed

section \<open>The tour\<close>


definition tour_config :: pool_config where
  "tour_config = default_config\<lparr>max_size := 8, min_idle := 4\<rparr>"

lemma tour_config: "build (set_min_idle 4 (set_max_size 8 builder_new)) = Inr tour_config"
  by (simp add: build_def builder_defs builder_new_def tour_config_def default_config_def Let_def)

lemma steady_tour: "steady tour_config" "min_idle tour_config = 4" "max_size tour_config = 8"
  by (simp_all add: steady_def tour_config_def default_config_def from_secs_def)


definition tour_line :: "u32 \<Rightarrow> u32 \<Rightarrow> u64 \<Rightarrow> pool_state \<times> u64" where
  "tour_line c i n = (\<lparr>connections = c, idle_connections = i, pending_waiters = 0\<rparr>, n)"

lemma printed_quiet:
  assumes "quiet cfg t tr" and "length (idle (pool_of tr)) = i" and "slots (pool_of tr) = c" and "tr_opens tr = n"
  shows "printed tr = tour_line c (as_u32 i) n"
  using assms
  by (simp add: printed_def tour_line_def local_state_def inner_connections_def idle_len_def waiters_len_def quiet_def)

text \<open>The whole tour, at any reading of the clock.\<close>

theorem warmup_tour:
  "warmup_main t =
     Some [tour_line 0 0 0, tour_line 4 4 4, tour_line 4 1 4, tour_line 4 4 4, tour_line 8 0 8, tour_line 8 8 8]"
proof -
  note cfg = steady_tour
  obtain t1 where t1: "call_await CallWarm t (tour_new tour_config) = Some t1" "quiet tour_config t t1"
    "length (idle (pool_of t1)) = 4" "slots (pool_of t1) = 4" "tr_opens t1 = 4"
    "tasks_of t1 = [Finished (Warmed 4)]"
    using warm_fills [of tour_config t] by (auto simp: cfg)
  obtain t2 ps where t2: "get_many 3 t t1 = Some t2" "quiet tour_config t t2" "length (idle (pool_of t2)) = 1"
    "unat (slots (pool_of t2)) = 4" "tr_opens t2 = 4" "tasks_of t2 = Finished (Warmed 4) # map Leased ps"
    "length ps = 3" "leases t ps"
    using get_many_burst [OF cfg(1) t1(2), of 3] t1 by (auto simp: cfg)
  have l2: "list_all (leased_at t t2) [1, 2, 3]"
    using leased_at_lease [of t2 "[Finished (Warmed 4)]" ps] t2(6-8) by simp
  obtain t3 where t3: "drop_all t [1, 2, 3] t2 = Some t3" "quiet tour_config t t3" "length (idle (pool_of t3)) = 4"
    "slots (pool_of t3) = slots (pool_of t2)" "tr_opens t3 = 4" "length (tasks_of t3) = 4"
    using drop_all_returns [OF cfg(1) t2(2) _ l2] t2 by auto
  obtain t4 qs where t4: "get_many 8 t t3 = Some t4" "quiet tour_config t t4" "length (idle (pool_of t4)) = 0"
    "unat (slots (pool_of t4)) = 8" "tr_opens t4 = 8" "tasks_of t4 = tasks_of t3 @ map Leased qs"
    "length qs = 8" "leases t qs"
    using get_many_burst [OF cfg(1) t3(2), of 8] t3 t2(4) by (auto simp: cfg)
  have l4: "list_all (leased_at t t4) [4, 5, 6, 7, 8, 9, 10, 11]"
    using leased_at_lease [OF t4(6,8)] t3(6) t4(7) by simp
  obtain t5 where t5: "drop_all t [4, 5, 6, 7, 8, 9, 10, 11] t4 = Some t5" "quiet tour_config t t5"
    "length (idle (pool_of t5)) = 8" "slots (pool_of t5) = slots (pool_of t4)" "tr_opens t5 = 8"
    using drop_all_returns [OF cfg(1) t4(2) _ l4] t4 by auto
  have slots: "slots (pool_of t2) = 4" "slots (pool_of t4) = 8"
    using t2(4) t4(4) by (simp_all add: word_unat_eq_iff)
  have "warmup_main t = Some (map printed [tour_new tour_config, t1, t2, t3, t4, t5])"
    using t1(1) t2(1) t3(1) t4(1) t5(1) by (simp add: warmup_main_def tour_config tour_new_def Let_def del: drop_all.simps)
  then show ?thesis
    using printed_quiet [OF t1(2-5)] printed_quiet [OF t2(2,3) slots(1) t2(5)]
      printed_quiet [OF t3(2,3)] printed_quiet [OF t4(2,3) slots(2) t4(5)] printed_quiet [OF t5(2,3)]
      printed_quiet [OF tour_new_sel(1)] t3(4,5) t5(4,5) slots
    by (simp add: as_u32_def)
qed

end
