(* ===== verification/Fd_Pipe.thy ===== *)
theory Fd_Pipe
  imports Prelude
begin

text \<open>
  \<open>src/examples/fd_pipe.rs\<close>: a producer that fills a leased buffer per record and writes it into an
  anonymous pipe, and a consumer that drains the pipe and tallies the bytes. The two tasks and the kernel
  are a state machine: an event is one completed system call, or the producer moving to its next record.
  The kernel decides how many bytes a write takes and a read returns, within the room of the pipe and the
  64 KiB of the consumer's buffer, and whether a call fails. The lease is not part of the state: any
  buffer the pool hands out is cleared and filled before it is written.
\<close>

section \<open>Producer and consumer\<close>

datatype drain = Draining | AtEof | ReadError

text \<open>\<open>pending\<close> is what a \<open>write_all\<close> in progress has yet to write; \<open>failed\<close> that it returned an error.\<close>

record piping =
  next_i :: nat
  pending :: "u8 list option"
  writer_open :: bool
  in_pipe :: "u8 list"
  drain :: drain
  tally :: u64
  failed :: bool

definition piping_new :: piping where
  "piping_new =
     \<lparr>next_i = 0, pending = None, writer_open = True, in_pipe = [], drain = Draining, tally = 0, failed = False\<rparr>"

datatype pipe_event =
    Lease
  | WriteSome nat
  | WriteDone
  | WriteFails
  | DropWriter
  | ReadSome nat
  | ReadEof
  | ReadFails

text \<open>The producer's \<open>for\<close> loop and the drop of the writer after it.\<close>

fun produce :: "nat \<Rightarrow> nat \<Rightarrow> nat \<Rightarrow> pipe_event \<Rightarrow> piping \<Rightarrow> piping option" where
  "produce pipe_room messages sz Lease s =
     (if pending s = None \<and> writer_open s \<and> next_i s < messages
      then Some (s\<lparr>pending := Some (replicate sz (of_nat (next_i s)))\<rparr>)
      else None)"
| "produce pipe_room messages sz (WriteSome k) s =
     (case pending s of
        None \<Rightarrow> None
      | Some bs \<Rightarrow>
          if drain s = Draining \<and> 0 < k \<and> k \<le> length bs \<and> length (in_pipe s) + k \<le> pipe_room
          then Some (s\<lparr>pending := Some (drop k bs), in_pipe := in_pipe s @ take k bs\<rparr>)
          else None)"
| "produce pipe_room messages sz WriteDone s =
     (if pending s = Some [] then Some (s\<lparr>pending := None, next_i := next_i s + 1\<rparr>) else None)"
| "produce pipe_room messages sz WriteFails s =
     (case pending s of
        Some (b # bs) \<Rightarrow> Some (s\<lparr>pending := None, writer_open := False, failed := True\<rparr>)
      | _ \<Rightarrow> None)"
| "produce pipe_room messages sz DropWriter s =
     (if pending s = None \<and> writer_open s \<and> next_i s \<ge> messages then Some (s\<lparr>writer_open := False\<rparr>) else None)"
| "produce pipe_room messages sz e s = None"

text \<open>The consumer's loop; its buffer is cleared before each read.\<close>

fun consume :: "pipe_event \<Rightarrow> piping \<Rightarrow> piping option" where
  "consume (ReadSome k) s =
     (if drain s = Draining \<and> 0 < k \<and> k \<le> length (in_pipe s) \<and> k \<le> 64 * 1024
      then Some (s\<lparr>in_pipe := drop k (in_pipe s), tally := tally s + of_nat k\<rparr>)
      else None)"
| "consume ReadEof s =
     (if drain s = Draining \<and> in_pipe s = [] \<and> \<not> writer_open s then Some (s\<lparr>drain := AtEof\<rparr>) else None)"
| "consume ReadFails s = (if drain s = Draining then Some (s\<lparr>drain := ReadError\<rparr>) else None)"
| "consume e s = None"

text \<open>A failed write ends \<open>block_on\<close>, and the consumer with the runtime.\<close>

definition pipe_step :: "nat \<Rightarrow> nat \<Rightarrow> nat \<Rightarrow> pipe_event \<Rightarrow> piping \<Rightarrow> piping option" where
  "pipe_step pipe_room messages sz e s =
     (if failed s then None
      else case produce pipe_room messages sz e s of Some s' \<Rightarrow> Some s' | None \<Rightarrow> consume e s)"

fun pipe_run :: "nat \<Rightarrow> nat \<Rightarrow> nat \<Rightarrow> pipe_event list \<Rightarrow> piping \<Rightarrow> piping option" where
  "pipe_run pipe_room messages sz [] s = Some s"
| "pipe_run pipe_room messages sz (e # es) s =
     (case pipe_step pipe_room messages sz e s of
        None \<Rightarrow> None
      | Some s' \<Rightarrow> pipe_run pipe_room messages sz es s')"

text \<open>\<open>main\<close> has its result: an early error, or the writer dropped and the consumer joined.\<close>

definition pipe_over :: "piping \<Rightarrow> bool" where
  "pipe_over s \<longleftrightarrow> failed s \<or> (\<not> writer_open s \<and> drain s \<noteq> Draining)"

section \<open>What a run keeps\<close>

definition unwritten :: "piping \<Rightarrow> nat" where
  "unwritten s = (case pending s of None \<Rightarrow> 0 | Some bs \<Rightarrow> length bs)"

text \<open>The records taken up so far, the one in progress included.\<close>

definition taken_up :: "piping \<Rightarrow> nat" where
  "taken_up s = (case pending s of None \<Rightarrow> next_i s | Some bs \<Rightarrow> Suc (next_i s))"

definition pipe_inv :: "nat \<Rightarrow> nat \<Rightarrow> piping \<Rightarrow> bool" where
  "pipe_inv messages sz s \<longleftrightarrow>
     taken_up s \<le> messages \<and>
     (\<not> writer_open s \<and> \<not> failed s \<longrightarrow> pending s = None \<and> next_i s = messages) \<and>
     (drain s = AtEof \<longrightarrow> in_pipe s = [] \<and> \<not> writer_open s) \<and>
     (\<not> failed s \<longrightarrow> tally s + of_nat (length (in_pipe s) + unwritten s) = of_nat (taken_up s * sz))"

lemma pipe_inv_new: "pipe_inv messages sz piping_new"
  by (simp add: pipe_inv_def piping_new_def taken_up_def unwritten_def)

lemma produce_inv:
  assumes "pipe_inv messages sz s" and "produce pipe_room messages sz e s = Some s'" and "\<not> failed s"
  shows "pipe_inv messages sz s'"
  using assms
  by (cases e) (auto simp: pipe_inv_def taken_up_def unwritten_def of_nat_diff algebra_simps
      split: option.splits if_splits list.splits)

lemma consume_inv:
  assumes "pipe_inv messages sz s" and "consume e s = Some s'"
  shows "pipe_inv messages sz s'"
  using assms
  by (cases e) (auto simp: pipe_inv_def taken_up_def unwritten_def of_nat_diff algebra_simps
      split: option.splits if_splits)

lemma pipe_step_inv: "pipe_inv messages sz s \<Longrightarrow> pipe_step pipe_room messages sz e s = Some s' \<Longrightarrow> pipe_inv messages sz s'"
  by (auto simp: pipe_step_def intro: produce_inv consume_inv split: if_splits option.splits)

lemma pipe_run_inv:
  "pipe_inv messages sz s \<Longrightarrow> pipe_run pipe_room messages sz es s = Some s' \<Longrightarrow> pipe_inv messages sz s'"
  by (induction es arbitrary: s) (auto split: option.splits intro: pipe_step_inv)

section \<open>No run is endless and none gets stuck\<close>

text \<open>
  What is left to do: two for every byte not yet written, one for every byte in the pipe, two for taking a
  record up and finishing it, one each for the writer and the consumer; none once \<open>main\<close> has failed.
\<close>

definition work_left :: "nat \<Rightarrow> nat \<Rightarrow> piping \<Rightarrow> nat" where
  "work_left messages sz s =
     (if failed s then 0
      else Suc ((messages - taken_up s) * (2 * sz + 2)
        + (case pending s of None \<Rightarrow> 0 | Some bs \<Rightarrow> 2 * length bs + 1)
        + length (in_pipe s) + (if writer_open s then 1 else 0) + (if drain s = Draining then 1 else 0)))"

lemma records_left: "i < messages \<Longrightarrow> (messages - i) * c = (messages - Suc i) * c + (c :: nat)"
  by (metis Suc_diff_Suc add.commute mult_Suc)

lemma produce_decreases:
  assumes "pipe_inv messages sz s" and "produce pipe_room messages sz e s = Some s'" and "\<not> failed s"
  shows "work_left messages sz s' < work_left messages sz s"
proof (cases e)
  case Lease
  with assms(2) have "pending s = None" "next_i s < messages" "s' = s\<lparr>pending := Some (replicate sz (of_nat (next_i s)))\<rparr>"
    by (auto split: if_splits)
  then show ?thesis
    using records_left [of "next_i s" messages "2 * sz + 2"] assms(3) by (simp add: work_left_def taken_up_def)
qed (use assms in \<open>auto simp: work_left_def taken_up_def split: option.splits if_splits list.splits\<close>)

lemma consume_decreases:
  "consume e s = Some s' \<Longrightarrow> \<not> failed s \<Longrightarrow> work_left messages sz s' < work_left messages sz s"
  by (cases e) (auto simp: work_left_def taken_up_def split: option.splits if_splits)

lemma pipe_step_decreases:
  assumes "pipe_inv messages sz s" and "pipe_step pipe_room messages sz e s = Some s'"
  shows "work_left messages sz s' < work_left messages sz s"
  using assms
  by (auto simp: pipe_step_def intro: produce_decreases consume_decreases split: if_splits option.splits)

fun io_fails :: "pipe_event \<Rightarrow> bool" where
  "io_fails WriteFails = True"
| "io_fails ReadFails = True"
| "io_fails e = False"

definition can_go_on :: "nat \<Rightarrow> nat \<Rightarrow> nat \<Rightarrow> piping \<Rightarrow> pipe_event \<Rightarrow> bool" where
  "can_go_on pipe_room messages sz s e \<longleftrightarrow>
     pipe_step pipe_room messages sz e s \<noteq> None \<and> (io_fails e \<longrightarrow> drain s = ReadError)"

lemma writing_progress:
  assumes "\<not> failed s" and "pending s = Some bs" and "0 < pipe_room" and "drain s \<noteq> AtEof"
  shows "\<exists>e. can_go_on pipe_room messages sz s e"
proof (cases bs)
  case Nil
  with assms show ?thesis by (intro exI [of _ WriteDone]) (simp add: can_go_on_def pipe_step_def)
next
  case (Cons b bs')
  show ?thesis
  proof (cases "drain s")
    case Draining
    with assms Cons show ?thesis
      by (intro exI [of _ "if in_pipe s = [] then WriteSome 1 else ReadSome 1"])
        (simp add: can_go_on_def pipe_step_def Suc_le_eq)
  next
    case ReadError
    with assms Cons show ?thesis by (intro exI [of _ WriteFails]) (simp add: can_go_on_def pipe_step_def)
  qed (use assms(4) in simp)
qed

lemma pipe_progress:
  assumes "pipe_inv messages sz s" and "0 < pipe_room" and "\<not> pipe_over s"
  shows "\<exists>e. can_go_on pipe_room messages sz s e"
proof -
  have nf: "\<not> failed s" using assms(3) by (simp add: pipe_over_def)
  show ?thesis
  proof (cases "writer_open s")
    case False
    with assms(3) nf have "drain s = Draining" by (simp add: pipe_over_def)
    with False nf show ?thesis
      by (intro exI [of _ "if in_pipe s = [] then ReadEof else ReadSome 1"])
        (simp add: can_go_on_def pipe_step_def Suc_le_eq)
  next
    case True
    show ?thesis
    proof (cases "pending s")
      case None
      with True nf show ?thesis
        by (intro exI [of _ "if next_i s < messages then Lease else DropWriter"])
          (simp add: can_go_on_def pipe_step_def)
    next
      case (Some bs)
      have "drain s \<noteq> AtEof" using assms(1) True by (auto simp: pipe_inv_def)
      then show ?thesis using writing_progress [OF nf Some assms(2)] by blast
    qed
  qed
qed

lemma no_endless_run:
  assumes "f 0 = piping_new"
  shows "\<not> (\<forall>n. \<exists>e. pipe_step pipe_room messages sz e (f n) = Some (f (Suc n)))"
proof
  assume steps: "\<forall>n. \<exists>e. pipe_step pipe_room messages sz e (f n) = Some (f (Suc n))"
  have inv: "pipe_inv messages sz (f n)" for n
    by (induction n) (use assms steps in \<open>auto simp: pipe_inv_new intro: pipe_step_inv\<close>)
  have "(f (Suc n), f n) \<in> measure (work_left messages sz)" for n
    using pipe_step_decreases [OF inv] steps by (metis in_measure)
  then show False using wf_measure wf_iff_no_infinite_down_chain by metis
qed

text \<open>
  C18: The pipe program ends. However the kernel splits writes and reads, no run is endless, and a run that is
  not over can always take another step, one that is no I/O error unless the consumer has already met
  one: the bounded pipe never deadlocks its two ends. A run in which no call fails tallies exactly
  \<open>messages * size\<close> bytes (as a \<open>u64\<close>).
\<close>

theorem fd_pipe_terminates:
  assumes "0 < pipe_room"
  shows "(\<nexists>f. f 0 = piping_new \<and> (\<forall>n. \<exists>e. pipe_step pipe_room messages sz e (f n) = Some (f (Suc n)))) \<and>
    (\<forall>es s. pipe_run pipe_room messages sz es piping_new = Some s \<longrightarrow>
       (pipe_over s \<or> (\<exists>e. can_go_on pipe_room messages sz s e)) \<and>
       (pipe_over s \<and> \<not> failed s \<and> drain s = AtEof \<longrightarrow> tally s = of_nat (messages * sz)))"
proof (intro conjI allI impI)
  show "\<nexists>f. f 0 = piping_new \<and> (\<forall>n. \<exists>e. pipe_step pipe_room messages sz e (f n) = Some (f (Suc n)))"
    using no_endless_run by blast
next
  fix es s
  assume run: "pipe_run pipe_room messages sz es piping_new = Some s"
  have inv: "pipe_inv messages sz s" using pipe_run_inv [OF pipe_inv_new run] .
  show "pipe_over s \<or> (\<exists>e. can_go_on pipe_room messages sz s e)" using pipe_progress [OF inv assms] by blast
  assume "pipe_over s \<and> \<not> failed s \<and> drain s = AtEof"
  with inv show "tally s = of_nat (messages * sz)"
    by (auto simp: pipe_inv_def pipe_over_def taken_up_def unwritten_def)
qed

text \<open>Two records of three bytes through a pipe with room for two.\<close>

definition two_records :: "pipe_event list" where
  "two_records =
     [Lease, WriteSome 2, ReadSome 1, WriteSome 1, WriteDone, Lease, ReadSome 2, WriteSome 2, ReadSome 2,
      WriteSome 1, WriteDone, DropWriter, ReadSome 1, ReadEof]"

theorem fd_pipe_terminates_witness:
  "\<exists>s. pipe_run 2 2 3 two_records piping_new = Some s \<and> pipe_over s \<and> tally s = 6"
proof -
  obtain s where s: "pipe_run 2 2 3 two_records piping_new = Some s" "pipe_over s" "\<not> failed s" "drain s = AtEof"
    by (simp add: two_records_def piping_new_def pipe_step_def pipe_over_def numeral_3_eq_3 numeral_2_eq_2)
  then show ?thesis using fd_pipe_terminates [of 2 2 3] by force
qed

end
