(* ===== verification/File_Server.thy ===== *)
theory File_Server
  imports Streams
begin

text \<open>
  The static-file servers, \<open>src/examples/file_server.rs\<close> and its tokio counterpart under
  \<open>src/crates/deadpool-baseline/examples/file_server.rs\<close>. The file system is a parameter: what opening a
  path gives. An opened file has the size its metadata announces and answers positional reads. The
  connection takes a given number of writes and then breaks.
\<close>

section \<open>Files and paths\<close>

text \<open>A read returns bytes, none at the end of the file, or fails.\<close>

record 'e open_file =
  metadata_len :: "string + u64"
  read_at :: "u64 \<Rightarrow> 'e + string"

type_synonym 'e file_system = "string \<Rightarrow> string + 'e open_file"

text \<open>\<open>PathBuf::join\<close>: an absolute path replaces the base.\<close>

definition path_join :: "string \<Rightarrow> string \<Rightarrow> string" where
  "path_join base name =
     (case name of c # cs \<Rightarrow> if c = CHR ''/'' then name else base @ ''/'' @ name | [] \<Rightarrow> base @ ''/'')"

definition trim_eol :: "string \<Rightarrow> string" where
  "trim_eol s = rev (dropWhile (\<lambda>c. c = CR \<or> c = LF) (rev s))"

text \<open>\<open>std::str::from_utf8\<close> on bytes.\<close>

definition cont_byte :: "nat \<Rightarrow> bool" where
  "cont_byte b = (128 \<le> b \<and> b \<le> 191)"

fun utf8 :: "nat list \<Rightarrow> bool" where
  "utf8 [] = True"
| "utf8 (a # bs) =
     (if a < 128 then utf8 bs
      else if 194 \<le> a \<and> a \<le> 223
      then (case bs of b # r \<Rightarrow> cont_byte b \<and> utf8 r | _ \<Rightarrow> False)
      else if 224 \<le> a \<and> a \<le> 239
      then (case bs of
              b # c # r \<Rightarrow>
                (if a = 224 then 160 \<le> b \<and> b \<le> 191 else if a = 237 then 128 \<le> b \<and> b \<le> 159 else cont_byte b)
                \<and> cont_byte c \<and> utf8 r
            | _ \<Rightarrow> False)
      else if 240 \<le> a \<and> a \<le> 244
      then (case bs of
              b # c # d # r \<Rightarrow>
                (if a = 240 then 144 \<le> b \<and> b \<le> 191 else if a = 244 then 128 \<le> b \<and> b \<le> 143 else cont_byte b)
                \<and> cont_byte c \<and> cont_byte d \<and> utf8 r
            | _ \<Rightarrow> False)
      else False)"

definition from_utf8 :: "string \<Rightarrow> string option" where
  "from_utf8 s = (if utf8 (map of_char s) then Some s else None)"

section \<open>What a connection does\<close>

datatype file_event = Opened string | Wrote string

definition err_line :: "string \<Rightarrow> string" where
  "err_line why = ''ERR '' @ why @ [LF]"

text \<open>\<open>reply_err\<close>: the event, and the writes the connection still takes, or that it is gone.\<close>

definition reply_err :: "string \<Rightarrow> nat \<Rightarrow> file_event list \<times> nat option" where
  "reply_err why w = (if w = 0 then ([], None) else ([Wrote (err_line why)], Some (w - 1)))"

text \<open>
  The streaming loop, from an offset below the announced size: what it wrote, and the writes left, or
  that the connection is over. Every read that goes on moves the offset.
\<close>

function stream_body :: "'e open_file \<Rightarrow> nat \<Rightarrow> nat \<Rightarrow> nat \<Rightarrow> file_event list \<times> nat option" where
  "stream_body f sz off w =
     (if off < sz
      then (case read_at f (of_nat off) of
              Inl e \<Rightarrow> ([], None)
            | Inr data \<Rightarrow>
                if data = [] then ([], Some w)
                else if w = 0 then ([], None)
                else (let (evs, w') = stream_body f sz (off + length data) (w - 1)
                      in (Wrote data # evs, w')))
      else ([], Some w))"
  by pat_completeness auto

termination stream_body
  by (relation "measure (\<lambda>(f, sz, off, w). sz - off)") (auto intro!: diff_less_mono2)

declare stream_body.simps [simp del]

section \<open>The compio server\<close>

definition bad_name :: "string \<Rightarrow> bool" where
  "bad_name name = (name = [] \<or> CHR ''/'' \<in> set name \<or> sublist ''..'' name)"

text \<open>One request: the events, and the writes left, or that the connection is over.\<close>

definition serve_request :: "'e file_system \<Rightarrow> string \<Rightarrow> bool \<Rightarrow> string \<Rightarrow> nat \<Rightarrow> file_event list \<times> nat option" where
  "serve_request fs base leased req w =
     (case from_utf8 req of
        None \<Rightarrow> reply_err ''utf8'' w
      | Some s \<Rightarrow>
          (let name = trim_eol s
           in if bad_name name then reply_err ''bad name'' w
              else
                (let path = path_join base name
                 in case fs path of
                      Inl e \<Rightarrow> (let (evs, r) = reply_err e w in (Opened path # evs, r))
                    | Inr f \<Rightarrow>
                        (case metadata_len f of
                           Inl e \<Rightarrow> (let (evs, r) = reply_err e w in (Opened path # evs, r))
                         | Inr sz \<Rightarrow>
                             if w = 0 then ([Opened path], None)
                             else
                               (let header = Wrote (show_nat (unat sz) @ [LF])
                                in if \<not> leased then ([Opened path, header], None)
                                   else (let (evs, r) = stream_body f (unat sz) 0 (w - 1)
                                         in (Opened path # header # evs, r)))))))"

text \<open>\<open>serve\<close>: one request per read, until the peer closes, a write fails or no buffer can be leased.\<close>

fun serve :: "'e file_system \<Rightarrow> string \<Rightarrow> ('e chunk \<times> bool) list \<Rightarrow> nat \<Rightarrow> file_event list" where
  "serve fs base [] w = []"
| "serve fs base ((Data req, leased) # turns) w =
     (if req = [] then []
      else (let (evs, r) = serve_request fs base leased req w
            in evs @ (case r of None \<Rightarrow> [] | Some w' \<Rightarrow> serve fs base turns w')))"
| "serve fs base ((ReadFailed e, leased) # turns) w = []"

section \<open>The tokio server\<close>

text \<open>Its requests are lines; the file's cursor is the number of bytes sent.\<close>

definition handle_request :: "'e file_system \<Rightarrow> string \<Rightarrow> string \<Rightarrow> nat \<Rightarrow> file_event list \<times> nat option" where
  "handle_request fs base line w =
     (let path = path_join base (trim_eol line)
      in case fs path of
           Inl e \<Rightarrow> (let (evs, r) = reply_err e w in (Opened path # evs, r))
         | Inr f \<Rightarrow>
             (case metadata_len f of
                Inl e \<Rightarrow> ([Opened path], None)
              | Inr sz \<Rightarrow>
                  if w = 0 then ([Opened path], None)
                  else (let (evs, r) = stream_body f (unat sz) 0 (w - 1)
                        in (Opened path # Wrote (show_nat (unat sz) @ [LF]) # evs, r))))"

fun handle_lines :: "'e file_system \<Rightarrow> string \<Rightarrow> string list \<Rightarrow> nat \<Rightarrow> file_event list" where
  "handle_lines fs base [] w = []"
| "handle_lines fs base (line # lines) w =
     (if line = [] then []
      else (let (evs, r) = handle_request fs base line w
            in evs @ (case r of None \<Rightarrow> [] | Some w' \<Rightarrow> handle_lines fs base lines w')))"

section \<open>Requests stay inside the directory\<close>

definition opened :: "file_event list \<Rightarrow> string list" where
  "opened evs = List.map_filter (\<lambda>e. case e of Opened p \<Rightarrow> Some p | Wrote s \<Rightarrow> None) evs"

definition written :: "file_event list \<Rightarrow> string" where
  "written evs = concat (List.map_filter (\<lambda>e. case e of Wrote s \<Rightarrow> Some s | Opened p \<Rightarrow> None) evs)"

lemma opened_simps [simp]:
  "opened [] = []" "opened (Opened p # evs) = p # opened evs" "opened (Wrote s # evs) = opened evs"
  "opened (evs @ evs') = opened evs @ opened evs'"
  by (simp_all add: opened_def List.map_filter_def)

lemma written_simps [simp]:
  "written [] = []" "written (Opened p # evs) = written evs" "written (Wrote s # evs) = s @ written evs"
  "written (evs @ evs') = written evs @ written evs'"
  by (simp_all add: written_def List.map_filter_def)

lemma opened_reply_err [simp]: "opened (fst (reply_err why w)) = []"
  by (simp add: reply_err_def)

lemma opened_stream_body [simp]: "opened (fst (stream_body f sz off w)) = []"
proof (induction f sz off w rule: stream_body.induct)
  case (1 f sz off w)
  then show ?case
    by (auto simp: stream_body.simps [of f sz off w] Let_def case_prod_beta split: sum.splits)
qed

lemma path_join_good: "\<not> bad_name name \<Longrightarrow> path_join base name = base @ ''/'' @ name"
  by (cases name) (auto simp: bad_name_def path_join_def)

lemma opened_serve_request:
  "set (opened (fst (serve_request fs base leased req w))) \<subseteq> {base @ ''/'' @ name | name. \<not> bad_name name}"
proof (cases "from_utf8 req")
  case (Some s)
  show ?thesis
  proof (cases "bad_name (trim_eol s)")
    case False
    then show ?thesis using Some path_join_good [OF False, of base]
      by (auto simp: serve_request_def Let_def case_prod_beta split: sum.splits)
  qed (simp add: Some serve_request_def Let_def)
qed (simp add: serve_request_def)



text \<open>The tokio counterpart, said to speak the same protocol, opens whatever path it is given.\<close>

lemma tokio_server_leaves_directory:
  "opened (handle_lines (\<lambda>p. Inl ''none'' :: string + nat open_file) ''d'' [''/etc/passwd'' @ [LF], ''../x'' @ [LF]] 9)
   = [''/etc/passwd'', ''d/../x'']"
  by code_simp

text \<open>A file that grows while it is served: more is written than was announced.\<close>

lemma grown_file_overruns:
  "written (serve (\<lambda>p. Inr \<lparr>metadata_len = Inr 2, read_at = (\<lambda>off. Inr ''abc'')\<rparr> :: string + nat open_file) ''d''
      [(Data (''x'' @ [LF]), True)] 9) = ''2'' @ [LF] @ ''abc''"
proof -
  have u: "from_utf8 (''x'' @ [LF]) = Some (''x'' @ [LF])" "trim_eol (''x'' @ [LF]) = ''x''" "bad_name ''x'' = False"
    "show_nat 2 = ''2''" by code_simp+
  show ?thesis
    by (simp add: serve_request_def u [simplified] path_join_def stream_body.simps)
qed

end
