(* ===== verification/Wal.thy ===== *)
theory Wal
  imports Streams
begin

text \<open>
  The write-ahead-log servers, \<open>src/examples/wal.rs\<close> and its tokio counterpart under
  \<open>src/crates/deadpool-baseline/examples/wal.rs\<close>, and the client \<open>src/examples/load_wal.rs\<close>. A log file
  is its contents and what of them has reached the disk; \<open>sync_data\<close> makes the contents durable. A write
  that fails may have put some of its bytes in the file. What the kernel and the peer do in one turn of a
  server's loop is given turn by turn.
\<close>

section \<open>Log files\<close>

record log_file =
  contents :: string
  durable :: string

text \<open>A positional write: bytes past the end of the file are zero until written.\<close>

definition write_at :: "string \<Rightarrow> nat \<Rightarrow> string \<Rightarrow> string" where
  "write_at data off s =
     take off (s @ replicate (off - length s) (CHR 0x00)) @ data @ drop (off + length data) s"

definition sync_data :: "log_file \<Rightarrow> log_file" where
  "sync_data f = f\<lparr>durable := contents f\<rparr>"

text \<open>What one turn meets: the read, the bytes a failed write still put down, the sync, the ack.\<close>

record 'e wal_turn =
  got :: "'e chunk option"
  write_cut :: "nat option"
  sync_ok :: bool
  ack_ok :: bool

definition ok_line :: string where
  "ok_line = ''OK'' @ [LF]"

text \<open>What a turn did with the record it read: stored it, and then acknowledged it or not.\<close>

record entry =
  bytes :: string
  acked :: bool

section \<open>The compio server\<close>

record wal =
  wal_file :: log_file
  offset :: u64

definition segment_path :: "string \<Rightarrow> u64 \<Rightarrow> string" where
  "segment_path dir i = dir @ ''/seg-'' @ show_nat (unat i) @ ''.log''"

text \<open>\<open>connect\<close>: the next segment number, and a fresh, truncated file if it opens.\<close>

definition wal_connect :: "bool \<Rightarrow> string \<Rightarrow> u64 \<Rightarrow> (string \<times> wal) option \<times> u64" where
  "wal_connect opens dir next_segment =
     (if opens
      then Some (segment_path dir next_segment, \<lparr>wal_file = \<lparr>contents = [], durable = []\<rparr>, offset = 0\<rparr>)
      else None,
      next_segment + 1)"

fun wal_serve :: "bool \<Rightarrow> 'e wal_turn list \<Rightarrow> wal \<Rightarrow> entry list \<times> wal" where
  "wal_serve sync [] lease = ([], lease)"
| "wal_serve sync (t # ts) lease =
     (case got t of
        Some (Data data) \<Rightarrow>
          if data = [] then ([], lease)
          else
            (let off = offset lease
             in case write_cut t of
                  Some k \<Rightarrow>
                    ([], lease\<lparr>wal_file := (wal_file lease)\<lparr>contents := write_at (take k data) (unat off) (contents (wal_file lease))\<rparr>\<rparr>)
                | None \<Rightarrow>
                    (let lease1 = lease\<lparr>wal_file := (wal_file lease)\<lparr>contents := write_at data (unat off) (contents (wal_file lease))\<rparr>,
                           offset := off + of_nat (length data)\<rparr>;
                         lease2 = (if sync \<and> sync_ok t then lease1\<lparr>wal_file := sync_data (wal_file lease1)\<rparr> else lease1)
                     in if sync \<and> \<not> sync_ok t then ([\<lparr>bytes = data, acked = False\<rparr>], lease2)
                        else if \<not> ack_ok t then ([\<lparr>bytes = data, acked = True\<rparr>], lease2)
                        else (let (es, lease3) = wal_serve sync ts lease2
                              in (\<lparr>bytes = data, acked = True\<rparr> # es, lease3))))
      | _ \<Rightarrow> ([], lease))"

section \<open>The tokio server\<close>

text \<open>Its file keeps a cursor: writes go to the end of what was written.\<close>

record segment =
  seg_file :: log_file
  seg_buf :: nat

definition segment_create :: "bool \<Rightarrow> string \<Rightarrow> string \<Rightarrow> u64 \<Rightarrow> (string \<times> segment) option \<times> u64" where
  "segment_create opens dir label next_segment =
     (if opens
      then Some (dir @ ''/'' @ label @ ''-'' @ show_nat (unat next_segment) @ ''.wal'',
                 \<lparr>seg_file = \<lparr>contents = [], durable = []\<rparr>, seg_buf = 16 * 1024\<rparr>)
      else None,
      next_segment + 1)"

definition segment_recycle :: "segment \<Rightarrow> segment" where
  "segment_recycle s = (if seg_buf s \<noteq> 16 * 1024 then s\<lparr>seg_buf := 16 * 1024\<rparr> else s)"

fun segment_handle :: "bool \<Rightarrow> 'e wal_turn list \<Rightarrow> segment \<Rightarrow> entry list \<times> segment" where
  "segment_handle sync [] seg = ([], seg)"
| "segment_handle sync (t # ts) seg =
     (case got t of
        Some (Data data) \<Rightarrow>
          if data = [] then ([], seg)
          else
            (case write_cut t of
               Some k \<Rightarrow> ([], seg\<lparr>seg_file := (seg_file seg)\<lparr>contents := contents (seg_file seg) @ take k data\<rparr>\<rparr>)
             | None \<Rightarrow>
                 (let f1 = (seg_file seg)\<lparr>contents := contents (seg_file seg) @ data\<rparr>;
                      f2 = (if sync \<and> sync_ok t then sync_data f1 else f1);
                      seg1 = seg\<lparr>seg_file := f2\<rparr>
                  in if sync \<and> \<not> sync_ok t then ([\<lparr>bytes = data, acked = False\<rparr>], seg1)
                     else if \<not> ack_ok t then ([\<lparr>bytes = data, acked = True\<rparr>], seg1)
                     else (let (es, seg2) = segment_handle sync ts seg1
                           in (\<lparr>bytes = data, acked = True\<rparr> # es, seg2))))
      | _ \<Rightarrow> ([], seg))"

section \<open>The client\<close>

definition payload :: "nat \<Rightarrow> nat \<Rightarrow> string" where
  "payload i n = map (\<lambda>j. char_of (i + j)) [0..<n]"

text \<open>
  The timed loop of one \<open>load_wal\<close> thread: per turn, whether the write went through and what the server
  has sent since; \<open>read_exact\<close> takes three bytes or fails.
\<close>

fun load_wal_loop :: "(bool \<times> string \<times> u64) list \<Rightarrow> string \<Rightarrow> u64 list \<Rightarrow> ('e io_error + u64 list) \<times> string" where
  "load_wal_loop [] inbox lat = (Inr lat, inbox)"
| "load_wal_loop ((write_ok, sent, t) # turns) inbox lat =
     (if \<not> write_ok then (Inl (BrokenPipe ''write''), inbox)
      else if length (inbox @ sent) < 3 then (Inl (UnexpectedEof ''read_exact''), inbox @ sent)
      else
        (let ack = take 3 (inbox @ sent); rest = drop 3 (inbox @ sent)
         in if ack \<noteq> ok_line then (Inl (Other ''bad ack''), rest)
            else load_wal_loop turns rest (lat @ [t])))"

section \<open>The log a segment holds\<close>

text \<open>The abstract log: what is below the tail. Bytes above it, of writes that failed, do not count.\<close>

definition log_of :: "wal \<Rightarrow> string" where
  "log_of w = take (unat (offset w)) (contents (wal_file w))"

definition wal_ok :: "wal \<Rightarrow> bool" where
  "wal_ok w = (unat (offset w) \<le> length (contents (wal_file w)))"

definition appended :: "'e wal_turn list \<Rightarrow> nat" where
  "appended ts = sum_list (map (\<lambda>t. case got t of Some (Data data) \<Rightarrow> length data | _ \<Rightarrow> 0) ts)"

lemma write_at_below: "off \<le> length s \<Longrightarrow> take off (write_at data off s) = take off s"
  by (simp add: write_at_def)

lemma write_at_tail: "off \<le> length s \<Longrightarrow> take (off + length data) (write_at data off s) = take off s @ data"
  by (simp add: write_at_def)

lemma length_write_at: "off \<le> length s \<Longrightarrow> off + length data \<le> length (write_at data off s)"
  by (simp add: write_at_def)

section \<open>One turn\<close>

text \<open>The turn that stores a record, in one equation; \<open>stored\<close> is the segment right after the write.\<close>

definition stored :: "string \<Rightarrow> wal \<Rightarrow> wal" where
  "stored data w =
     w\<lparr>wal_file := (wal_file w)\<lparr>contents := write_at data (unat (offset w)) (contents (wal_file w))\<rparr>,
       offset := offset w + of_nat (length data)\<rparr>"

definition synced :: "wal \<Rightarrow> wal" where
  "synced w = w\<lparr>wal_file := sync_data (wal_file w)\<rparr>"

lemma wal_serve_turn:
  "data \<noteq> [] \<Longrightarrow> got t = Some (Data data) \<Longrightarrow> write_cut t = None \<Longrightarrow>
   wal_serve sync (t # ts) w =
     (let w1 = (if sync \<and> sync_ok t then synced (stored data w) else stored data w)
      in if sync \<and> \<not> sync_ok t then ([\<lparr>bytes = data, acked = False\<rparr>], w1)
         else if \<not> ack_ok t then ([\<lparr>bytes = data, acked = True\<rparr>], w1)
         else (let (es, w2) = wal_serve sync ts w1 in (\<lparr>bytes = data, acked = True\<rparr> # es, w2)))"
  by (simp add: stored_def synced_def Let_def)

lemma unat_offset_plus:
  "unat (offset w) + length data < 2 ^ 64 \<Longrightarrow> unat (offset w + of_nat (length data)) = unat (offset w) + length data"
  by (simp add: unat_word_ariths unat_of_nat)

lemma stored_log:
  assumes "wal_ok w" and "unat (offset w) + length data < 2 ^ 64"
  shows "wal_ok (stored data w)" and "log_of (stored data w) = log_of w @ data"
    and "unat (offset (stored data w)) = unat (offset w) + length data"
    and "durable (wal_file (stored data w)) = durable (wal_file w)"
  using assms unat_offset_plus [OF assms(2)] length_write_at write_at_tail
  by (simp_all add: stored_def wal_ok_def log_of_def)

lemma synced_log [simp]:
  "wal_ok (synced w) = wal_ok w" "log_of (synced w) = log_of w" "offset (synced w) = offset w"
  "durable (wal_file (synced w)) = contents (wal_file w)"
  by (simp_all add: synced_def sync_data_def wal_ok_def log_of_def)

lemma prefix_log: "prefix (log_of w) (contents (wal_file w))"
  by (simp add: log_of_def take_is_prefix)

lemma cut_off_log:
  "wal_ok w \<Longrightarrow> wal_ok (w\<lparr>wal_file := (wal_file w)\<lparr>contents := write_at d (unat (offset w)) (contents (wal_file w))\<rparr>\<rparr>)
   \<and> log_of (w\<lparr>wal_file := (wal_file w)\<lparr>contents := write_at d (unat (offset w)) (contents (wal_file w))\<rparr>\<rparr>) = log_of w"
  using length_write_at [of "unat (offset w)" "contents (wal_file w)" d]
  by (simp add: wal_ok_def log_of_def write_at_below)

lemma wal_serve_log:
  assumes "wal_ok w" and "unat (offset w) + appended ts < 2 ^ 64" and "wal_serve sync ts w = (es, w')"
  shows "wal_ok w' \<and> log_of w' = log_of w @ concat (map bytes es) \<and> list_all acked (butlast es)
     \<and> (sync \<longrightarrow> prefix (log_of w) (durable (wal_file w)) \<longrightarrow>
          prefix (log_of w @ concat (map bytes (filter acked es))) (durable (wal_file w')))"
  using assms
proof (induction ts arbitrary: w es)
  case (Cons t ts)
  show ?case
  proof (cases "\<exists>data. got t = Some (Data data) \<and> data \<noteq> []")
    case False
    then have "es = [] \<and> w' = w" using Cons.prems(3) by (auto split: option.splits chunk.splits)
    then show ?thesis using Cons.prems by simp
  next
    case True
    then obtain data where data: "got t = Some (Data data)" "data \<noteq> []" by blast
    have room: "unat (offset w) + length data < 2 ^ 64" "unat (offset w) + length data + appended ts < 2 ^ 64"
      using Cons.prems(2) data by (simp_all add: appended_def)
    note st = stored_log [OF Cons.prems(1) room(1)]
    show ?thesis
    proof (cases "write_cut t")
      case (Some k)
      then have "es = []" "w' = w\<lparr>wal_file := (wal_file w)\<lparr>contents := write_at (take k data) (unat (offset w)) (contents (wal_file w))\<rparr>\<rparr>"
        using Cons.prems(3) data by (simp_all add: Let_def)
      then show ?thesis using cut_off_log [OF Cons.prems(1)] by simp
    next
      case None
      define w1 where "w1 = (if sync \<and> sync_ok t then synced (stored data w) else stored data w)"
      note turn = wal_serve_turn [OF data(2,1) None, of sync ts w, folded w1_def]
      have w1: "wal_ok w1" "log_of w1 = log_of w @ data" "unat (offset w1) = unat (offset w) + length data"
        using st by (simp_all add: w1_def)
      have d1: "prefix (log_of w @ data) (durable (wal_file w1))" if "sync" "sync_ok t"
        using that prefix_log [of "stored data w"] st(2) by (simp add: w1_def)
      have d0: "durable (wal_file w1) = durable (wal_file w)" if "\<not> (sync \<and> sync_ok t)"
        using that st(4) by (auto simp: w1_def)
      show ?thesis
      proof (cases "(sync \<longrightarrow> sync_ok t) \<and> ack_ok t")
        case False
        then show ?thesis using Cons.prems(3) turn w1 d1 d0 by (auto simp: Let_def split: if_splits)
      next
        case True
        then obtain es1 where es1: "wal_serve sync ts w1 = (es1, w')" "es = \<lparr>bytes = data, acked = True\<rparr> # es1"
          using Cons.prems(3) turn by (auto simp: Let_def split: prod.splits)
        from Cons.IH [OF w1(1) _ es1(1)] room(2) w1 es1(2) d1 True show ?thesis by simp
      qed
    qed
  qed
qed simp

text \<open>
  C35: A pooled segment is an append-only log, whatever fails: serving a connection appends the records it
  stored, in order and whole, to the log the segment held, and a write cut short leaves nothing of its
  record in the log, also for the connection that leases the segment next.
\<close>

theorem wal_log_append_only:
  assumes "wal_ok w" and "unat (offset w) + appended ts < 2 ^ 64"
    and "wal_serve sync ts w = (es, w')"
  shows "wal_ok w' \<and> log_of w' = log_of w @ concat (map bytes es)"
  using wal_serve_log [OF assms] by blast

text \<open>
  C36: An acknowledgement means the record is on disk: with syncing on, and a log that was durable when the
  segment was leased, every acknowledged record is in the durable contents at its place in the log; every
  record stored before the last one was acknowledged.
\<close>

theorem wal_ack_means_durable:
  assumes "wal_ok w" and "unat (offset w) + appended ts < 2 ^ 64"
    and "wal_serve True ts w = (es, w')" and "prefix (log_of w) (durable (wal_file w))"
  shows "prefix (log_of w @ concat (map bytes (filter acked es))) (durable (wal_file w'))
     \<and> list_all acked (butlast es)"
  using wal_serve_log [OF assms(1-3)] assms(4) by simp

definition fresh_wal :: wal where
  "fresh_wal = \<lparr>wal_file = \<lparr>contents = [], durable = []\<rparr>, offset = 0\<rparr>"

definition record_turn :: "string \<Rightarrow> nat option \<Rightarrow> bool \<Rightarrow> nat wal_turn" where
  "record_turn s short ok = \<lparr>got = Some (Data s), write_cut = short, sync_ok = ok, ack_ok = True\<rparr>"

lemma fresh_wal_log [simp]: "wal_ok fresh_wal" "log_of fresh_wal = []" "offset fresh_wal = 0"
  by (simp_all add: fresh_wal_def wal_ok_def log_of_def)

theorem wal_log_append_only_witness:
  "wal_serve True [record_turn ''ab'' None True, record_turn ''cd'' (Some 1) True] fresh_wal =
     ([\<lparr>bytes = ''ab'', acked = True\<rparr>], \<lparr>wal_file = \<lparr>contents = ''abc'', durable = ''ab''\<rparr>, offset = 2\<rparr>)
   \<and> log_of \<lparr>wal_file = \<lparr>contents = ''abc'', durable = ''ab''\<rparr>, offset = 2\<rparr> = ''ab''"
proof -
  have run: "wal_serve True [record_turn ''ab'' None True, record_turn ''cd'' (Some 1) True] fresh_wal =
     ([\<lparr>bytes = ''ab'', acked = True\<rparr>], \<lparr>wal_file = \<lparr>contents = ''abc'', durable = ''ab''\<rparr>, offset = 2\<rparr>)"
    by (simp add: record_turn_def fresh_wal_def write_at_def sync_data_def)
  have "unat (offset fresh_wal) + appended [record_turn ''ab'' None True, record_turn ''cd'' (Some 1) True] < 2 ^ 64"
    by (simp add: appended_def record_turn_def)
  from wal_log_append_only [OF fresh_wal_log(1) this run] run show ?thesis by simp
qed

theorem wal_ack_means_durable_witness:
  "wal_serve True [record_turn ''ab'' None True, record_turn ''cd'' None False] fresh_wal =
     ([\<lparr>bytes = ''ab'', acked = True\<rparr>, \<lparr>bytes = ''cd'', acked = False\<rparr>],
      \<lparr>wal_file = \<lparr>contents = ''abcd'', durable = ''ab''\<rparr>, offset = 4\<rparr>)
   \<and> prefix ''ab'' (durable (wal_file \<lparr>wal_file = \<lparr>contents = ''abcd'', durable = ''ab''\<rparr>, offset = 4\<rparr>))"
proof -
  have run: "wal_serve True [record_turn ''ab'' None True, record_turn ''cd'' None False] fresh_wal =
     ([\<lparr>bytes = ''ab'', acked = True\<rparr>, \<lparr>bytes = ''cd'', acked = False\<rparr>],
      \<lparr>wal_file = \<lparr>contents = ''abcd'', durable = ''ab''\<rparr>, offset = 4\<rparr>)"
    by (simp add: record_turn_def fresh_wal_def write_at_def sync_data_def)
  have "unat (offset fresh_wal) + appended [record_turn ''ab'' None True, record_turn ''cd'' None False] < 2 ^ 64"
    by (simp add: appended_def record_turn_def)
  from wal_ack_means_durable [OF fresh_wal_log(1) this run] run show ?thesis by simp
qed

section \<open>Reads are records\<close>

text \<open>
  The server acknowledges reads. A payload that arrives in two reads is acknowledged twice, so the client,
  which takes the first acknowledgement for the whole payload, counts it as on disk before it is.
\<close>

lemma split_payload_acked_early:
  "map acked (fst (wal_serve True [record_turn ''ab'' None True, record_turn ''cd'' (Some 0) True] fresh_wal)) = [True]
   \<and> fst (load_wal_loop [(True, ok_line, 5)] [] []) = (Inr [5] :: nat io_error + u64 list)
   \<and> durable (wal_file (snd (wal_serve True [record_turn ''ab'' None True, record_turn ''cd'' (Some 0) True] fresh_wal))) = ''ab''"
  by (simp add: record_turn_def fresh_wal_def write_at_def sync_data_def ok_line_def)

section \<open>The tokio server appends at its cursor\<close>

lemma segment_handle_log:
  "segment_handle sync ts seg = (es, seg') \<Longrightarrow>
   \<exists>torn. contents (seg_file seg') = contents (seg_file seg) @ concat (map bytes es) @ torn
     \<and> (sync \<longrightarrow> prefix (contents (seg_file seg)) (durable (seg_file seg)) \<longrightarrow>
          prefix (contents (seg_file seg) @ concat (map bytes (filter acked es))) (durable (seg_file seg')))"
proof (induction ts arbitrary: seg es)
  case (Cons t ts)
  show ?case
  proof (cases "\<exists>data. got t = Some (Data data) \<and> data \<noteq> [] \<and> write_cut t = None \<and> (sync \<longrightarrow> sync_ok t) \<and> ack_ok t")
    case False
    then show ?thesis using Cons.prems
      by (auto simp: Let_def sync_data_def split: option.splits chunk.splits if_splits)
  next
    case True
    then obtain data where data: "got t = Some (Data data)" "data \<noteq> []" "write_cut t = None"
      "sync \<longrightarrow> sync_ok t" "ack_ok t" by blast
    define f where "f = (seg_file seg)\<lparr>contents := contents (seg_file seg) @ data\<rparr>"
    define seg1 where "seg1 = seg\<lparr>seg_file := if sync then sync_data f else f\<rparr>"
    obtain es1 where es1: "segment_handle sync ts seg1 = (es1, seg')" "es = \<lparr>bytes = data, acked = True\<rparr> # es1"
      using Cons.prems data by (auto simp: Let_def seg1_def f_def split: prod.splits if_splits)
    have "contents (seg_file seg1) = contents (seg_file seg) @ data"
      "sync \<longrightarrow> durable (seg_file seg1) = contents (seg_file seg) @ data"
      by (simp_all add: seg1_def f_def sync_data_def)
    with Cons.IH [OF es1(1)] es1(2) show ?thesis by auto
  qed
qed auto

text \<open>Unlike the positional writer, it leaves a torn record in the log of the next lease.\<close>

lemma torn_record_survives:
  "contents (seg_file (snd (segment_handle True [record_turn ''xy'' None True]
     (segment_recycle (snd (segment_handle True [record_turn ''ab'' (Some 1) True]
       \<lparr>seg_file = \<lparr>contents = [], durable = []\<rparr>, seg_buf = 16 * 1024\<rparr>)))))) = ''axy''"
  by (simp add: record_turn_def segment_recycle_def sync_data_def)

end
