(* ===== verification/Load.thy ===== *)
theory Load
  imports File_Server Wal
begin

text \<open>
  The load generators under \<open>src/examples\<close>: \<open>load.rs\<close>, \<open>load_wal.rs\<close>, \<open>load_file.rs\<close> and
  \<open>load_churn.rs\<close>. Their command lines share one flag loop; parsing an address is a parameter and the text
  a parse error carries is left out; what they print is in \<open>Latency_Report\<close>. What the
  server sends and what the clock says is given turn by turn.
\<close>

section \<open>Command lines\<close>

text \<open>\<open>while let Some(flag) = args.next()\<close>: every flag takes a number, parsed before the flag is looked up.\<close>

fun flag_loop :: "(string \<Rightarrow> nat \<Rightarrow> 'o \<Rightarrow> 'o option) \<Rightarrow> string list \<Rightarrow> 'o \<Rightarrow> 'e io_error + 'o" where
  "flag_loop set_flag [] opt = Inr opt"
| "flag_loop set_flag [flag] opt = Inl (InvalidInput (flag @ '' needs a value''))"
| "flag_loop set_flag (flag # v # args) opt =
     (case parse_usize v of
        None \<Rightarrow> Inl (InvalidInput flag)
      | Some n \<Rightarrow>
          (case set_flag flag n opt of
             None \<Rightarrow> Inl (InvalidInput (''unknown flag '' @ flag))
           | Some opt1 \<Rightarrow> flag_loop set_flag args opt1))"

definition addr_then_flags :: "(string \<Rightarrow> 'a option) \<Rightarrow> string \<Rightarrow> ('a \<Rightarrow> 'o) \<Rightarrow> (string \<Rightarrow> nat \<Rightarrow> 'o \<Rightarrow> 'o option)
    \<Rightarrow> string list \<Rightarrow> 'e io_error + 'o" where
  "addr_then_flags parse_addr usage defaults set_flag args =
     (case args of
        [] \<Rightarrow> Inl (InvalidInput usage)
      | a # flags \<Rightarrow>
          (case parse_addr a of
             None \<Rightarrow> Inl (InvalidInput ''bad address'')
           | Some addr \<Rightarrow> flag_loop set_flag flags (defaults addr)))"

record 'a load_opts =
  addr :: 'a
  conns :: nat
  seconds :: nat
  bytes_per :: nat
  hold_ms :: nat
  reconnect :: bool

definition load_flag :: "string \<Rightarrow> nat \<Rightarrow> 'a load_opts \<Rightarrow> 'a load_opts option" where
  "load_flag flag n opt =
     (if flag = ''--conns'' then Some (opt\<lparr>conns := n\<rparr>)
      else if flag = ''--seconds'' then Some (opt\<lparr>seconds := n\<rparr>)
      else if flag = ''--bytes'' then Some (opt\<lparr>bytes_per := n\<rparr>)
      else if flag = ''--hold-ms'' then Some (opt\<lparr>hold_ms := n\<rparr>)
      else if flag = ''--reconnect'' then Some (opt\<lparr>reconnect := n \<noteq> 0\<rparr>)
      else None)"

definition load_parse :: "(string \<Rightarrow> 'a option) \<Rightarrow> string list \<Rightarrow> 'e io_error + 'a load_opts" where
  "load_parse parse_addr =
     addr_then_flags parse_addr ''usage: load ADDR [--conns N] [--seconds S] [--bytes B] [--hold-ms MS]''
       (\<lambda>a. \<lparr>addr = a, conns = 64, seconds = 5, bytes_per = 512, hold_ms = 0, reconnect = False\<rparr>) load_flag"

record 'a wal_opts =
  wal_addr :: 'a
  wal_conns :: nat
  wal_seconds :: nat
  wal_bytes :: nat

definition load_wal_flag :: "string \<Rightarrow> nat \<Rightarrow> 'a wal_opts \<Rightarrow> 'a wal_opts option" where
  "load_wal_flag flag n opt =
     (if flag = ''--conns'' then Some (opt\<lparr>wal_conns := n\<rparr>)
      else if flag = ''--seconds'' then Some (opt\<lparr>wal_seconds := n\<rparr>)
      else if flag = ''--bytes'' then Some (opt\<lparr>wal_bytes := n\<rparr>)
      else None)"

definition load_wal_parse :: "(string \<Rightarrow> 'a option) \<Rightarrow> string list \<Rightarrow> 'e io_error + 'a wal_opts" where
  "load_wal_parse parse_addr =
     addr_then_flags parse_addr ''usage: load_wal ADDR [--conns N] [--seconds S] [--bytes B]''
       (\<lambda>a. \<lparr>wal_addr = a, wal_conns = 64, wal_seconds = 5, wal_bytes = 512\<rparr>) load_wal_flag"

record 'a churn_opts =
  churn_addr :: 'a
  churn_conns :: nat
  churn_seconds :: nat

definition load_churn_flag :: "string \<Rightarrow> nat \<Rightarrow> 'a churn_opts \<Rightarrow> 'a churn_opts option" where
  "load_churn_flag flag n opt =
     (if flag = ''--conns'' then Some (opt\<lparr>churn_conns := n\<rparr>)
      else if flag = ''--seconds'' then Some (opt\<lparr>churn_seconds := n\<rparr>)
      else None)"

definition load_churn_parse :: "(string \<Rightarrow> 'a option) \<Rightarrow> string list \<Rightarrow> 'e io_error + 'a churn_opts" where
  "load_churn_parse parse_addr =
     addr_then_flags parse_addr ''usage: load_churn ADDR [--conns N] [--seconds S]''
       (\<lambda>a. \<lparr>churn_addr = a, churn_conns = 64, churn_seconds = 5\<rparr>) load_churn_flag"

record 'a file_opts =
  file_addr :: 'a
  file_conns :: nat
  file_seconds :: nat
  file_bytes :: nat
  file_count :: nat
  file_dir :: string

definition load_file_flag :: "string \<Rightarrow> nat \<Rightarrow> 'a file_opts \<Rightarrow> 'a file_opts option" where
  "load_file_flag flag n opt =
     (if flag = ''--conns'' then Some (opt\<lparr>file_conns := n\<rparr>)
      else if flag = ''--seconds'' then Some (opt\<lparr>file_seconds := n\<rparr>)
      else if flag = ''--bytes'' then Some (opt\<lparr>file_bytes := n\<rparr>)
      else if flag = ''--files'' then Some (opt\<lparr>file_count := n\<rparr>)
      else None)"

definition load_file_parse :: "(string \<Rightarrow> 'a option) \<Rightarrow> string option \<Rightarrow> string list \<Rightarrow> 'e io_error + 'a file_opts" where
  "load_file_parse parse_addr file_dir_var =
     addr_then_flags parse_addr ''usage: load_file ADDR [--conns N] [--seconds S] [--bytes B] [--files F]''
       (\<lambda>a. \<lparr>file_addr = a, file_conns = 64, file_seconds = 5, file_bytes = 4096, file_count = 64,
             file_dir = (case file_dir_var of Some d \<Rightarrow> d | None \<Rightarrow> ''/tmp/bench-files'')\<rparr>) load_file_flag"

section \<open>Files of a run\<close>

text \<open>The directory is a map from paths to contents; writing a file may fail.\<close>

definition file_name :: "nat \<Rightarrow> nat \<Rightarrow> string" where
  "file_name n i = ''f'' @ show_nat n @ ''-'' @ show_nat i @ ''.bin''"

definition file_body :: "nat \<Rightarrow> string" where
  "file_body n = map (\<lambda>i. char_of (i mod 251)) [0..<n]"

definition right_size :: "'a file_opts \<Rightarrow> (string \<Rightarrow> string option) \<Rightarrow> string \<Rightarrow> bool" where
  "right_size opt fs path = (map_option length (fs path) = Some (file_bytes opt))"

fun setup_from :: "(string \<Rightarrow> bool) \<Rightarrow> 'a file_opts \<Rightarrow> nat list \<Rightarrow> (string \<Rightarrow> string option)
    \<Rightarrow> 'e io_error option \<times> (string \<Rightarrow> string option)" where
  "setup_from writable opt [] fs = (None, fs)"
| "setup_from writable opt (i # is) fs =
     (let path = path_join (file_dir opt) (file_name (file_bytes opt) i)
      in if \<not> right_size opt fs path
         then (if writable path then setup_from writable opt is (fs(path \<mapsto> file_body (file_bytes opt)))
               else (Some (Other ''write''), fs))
         else setup_from writable opt is fs)"

definition setup_files :: "bool \<Rightarrow> (string \<Rightarrow> bool) \<Rightarrow> 'a file_opts \<Rightarrow> (string \<Rightarrow> string option)
    \<Rightarrow> 'e io_error option \<times> (string \<Rightarrow> string option)" where
  "setup_files dir_ok writable opt fs =
     (if \<not> dir_ok then (Some (Other ''create_dir_all''), fs)
      else setup_from writable opt [0..<file_count opt] fs)"

section \<open>Requests\<close>

text \<open>
  One turn of a \<open>load_file\<close> thread, after its request was written: what is read off the bytes the server
  sent, and what is left of them.
\<close>

definition fetch :: "nat \<Rightarrow> string \<Rightarrow> ('e io_error + string) \<times> string" where
  "fetch n inbox =
     (let (header, rest) = next_line inbox
      in case from_utf8 header of
           None \<Rightarrow> (Inl (InvalidData ''utf8''), rest)
         | Some h \<Rightarrow>
             (let line = trim_end h
              in if prefix ''ERR'' line then (Inl (Other line), rest)
                 else (case parse_usize line of
                         None \<Rightarrow> (Inl (InvalidData ''bad size''), rest)
                       | Some sz \<Rightarrow>
                           if sz \<noteq> n then (Inl (Other ''size mismatch''), rest)
                           else if length rest < n then (Inl (UnexpectedEof ''read_exact''), [])
                           else (Inr (take n rest), drop n rest))))"

text \<open>A thread's first file: \<open>i % opts.files\<close>, which panics when there is none.\<close>

definition first_file :: "'a file_opts \<Rightarrow> nat \<Rightarrow> nat option" where
  "first_file opt i = (if file_count opt = 0 then None else Some (i mod file_count opt))"

fun load_file_loop :: "'a file_opts \<Rightarrow> nat \<Rightarrow> (bool \<times> string \<times> u64) list \<Rightarrow> string \<Rightarrow> u64 list
    \<Rightarrow> string list \<times> ('e io_error + u64 list)" where
  "load_file_loop opt idx [] inbox lat = ([], Inr lat)"
| "load_file_loop opt idx ((write_ok, sent, t) # turns) inbox lat =
     (let req = file_name (file_bytes opt) idx @ [LF]; idx1 = (idx + 1) mod file_count opt
      in if \<not> write_ok then ([req], Inl (BrokenPipe ''write''))
         else (case fetch (file_bytes opt) (inbox @ sent) of
                 (Inl e, rest) \<Rightarrow> ([req], Inl e)
               | (Inr body, rest) \<Rightarrow>
                   (let (reqs, r) = load_file_loop opt idx1 turns rest (lat @ [t]) in (req # reqs, r))))"

text \<open>The echo client of \<open>load.rs\<close>; a reconnection starts with nothing to read.\<close>

fun load_loop :: "bool \<Rightarrow> string \<Rightarrow> (bool \<times> bool \<times> string \<times> u64) list \<Rightarrow> string \<Rightarrow> u64 list
    \<Rightarrow> 'e io_error + u64 list" where
  "load_loop fresh data [] inbox lat = Inr lat"
| "load_loop fresh data ((connects, write_ok, sent, t) # turns) inbox lat =
     (if fresh \<and> \<not> connects then Inl (Other ''connect'')
      else if \<not> write_ok then Inl (BrokenPipe ''write'')
      else
        (let arrived = (if fresh then [] else inbox) @ sent
         in if length arrived < length data then Inl (UnexpectedEof ''read_exact'')
            else if take (length data) arrived \<noteq> data then Inl (Other ''echo mismatch'')
            else load_loop fresh data turns (drop (length data) arrived) (lat @ [t])))"

section \<open>A file arrives whole\<close>

text \<open>An opened file that holds \<open>s\<close> and does not change: every read below its size returns some of it.\<close>

definition holds :: "'e open_file \<Rightarrow> string \<Rightarrow> bool" where
  "holds f s =
     (metadata_len f = Inr (of_nat (length s)) \<and> length s < 2 ^ 64 \<and>
      list_all (\<lambda>off. case read_at f (of_nat off) of
          Inr d \<Rightarrow> d \<noteq> [] \<and> prefix d (drop off s)
        | Inl e \<Rightarrow> False) [0..<length s])"

lemma holds_read:
  assumes "holds f s" and "off < length s"
  shows "\<exists>d. read_at f (of_nat off) = Inr d \<and> d \<noteq> [] \<and> prefix d (drop off s)"
proof -
  have "case read_at f (of_nat off) of Inr d \<Rightarrow> d \<noteq> [] \<and> prefix d (drop off s) | Inl e \<Rightarrow> False"
    using assms by (simp add: holds_def list_all_iff)
  then show ?thesis by (cases "read_at f (of_nat off)") auto
qed

lemma stream_body_whole:
  assumes "holds f s" and "off \<le> length s" and "length s - off \<le> w"
  shows "\<exists>evs w'. stream_body f (length s) off w = (evs, Some w') \<and> written evs = drop off s"
  using assms(2,3)
proof (induction "length s - off" arbitrary: off w rule: less_induct)
  case less
  show ?case
  proof (cases "off < length s")
    case False
    then show ?thesis using less.prems by (simp add: stream_body.simps [of f "length s" "length s" w])
  next
    case True
    then obtain d rest where d: "read_at f (of_nat off) = Inr d" "d \<noteq> []" "drop off s = d @ rest"
      using holds_read [OF assms(1) True] by (auto simp: prefix_def)
    have "length d \<le> length s - off" using arg_cong [OF d(3), of length] by simp
    moreover have "0 < length d" using d(2) by simp
    ultimately have step: "length s - (off + length d) < length s - off" "off + length d \<le> length s"
      "length s - (off + length d) \<le> w - 1" "0 < w" using True less.prems by linarith+
    obtain evs w' where evs: "stream_body f (length s) (off + length d) (w - 1) = (evs, Some w')"
      "written evs = drop (off + length d) s"
      using less.hyps [OF step(1-3)] by blast
    have "drop (off + length d) s = rest"
      using d(3) by (metis add.commute append_eq_conv_conj drop_drop)
    then show ?thesis using d evs True step(4) by (simp add: stream_body.simps [of f "length s" off w])
  qed
qed

text \<open>A name a client may ask for: accepted by the server, and on one line.\<close>

definition askable :: "string \<Rightarrow> bool" where
  "askable name = (\<not> bad_name name \<and> utf8 (map of_char (name @ [LF])) \<and> trim_eol (name @ [LF]) = name)"

lemma serve_file:
  assumes "askable name" and "fs (base @ ''/'' @ name) = Inr f" and "holds f s" and "length s < w"
  shows "written (serve fs base [(Data (name @ [LF]), True)] w) = show_nat (length s) @ [LF] @ s"
proof -
  have n: "from_utf8 (name @ [LF]) = Some (name @ [LF])" "trim_eol (name @ [LF]) = name" "\<not> bad_name name"
    using assms(1) by (simp_all add: askable_def from_utf8_def)
  have sz: "metadata_len f = Inr (of_nat (length s))" "unat (of_nat (length s) :: u64) = length s"
    using assms(3) by (simp_all add: holds_def unat_of_nat)
  obtain evs w' where b: "stream_body f (length s) 0 (w - 1) = (evs, Some w')" "written evs = s"
    using stream_body_whole [OF assms(3), of 0 "w - 1"] assms(4) by force
  have "serve_request fs base True (name @ [LF]) w =
      (Opened (base @ ''/'' @ name) # Wrote (show_nat (length s) @ [LF]) # evs, Some w')"
    using n sz b assms(2,4) path_join_good [OF n(3), of base] by (simp add: serve_request_def Let_def)
  then show ?thesis using b(2) by simp
qed

lemma trim_end_number: "trim_end (show_nat n @ [LF]) = show_nat n"
proof -
  have "\<not> is_space c" if "c \<in> set (show_nat n)" for c
    using set_show_nat [OF that] by (auto simp: char_digit_def is_space_def Let_def split: if_splits)
  moreover have "is_space LF" by (simp add: is_space_def LF_def)
  ultimately show ?thesis
    using show_nat_not_empty [of n] by (cases "show_nat n" rule: rev_cases) (auto simp: trim_end_def)
qed

lemma utf8_ascii: "list_all (\<lambda>b. b < 128) bs \<Longrightarrow> utf8 bs"
  by (induction bs) simp_all

lemma header_utf8: "from_utf8 (show_nat n @ [LF]) = Some (show_nat n @ [LF])"
proof -
  have "of_char c < (128 :: nat)" if "c \<in> set (show_nat n)" for c
    using set_show_nat [OF that] by (auto simp: char_digit_def Let_def split: if_splits)
  then have "list_all (\<lambda>b. b < (128 :: nat)) (map of_char (show_nat n @ [LF]))" by (simp add: list_all_iff LF_def)
  from utf8_ascii [OF this] show ?thesis by (simp add: from_utf8_def)
qed

lemma fetch_reply:
  assumes "n < 2 ^ 64" and "length s = n"
  shows "fetch n (show_nat n @ [LF] @ s @ rest) = (Inr s, rest)"
proof -
  have line: "one_line (show_nat n @ [LF])" by simp
  have "\<not> prefix ''ERR'' (show_nat n)"
    using set_show_nat [of "CHR ''E''" n] by (auto simp: prefix_def char_digit_def)
  then show ?thesis
    using next_line_line [OF line, of "s @ rest"] header_utf8 [of n] trim_end_number [of n] parse_show_usize [OF assms(1)] assms(2)
    by (simp add: fetch_def Let_def)
qed

text \<open>
  C39: A requested file arrives whole: over a connection that holds, and whatever pieces the kernel returns
  the file in, the server's reply to a name it accepts announces the file's length and carries its bytes,
  and the client, which asks for that many, reads back exactly the file and nothing beyond it.
\<close>

theorem file_fetch_roundtrip:
  assumes "askable name" and "fs (base @ ''/'' @ name) = Inr f" and "holds f s" and "length s < w"
  shows "fetch (length s) (written (serve fs base [(Data (name @ [LF]), True)] w) @ rest) =
    ((Inr s, rest) :: ('e io_error + string) \<times> string)"
proof -
  have "length s < 2 ^ 64" using assms(3) by (simp add: holds_def)
  from fetch_reply [OF this refl] show ?thesis
    using serve_file [of name fs base f s w] assms by simp
qed

definition two_byte_reads :: "nat open_file" where
  "two_byte_reads =
     \<lparr>metadata_len = Inr 3, read_at = (\<lambda>off. Inr (take 2 (drop (unat off) ''abc'')))\<rparr>"

theorem file_fetch_roundtrip_witness:
  "fetch (length ''abc'') (written (serve (\<lambda>p. if p = ''d'' @ ''/'' @ ''f'' then Inr two_byte_reads else Inl ''x'') ''d''
      [(Data (''f'' @ [LF]), True)] 9) @ ''zz'') = ((Inr ''abc'', ''zz'') :: (nat io_error + string) \<times> string)"
proof (rule file_fetch_roundtrip)
  show "askable ''f''" by code_simp
  show "holds two_byte_reads ''abc''"
    by (simp add: holds_def two_byte_reads_def upt_rec)
qed simp_all

section \<open>Setting up\<close>

lemma path_join_name: "path_join d (file_name n i) = d @ ''/'' @ file_name n i"
  by (simp add: path_join_def file_name_def)

lemma setup_from_sizes:
  "setup_from writable opt is fs = (None :: 'e io_error option, fs') \<Longrightarrow>
   list_all (\<lambda>i. right_size opt fs' (path_join (file_dir opt) (file_name (file_bytes opt) i))) is
   \<and> (\<forall>p. right_size opt fs p \<longrightarrow> fs' p = fs p)"
proof (induction "is" arbitrary: fs)
  case (Cons i "is")
  let ?p = "path_join (file_dir opt) (file_name (file_bytes opt) i)"
  have same: "right_size opt fs' p" if "right_size opt g p" "fs' p = g p" for g p
    using that by (simp add: right_size_def)
  show ?case
  proof (cases "right_size opt fs ?p")
    case True
    then have "setup_from writable opt is fs = (None :: 'e io_error option, fs')" using Cons.prems by (simp add: Let_def)
    from Cons.IH [OF this] True same show ?thesis by simp
  next
    case False
    then have r: "setup_from writable opt is (fs(?p \<mapsto> file_body (file_bytes opt))) = (None :: 'e io_error option, fs')"
      using Cons.prems by (auto simp: Let_def split: if_splits)
    have "right_size opt (fs(?p \<mapsto> file_body (file_bytes opt))) ?p" by (simp add: right_size_def file_body_def)
    moreover have "right_size opt (fs(?p \<mapsto> file_body (file_bytes opt))) p \<and> (fs(?p \<mapsto> file_body (file_bytes opt))) p = fs p"
      if "right_size opt fs p" for p using that False by (auto simp: right_size_def)
    ultimately show ?thesis using Cons.IH [OF r] same by (metis list.pred_inject(2))
  qed
qed simp

text \<open>After a set-up that succeeds every file the run asks for is there with the size it expects.\<close>

lemma setup_files_sizes:
  assumes "setup_files dir_ok writable opt fs = (None :: 'e io_error option, fs')" and "i < file_count opt"
  shows "right_size opt fs' (file_dir opt @ ''/'' @ file_name (file_bytes opt) i)"
proof -
  have "setup_from writable opt [0..<file_count opt] fs = (None :: 'e io_error option, fs')"
    using assms(1) by (simp add: setup_files_def split: if_splits)
  from setup_from_sizes [OF this] assms(2) show ?thesis by (simp add: list_all_iff path_join_name)
qed

text \<open>Unlike \<open>kvload\<close>, the command line of \<open>load_file\<close> is taken as it is: with no file to ask for, every thread panics.\<close>

lemma zero_files_panic:
  "\<exists>opt. load_file_parse (\<lambda>a. Some a) None [''h:1'', ''--files'', ''0''] = (Inr opt :: unit io_error + string file_opts)
     \<and> first_file opt i = None"
proof -
  have "parse_usize ''0'' = Some 0" by (simp add: parse_usize_def char_digit_def)
  then show ?thesis by (simp add: load_file_parse_def addr_then_flags_def load_file_flag_def first_file_def)
qed

end
