(* ===== verification/Load_Start.thy ===== *)
theory Load_Start
  imports Load Echo
begin

text \<open>
  \<open>main\<close> of the load generators \<open>load.rs\<close>, \<open>load_wal.rs\<close>, \<open>load_file.rs\<close> and \<open>kvload.rs\<close> under
  \<open>src/examples\<close>: every client thread prepares its connection, waits on a \<open>Barrier\<close> for as many threads as
  there are clients, runs its loop, and is joined. Threads interleave freely, so the run is a step
  relation; what a client's preparation and loop come to is given. \<open>load_churn.rs\<close> waits first and
  connects in its loop.
\<close>

section \<open>Clients\<close>

datatype ('e, 'r) client_state =
    Preparing
  | Refused_with 'e
  | AtBarrier
  | Measuring
  | Finished_with 'r

text \<open>The clients and the count inside the barrier; \<open>Barrier::wait\<close> releases everyone once all have come.\<close>

record ('e, 'r) load_run =
  clients :: "('e, 'r) client_state list"
  arrived :: nat

definition load_start :: "nat \<Rightarrow> ('e, 'r) load_run" where
  "load_start n = \<lparr>clients = replicate n Preparing, arrived = 0\<rparr>"

fun release :: "('e, 'r) client_state \<Rightarrow> ('e, 'r) client_state" where
  "release AtBarrier = Measuring"
| "release c = c"

definition barrier_wait :: "nat \<Rightarrow> nat \<Rightarrow> ('e, 'r) load_run \<Rightarrow> ('e, 'r) load_run" where
  "barrier_wait n i s =
     (if arrived s + 1 < n then s\<lparr>clients := (clients s)[i := AtBarrier], arrived := arrived s + 1\<rparr>
      else s\<lparr>clients := map release ((clients s)[i := AtBarrier]), arrived := 0\<rparr>)"

text \<open>\<open>prepare i\<close> is what the code before \<open>barrier.wait()\<close> returns for client \<open>i\<close>, \<open>loop i\<close> what the loop after it does.\<close>

inductive load_step :: "(nat \<Rightarrow> 'e option) \<Rightarrow> (nat \<Rightarrow> 'r) \<Rightarrow> nat \<Rightarrow> ('e, 'r) load_run \<Rightarrow> ('e, 'r) load_run \<Rightarrow> bool"
  for prepare looped n where
  refused: "\<lbrakk>i < length (clients s); clients s ! i = Preparing; prepare i = Some e\<rbrakk> \<Longrightarrow>
     load_step prepare looped n s (s\<lparr>clients := (clients s)[i := Refused_with e]\<rparr>)"
| waits: "\<lbrakk>i < length (clients s); clients s ! i = Preparing; prepare i = None\<rbrakk> \<Longrightarrow>
     load_step prepare looped n s (barrier_wait n i s)"
| measured: "\<lbrakk>i < length (clients s); clients s ! i = Measuring\<rbrakk> \<Longrightarrow>
     load_step prepare looped n s (s\<lparr>clients := (clients s)[i := Finished_with (looped i)]\<rparr>)"

inductive_cases load_stepE: "load_step prepare looped n s s'"

inductive load_reaches :: "(nat \<Rightarrow> 'e option) \<Rightarrow> (nat \<Rightarrow> 'r) \<Rightarrow> nat \<Rightarrow> ('e, 'r) load_run \<Rightarrow> bool"
  for prepare looped n where
  starts: "load_reaches prepare looped n (load_start n)"
| steps: "\<lbrakk>load_reaches prepare looped n s; load_step prepare looped n s s'\<rbrakk> \<Longrightarrow>
     load_reaches prepare looped n s'"

fun joined_result :: "('e, 'e + 'l list) client_state \<Rightarrow> ('e + 'l list) option" where
  "joined_result (Refused_with e) = Some (Inl e)"
| "joined_result (Finished_with r) = Some r"
| "joined_result c = None"

text \<open>
  The joins, in spawn order: the latencies of the threads that returned \<open>Ok\<close>, sorted, and how many did not;
  \<open>None\<close> when a thread has not ended.
\<close>

fun join_clients :: "('e, 'e + u64 list) client_state list \<Rightarrow> (u64 list \<times> nat) option" where
  "join_clients [] = Some ([], 0)"
| "join_clients (c # cs) =
     (case joined_result c of
        None \<Rightarrow> None
      | Some r \<Rightarrow>
          (case join_clients cs of
             None \<Rightarrow> None
           | Some (lats, failed) \<Rightarrow>
               (case r of Inl e \<Rightarrow> Some (lats, failed + 1) | Inr l \<Rightarrow> Some (l @ lats, failed))))"

definition load_main :: "('e, 'e + u64 list) load_run \<Rightarrow> (u64 list \<times> nat) option" where
  "load_main s = map_option (\<lambda>(lats, failed). (sort lats, failed)) (join_clients (clients s))"

text \<open>
  What the threads of \<open>load.rs\<close>, \<open>load_wal.rs\<close> and \<open>load_file.rs\<close> (\<open>None\<close> when it panics) do after the barrier, per turn what the connection and the
  server do; as \<open>looped\<close> in the relation above.
\<close>

definition load_thread :: "'a load_opts \<Rightarrow> (nat \<Rightarrow> (bool \<times> bool \<times> string \<times> u64) list) \<Rightarrow> nat \<Rightarrow> 'e io_error + u64 list" where
  "load_thread opt turns i = load_loop (reconnect opt) (payload i (bytes_per opt)) (turns i) [] []"

definition load_wal_thread :: "(nat \<Rightarrow> (bool \<times> string \<times> u64) list) \<Rightarrow> nat \<Rightarrow> 'e io_error + u64 list" where
  "load_wal_thread turns i = fst (load_wal_loop (turns i) [] [])"

definition load_file_thread :: "'a file_opts \<Rightarrow> (nat \<Rightarrow> (bool \<times> string \<times> u64) list) \<Rightarrow> nat \<Rightarrow> ('e io_error + u64 list) option" where
  "load_file_thread opt turns i =
     (case first_file opt i of None \<Rightarrow> None | Some idx \<Rightarrow> Some (snd (load_file_loop opt idx (turns i) [] [])))"

section \<open>All or nobody\<close>

definition waiting :: "('e, 'r) client_state list \<Rightarrow> nat" where
  "waiting cs = length (filter (\<lambda>c. case c of AtBarrier \<Rightarrow> True | _ \<Rightarrow> False) cs)"

fun passed :: "('e, 'r) client_state \<Rightarrow> bool" where
  "passed Measuring \<longleftrightarrow> True"
| "passed (Finished_with r) \<longleftrightarrow> True"
| "passed c \<longleftrightarrow> False"

definition load_inv :: "(nat \<Rightarrow> 'e option) \<Rightarrow> (nat \<Rightarrow> 'r) \<Rightarrow> nat \<Rightarrow> ('e, 'r) load_run \<Rightarrow> bool" where
  "load_inv prepare looped n s \<longleftrightarrow>
     length (clients s) = n \<and> arrived s = waiting (clients s) \<and>
     (list_all passed (clients s) \<or> list_all (\<lambda>c. \<not> passed c) (clients s)) \<and>
     (\<forall>i < n. case clients s ! i of
        Refused_with e \<Rightarrow> prepare i = Some e
      | Finished_with r \<Rightarrow> prepare i = None \<and> r = looped i
      | Preparing \<Rightarrow> True
      | _ \<Rightarrow> prepare i = None)"

lemma waiting_update:
  assumes "i < length cs" "cs ! i = Preparing"
  shows "waiting (cs[i := AtBarrier]) = waiting cs + 1" "waiting (cs[i := Refused_with e]) = waiting cs"
  using assms
proof (induction cs arbitrary: i)
  case (Cons c cs)
  { case 1 with Cons show ?case by (cases i) (auto simp: waiting_def) }
  { case 2 with Cons show ?case by (cases i) (auto simp: waiting_def) }
qed simp_all

lemma waiting_le: "waiting cs \<le> length cs"
  by (simp add: waiting_def)

lemma waiting_all: "waiting cs = length cs \<Longrightarrow> c \<in> set cs \<Longrightarrow> c = AtBarrier"
proof -
  assume "waiting cs = length cs" "c \<in> set cs"
  then have "case c of AtBarrier \<Rightarrow> True | _ \<Rightarrow> False"
    unfolding waiting_def by (metis (no_types, lifting) filter_id_conv length_filter_less nat_neq_iff)
  then show ?thesis by (cases c) simp_all
qed

lemma waiting_passed: "list_all passed cs \<Longrightarrow> waiting cs = 0"
  by (induction cs) (auto simp: waiting_def split: client_state.splits)

lemma list_all_update: "list_all P xs \<Longrightarrow> P x \<Longrightarrow> list_all P (xs[i := x])"
  using set_update_subset_insert [of xs i x] by (auto simp: list_all_iff)

lemma released_passed: "\<forall>c \<in> set cs. c = AtBarrier \<Longrightarrow> list_all passed (map release cs)"
  by (auto simp: list_all_iff)

lemma load_inv_start: "load_inv prepare looped n (load_start n)"
  by (simp add: load_inv_def load_start_def waiting_def list_all_iff)

lemma load_inv_refused:
  assumes "load_inv prepare looped n s" "i < length (clients s)" "clients s ! i = Preparing" "prepare i = Some e"
  shows "load_inv prepare looped n (s\<lparr>clients := (clients s)[i := Refused_with e]\<rparr>)"
proof -
  have "\<not> list_all passed (clients s)" using assms(2,3) by (auto simp: list_all_length)
  then have "list_all (\<lambda>c. \<not> passed c) ((clients s)[i := Refused_with e])"
    using assms(1) by (intro list_all_update) (auto simp: load_inv_def)
  then show ?thesis using assms waiting_update [OF assms(2,3)] by (auto simp: load_inv_def nth_list_update)
qed

lemma load_inv_measured:
  assumes "load_inv prepare looped n s" "i < length (clients s)" "clients s ! i = Measuring"
  shows "load_inv prepare looped n (s\<lparr>clients := (clients s)[i := Finished_with (looped i)]\<rparr>)"
proof -
  have all: "list_all passed (clients s)" using assms by (auto simp: load_inv_def list_all_length)
  then have all': "list_all passed ((clients s)[i := Finished_with (looped i)])"
    by (intro list_all_update) simp_all
  show ?thesis
    using assms all' waiting_passed [OF all] waiting_passed [OF all']
    by (auto simp: load_inv_def nth_list_update split: client_state.splits)
qed

lemma load_inv_waits:
  assumes inv: "load_inv prepare looped n s" and i: "i < length (clients s)" "clients s ! i = Preparing" and ok: "prepare i = None"
  shows "load_inv prepare looped n (barrier_wait n i s)"
proof -
  let ?cs = "(clients s)[i := AtBarrier]"
  have "\<not> list_all passed (clients s)" using i by (auto simp: list_all_length)
  then have none: "list_all (\<lambda>c. \<not> passed c) ?cs"
    using inv by (intro list_all_update) (auto simp: load_inv_def)
  have count: "waiting ?cs = arrived s + 1" using inv waiting_update [OF i] by (simp add: load_inv_def)
  have len: "length ?cs = n" using inv by (simp add: load_inv_def)
  have ok': "\<forall>j < n. case ?cs ! j of Refused_with e \<Rightarrow> prepare j = Some e
      | Finished_with r \<Rightarrow> prepare j = None \<and> r = looped j | Preparing \<Rightarrow> True | _ \<Rightarrow> prepare j = None"
    using inv ok i by (auto simp: load_inv_def nth_list_update)
  show ?thesis
  proof (cases "arrived s + 1 < n")
    case True
    with none count len ok' show ?thesis by (simp add: barrier_wait_def load_inv_def)
  next
    case False
    then have "waiting ?cs = length ?cs" using count len waiting_le [of ?cs] by simp
    then have at: "\<forall>c \<in> set ?cs. c = AtBarrier" using waiting_all by blast
    note rel = released_passed [OF at]
    have "?cs ! j = AtBarrier" if "j < n" for j using at len that nth_mem by fastforce
    then have "prepare j = None" "map release ?cs ! j = Measuring" if "j < n" for j
      using ok' [rule_format, OF that] that len by simp_all
    with False rel waiting_passed [OF rel] len show ?thesis by (simp add: barrier_wait_def load_inv_def)
  qed
qed

lemma load_reaches_inv: "load_reaches prepare looped n s \<Longrightarrow> load_inv prepare looped n s"
  by (induction rule: load_reaches.induct)
    (auto intro: load_inv_start load_inv_refused load_inv_measured load_inv_waits elim!: load_stepE)

section \<open>What main reports\<close>

lemma gather_ended: "join_clients cs = Some r \<Longrightarrow> c \<in> set cs \<Longrightarrow> joined_result c \<noteq> None"
  by (induction cs arbitrary: r) (auto split: option.splits)

lemma gather_loops:
  "join_clients (map (\<lambda>i. Finished_with (looped i)) is) =
     Some (concat (map (\<lambda>i. case looped i of Inl e \<Rightarrow> [] | Inr l \<Rightarrow> l) is),
       length (filter (\<lambda>i. case looped i of Inl e \<Rightarrow> True | Inr l \<Rightarrow> False) is))"
  by (induction "is") (auto split: sum.split)

lemma gather_refusals: "join_clients (map Refused_with es) = Some ([], length es)"
  by (induction es) simp_all

text \<open>Once every client has ended, the clients are one of the two lists.\<close>

lemma ended_clients:
  assumes "load_inv prepare looped n s" "join_clients (clients s) = Some r"
  shows "((\<forall>i < n. prepare i = None) \<and> clients s = map (\<lambda>i. Finished_with (looped i)) [0..<n]) \<or>
    ((\<forall>i < n. prepare i \<noteq> None) \<and> clients s = map Refused_with (map (\<lambda>i. the (prepare i)) [0..<n]))"
proof -
  have len: "length (clients s) = n" using assms(1) by (simp add: load_inv_def)
  have fin: "joined_result (clients s ! i) \<noteq> None" if "i < n" for i
    using gather_ended [OF assms(2)] that len by simp
  have each: "case clients s ! i of Refused_with e \<Rightarrow> prepare i = Some e
      | Finished_with r \<Rightarrow> prepare i = None \<and> r = looped i | Preparing \<Rightarrow> True | _ \<Rightarrow> prepare i = None" if "i < n" for i
    using assms(1) that by (simp add: load_inv_def)
  consider "list_all passed (clients s)" | "list_all (\<lambda>c. \<not> passed c) (clients s)"
    using assms(1) by (auto simp: load_inv_def)
  then show ?thesis
  proof cases
    case 1
    have "prepare i = None \<and> clients s ! i = Finished_with (looped i)" if "i < n" for i
      using each [OF that] fin [OF that] 1 that len by (cases "clients s ! i") (auto simp: list_all_length)
    then show ?thesis using len by (intro disjI1 conjI) (auto intro!: nth_equalityI)
  next
    case 2
    have "prepare i \<noteq> None \<and> clients s ! i = Refused_with (the (prepare i))" if "i < n" for i
      using each [OF that] fin [OF that] 2 that len by (cases "clients s ! i") (auto simp: list_all_length)
    then show ?thesis using len by (intro disjI2 conjI) (auto intro!: nth_equalityI)
  qed
qed

text \<open>Past a refusal nobody is released, so a client at the barrier stays there.\<close>

lemma refused_blocks:
  assumes "load_inv prepare looped n s" "load_step prepare looped n s s'"
    and "Refused_with e \<in> set (clients s)" "AtBarrier \<in> set (clients s)"
  shows "Refused_with e \<in> set (clients s') \<and> AtBarrier \<in> set (clients s')"
proof -
  have keeps: "x \<in> set (xs[i := y])" if "x \<in> set xs" "i < length xs" "xs ! i \<noteq> x" for x y i and xs :: "('a, 'b) client_state list"
    using that by (metis in_set_conv_nth length_list_update nth_list_update_neq)
  have none: "list_all (\<lambda>c. \<not> passed c) (clients s)"
    using assms(1,3) by (auto simp: load_inv_def list_all_iff)
  from assms(2) show ?thesis
  proof (cases rule: load_step.cases)
    case (waits i)
    have "Refused_with e \<in> set ((clients s)[i := AtBarrier])" using keeps [OF assms(3)] waits by simp
    then have "waiting ((clients s)[i := AtBarrier]) \<noteq> length ((clients s)[i := AtBarrier])"
      using waiting_all by fastforce
    then have "arrived s + 1 < n"
      using waiting_update [OF waits(2,3)] waiting_le [of "(clients s)[i := AtBarrier]"] assms(1)
      by (simp add: load_inv_def)
    with keeps [OF assms(3)] keeps [OF assms(4)] waits show ?thesis by (simp add: barrier_wait_def)
  next
    case (measured i)
    with none show ?thesis by (auto simp: list_all_length)
  qed (use keeps [OF assms(3)] keeps [OF assms(4)] in auto)
qed

text \<open>
  C17: The barrier is for as many threads as there are clients, so either all of them measure or none does.
  When \<open>main\<close> reports, either every client prepared, and the latencies are those of all the loops, sorted, with
  \<open>failed\<close> the loops that ended in an error; or every client was refused and nothing was measured. A run
  in which one client is refused after another has reached the barrier never reports, whatever happens next.
\<close>

theorem load_reports_all_or_none:
  assumes "load_reaches prepare looped n s"
  shows "(\<forall>lats failed. load_main s = Some (lats, failed) \<longrightarrow>
      ((\<forall>i < n. prepare i = None) \<and>
         lats = sort (concat (map (\<lambda>i. case looped i of Inl e \<Rightarrow> [] | Inr l \<Rightarrow> l) [0..<n])) \<and>
         failed = length (filter (\<lambda>i. case looped i of Inl e \<Rightarrow> True | Inr l \<Rightarrow> False) [0..<n])) \<or>
      ((\<forall>i < n. prepare i \<noteq> None) \<and> lats = [] \<and> failed = n)) \<and>
    (Refused_with e \<in> set (clients s) \<and> AtBarrier \<in> set (clients s) \<longrightarrow>
      (\<forall>s'. (load_step prepare looped n)\<^sup>*\<^sup>* s s' \<longrightarrow> load_main s' = None))"
proof -
  note inv = load_reaches_inv [OF assms]
  have report: "((\<forall>i < n. prepare i = None) \<and>
         lats = sort (concat (map (\<lambda>i. case looped i of Inl e \<Rightarrow> [] | Inr l \<Rightarrow> l) [0..<n])) \<and>
         failed = length (filter (\<lambda>i. case looped i of Inl e \<Rightarrow> True | Inr l \<Rightarrow> False) [0..<n])) \<or>
      ((\<forall>i < n. prepare i \<noteq> None) \<and> lats = [] \<and> failed = n)" if "load_main s = Some (lats, failed)" for lats failed
  proof -
    from that obtain r where r: "join_clients (clients s) = Some r" "(\<lambda>(l, f). (sort l, f)) r = (lats, failed)"
      by (auto simp: load_main_def)
    from ended_clients [OF inv r(1)] r show ?thesis by (auto simp: gather_loops gather_refusals simp del: map_map)
  qed
  have "load_main s' = None"
    if stuck: "Refused_with e \<in> set (clients s)" "AtBarrier \<in> set (clients s)" and run: "(load_step prepare looped n)\<^sup>*\<^sup>* s s'" for s'
  proof -
    from run have "load_reaches prepare looped n s' \<and> Refused_with e \<in> set (clients s') \<and> AtBarrier \<in> set (clients s')"
    proof (induction rule: rtranclp_induct)
      case (step t u)
      then have "load_reaches prepare looped n t" "load_inv prepare looped n t" using load_reaches_inv by auto
      with step show ?case using refused_blocks [of prepare looped n t u e] load_reaches.steps [of prepare looped n t u] by simp
    qed (use assms stuck in simp)
    then have "join_clients (clients s') = None" using gather_ended [of "clients s'" _ AtBarrier] by (cases "join_clients (clients s')") auto
    then show ?thesis by (simp add: load_main_def)
  qed
  with report show ?thesis by blast
qed

text \<open>Three clients, the second refused: the first waits for good.\<close>

definition second_refused :: "nat \<Rightarrow> nat option" where
  "second_refused i = (if i = 1 then Some 111 else None)"

definition stuck_run :: "(nat, nat + u64 list) load_run" where
  "stuck_run = \<lparr>clients = [AtBarrier, Refused_with 111, Preparing], arrived = 1\<rparr>"

theorem load_reports_all_or_none_witness:
  "load_reaches second_refused (\<lambda>i. Inr [5]) 3 stuck_run \<and>
   \<not> (\<exists>s'. (load_step second_refused (\<lambda>i. Inr [5]) 3)\<^sup>*\<^sup>* stuck_run s' \<and> load_main s' \<noteq> None)"
proof -
  let ?step = "load_step second_refused (\<lambda>i. Inr [5 :: u64] :: nat + u64 list) 3"
  let ?s1 = "\<lparr>clients = [AtBarrier, Preparing, Preparing], arrived = 1\<rparr> :: (nat, nat + u64 list) load_run"
  have "?step (load_start 3) ?s1"
    using load_step.waits [of 0 "load_start 3" second_refused "\<lambda>i. Inr [5 :: u64] :: nat + u64 list" 3]
    by (simp add: load_start_def barrier_wait_def second_refused_def numeral_3_eq_3)
  moreover have "?step ?s1 stuck_run"
    using load_step.refused [of 1 ?s1 second_refused 111] by (simp add: stuck_run_def second_refused_def)
  ultimately have r: "load_reaches second_refused (\<lambda>i. Inr [5]) 3 stuck_run"
    by (blast intro: load_reaches.intros)
  have "Refused_with 111 \<in> set (clients stuck_run)" "AtBarrier \<in> set (clients stuck_run)" by (simp_all add: stuck_run_def)
  with r conjunct2 [OF load_reports_all_or_none [OF r, of 111]] show ?thesis by simp
qed

section \<open>When nobody is refused\<close>

text \<open>Turns a client still has to take; every step is one of them.\<close>

fun turns_left :: "('e, 'r) client_state \<Rightarrow> nat" where
  "turns_left Preparing = 2"
| "turns_left AtBarrier = 1"
| "turns_left Measuring = 1"
| "turns_left c = 0"

definition run_left :: "('e, 'r) load_run \<Rightarrow> nat" where
  "run_left s = sum_list (map turns_left (clients s))"

lemma turns_left_update:
  assumes "i < length cs" "turns_left c < turns_left (cs ! i)"
  shows "sum_list (map turns_left (cs[i := c])) < sum_list (map turns_left cs)"
  using assms by (induction cs arbitrary: i) (auto split: nat.split)

lemma turns_left_release [simp]: "turns_left (release c) = turns_left c"
  by (cases c) simp_all

lemma load_step_left:
  assumes "load_step prepare looped n s s'"
  shows "run_left s' < run_left s"
  using assms
proof (cases rule: load_step.cases)
  case (waits i)
  then have "run_left s' = sum_list (map turns_left ((clients s)[i := AtBarrier]))"
    by (simp add: run_left_def barrier_wait_def comp_def)
  with waits turns_left_update [of i "clients s" AtBarrier] show ?thesis by (simp add: run_left_def)
qed (simp_all add: run_left_def turns_left_update)

lemma load_runs_end: "\<not> (\<exists>f. \<forall>k. load_step prepare looped n (f k) (f (Suc k)))"
proof
  assume "\<exists>f. \<forall>k. load_step prepare looped n (f k) (f (Suc k))"
  then obtain f where "\<forall>k. load_step prepare looped n (f k) (f (Suc k))" ..
  then have "(f (Suc k), f k) \<in> measure run_left" for k using load_step_left by simp blast
  then show False using wf_no_infinite_down_chainE [OF wf_measure] by blast
qed

lemma arrived_short: "load_reaches prepare looped n s \<Longrightarrow> 0 < n \<Longrightarrow> arrived s < n"
  by (induction rule: load_reaches.induct) (auto simp: load_start_def barrier_wait_def elim!: load_stepE)

lemma join_clients_None: "join_clients cs = None \<longleftrightarrow> (\<exists>c \<in> set cs. joined_result c = None)"
  by (induction cs) (auto split: option.split sum.split)

text \<open>Somebody can move until everybody has ended.\<close>

lemma load_progress:
  assumes r: "load_reaches prepare looped n s" and ok: "\<forall>i < n. prepare i = None" and open_run: "load_main s = None"
  shows "\<exists>s'. load_step prepare looped n s s'"
proof -
  note inv = load_reaches_inv [OF r]
  have len: "length (clients s) = n" using inv by (simp add: load_inv_def)
  obtain i where i: "i < n" "joined_result (clients s ! i) = None"
    using open_run len by (auto simp: load_main_def join_clients_None in_set_conv_nth)
  show ?thesis
  proof (cases "\<exists>j < n. clients s ! j = Preparing \<or> clients s ! j = Measuring")
    case True
    then show ?thesis using ok len by (metis load_step.waits load_step.measured)
  next
    case False
    with i have at: "clients s ! i = AtBarrier" by (cases "clients s ! i") auto
    then have none: "list_all (\<lambda>c. \<not> passed c) (clients s)" using inv i len by (auto simp: load_inv_def list_all_length)
    have "clients s ! j = AtBarrier" if "j < n" for j
      using inv False ok none that len by (cases "clients s ! j") (auto simp: load_inv_def list_all_length split: client_state.splits)
    then have "clients s = replicate n AtBarrier" using len by (simp add: list_eq_iff_nth_eq)
    then have "waiting (clients s) = length (clients s)" by (simp add: waiting_def)
    then show ?thesis using inv arrived_short [OF r] i(1) len by (simp add: load_inv_def)
  qed
qed

lemma load_main_loops:
  assumes "load_inv prepare looped n s" "\<forall>i < n. prepare i = None" "load_main s = Some (lats, nfailed)"
  shows "lats = sort (concat (map (\<lambda>i. case looped i of Inl e \<Rightarrow> [] | Inr l \<Rightarrow> l) [0..<n]))"
    and "nfailed = length (filter (\<lambda>i. case looped i of Inl e \<Rightarrow> True | Inr l \<Rightarrow> False) [0..<n])"
proof -
  from assms(3) obtain r where r: "join_clients (clients s) = Some r" "(\<lambda>(l, f). (sort l, f)) r = (lats, nfailed)"
    by (auto simp: load_main_def)
  have "clients s = map (\<lambda>i. Finished_with (looped i)) [0..<n]" if "0 < n"
    using ended_clients [OF assms(1) r(1)] assms(2) that by auto
  moreover have "clients s = map (\<lambda>i. Finished_with (looped i)) [0..<n]" if "n = 0"
    using assms(1) that by (simp add: load_inv_def)
  ultimately have "clients s = map (\<lambda>i. Finished_with (looped i)) [0..<n]" by blast
  with r show "lats = sort (concat (map (\<lambda>i. case looped i of Inl e \<Rightarrow> [] | Inr l \<Rightarrow> l) [0..<n]))"
    and "nfailed = length (filter (\<lambda>i. case looped i of Inl e \<Rightarrow> True | Inr l \<Rightarrow> False) [0..<n])"
    by (auto simp: gather_loops)
qed

section \<open>The echo clients\<close>

text \<open>One thread of \<open>load_churn.rs\<close>: a connection per turn, one byte over and back.\<close>

definition load_churn_loop :: "nat \<Rightarrow> (bool \<times> bool \<times> string \<times> u64) list \<Rightarrow> 'e io_error + u64 list" where
  "load_churn_loop i turns = load_loop True [char_of i] turns [] []"

text \<open>What an echo server sends back for a payload that reaches it in pieces.\<close>

definition echo_back :: "string list \<Rightarrow> string" where
  "echo_back pieces = concat (fst (echo_serve (map (\<lambda>bs. (Data bs :: unit chunk, True)) pieces) buffer_connect))"

lemma echo_back_whole: "list_all (\<lambda>bs. bs \<noteq> []) pieces \<Longrightarrow> echo_back pieces = concat pieces"
proof -
  assume ne: "list_all (\<lambda>bs. bs \<noteq> []) pieces"
  obtain out l where "echo_serve (map (\<lambda>bs. (Data bs :: unit chunk, True)) pieces) buffer_connect = (out, l)" by fastforce
  with echo_serve_echoes [OF this ne] show ?thesis by (simp add: echo_back_def)
qed

text \<open>
  Against an echo server that stays up, a client never sees a mismatch, however the network cuts its
  payloads into reads.
\<close>

lemma load_against_echo:
  "list_all (\<lambda>(ps, t). list_all (\<lambda>bs. bs \<noteq> []) ps \<and> concat ps = data) runs \<Longrightarrow>
   load_loop fresh data (map (\<lambda>(ps, t). (True, True, echo_back ps, t)) runs) [] lat = Inr (lat @ map snd runs)"
proof (induction runs arbitrary: lat)
  case (Cons x runs)
  obtain ps t where x: "x = (ps, t)" by (cases x)
  from Cons.prems x have "echo_back ps = data" using echo_back_whole by simp
  with Cons x show ?case by simp
qed simp

end
