(* ===== verification/Tokio_Start.thy ===== *)
theory Tokio_Start
  imports Redis_Proxy Listener
begin

text \<open>
  How the servers under \<open>src/crates/deadpool-baseline/examples\<close> start: \<open>main\<close>, \<open>run_percore\<close>,
  \<open>run_default\<close> and \<open>reuseport_listener\<close>, which \<open>relay.rs\<close>, \<open>fanout.rs\<close>, \<open>churn.rs\<close>, \<open>wal.rs\<close>,
  \<open>file_server.rs\<close> and \<open>redis_proxy.rs\<close> repeat with small differences, the fields of \<open>server\<close>. What tokio,
  deadpool and the operating system answer in one worker is the record \<open>world\<close>: whether the runtime and
  the pool are built, whether a first connection is reached, the socket calls, and what \<open>accept\<close> returns
  each time. A handler spawned for a connection is that connection's entry in \<open>served\<close>.
\<close>

section \<open>The listener\<close>

definition reuseport_listener :: "'e os \<Rightarrow> socket_addr \<Rightarrow> ('e \<times> socket_call list) + socket_call list" where
  "reuseport_listener os addr =
     and_then (try_call os (NewSocket (for_address addr)) [])
       (\<lambda>made. and_then (try_call os (SetReuseAddress True) made)
         (\<lambda>made. and_then (try_call os (SetReusePort True) made)
           (\<lambda>made. and_then (try_call os (SetNonblocking True) made)
             (\<lambda>made. and_then (try_call os (Bind addr) made)
               (\<lambda>made. try_call os (Listen 1024) made)))))"

definition listener_calls :: "socket_addr \<Rightarrow> socket_call list" where
  "listener_calls addr =
     [NewSocket (for_address addr), SetReuseAddress True, SetReusePort True, SetNonblocking True, Bind addr, Listen 1024]"

lemma reuseport_listener_calls: "reuseport_listener os addr = make_calls os (listener_calls addr) []"
  by (simp add: reuseport_listener_def listener_calls_def make_calls_fun)

section \<open>Upstream addresses\<close>

text \<open>
  The environment variables \<open>UPSTREAM_ADDR\<close> of \<open>relay.rs\<close>, and \<open>UPSTREAM_ADDRS\<close> of \<open>fanout.rs\<close>, which is split at
  commas and trimmed; \<open>None\<close> is the panic on an address that does not parse.
\<close>

definition upstream_addr :: "(string \<Rightarrow> 'a option) \<Rightarrow> string option \<Rightarrow> 'a option" where
  "upstream_addr parse_addr var = parse_addr (case var of Some s \<Rightarrow> s | None \<Rightarrow> ''127.0.0.1:7001'')"

fun split_commas :: "string \<Rightarrow> string \<Rightarrow> string list" where
  "split_commas acc [] = [acc]"
| "split_commas acc (c # cs) = (if c = CHR '','' then acc # split_commas [] cs else split_commas (acc @ [c]) cs)"

definition upstream_addrs :: "(string \<Rightarrow> 'a option) \<Rightarrow> string option \<Rightarrow> 'a list option" where
  "upstream_addrs parse_addr var =
     (let text = (case var of Some s \<Rightarrow> s | None \<Rightarrow> ''127.0.0.1:7001,127.0.0.1:7002,127.0.0.1:7003'');
          addrs = map (\<lambda>a. parse_addr (trim a)) (split_commas [] text)
      in if list_all (\<lambda>x. x \<noteq> None) addrs then Some (map the addrs) else None)"

section \<open>One worker\<close>

record ('e, 'k) world =
  build_rt :: "'e option"
  build_pool :: "nat \<Rightarrow> string option"
  reach :: "string option"
  sockets :: "'e os"
  from_std :: "'e option"
  accepts :: "('e + 'k) list"

record server =
  env_ok :: bool
  prewarms :: bool
  pool_panics :: bool
  percore_size :: "nat \<Rightarrow> nat"
  shared_size :: "nat \<Rightarrow> nat \<Rightarrow> nat"

text \<open>A worker is still serving, returned an error, ended the process, or panicked.\<close>

datatype 'e ended = Serving | Stopped "'e io_error" | Exited | Crashed

record ('e, 'k) worker_run =
  pinned_to :: "nat option"
  pool_max :: "nat option"
  served :: "'k list"
  ended :: "'e ended"

text \<open>\<open>loop { l.accept().await?; ... spawn }\<close>: what it spawned, and the error that ended it.\<close>

fun accept_loop :: "('e + 'k) list \<Rightarrow> 'k list \<times> 'e option" where
  "accept_loop [] = ([], None)"
| "accept_loop (Inl e # as) = ([], Some e)"
| "accept_loop (Inr k # as) = (let (ks, e) = accept_loop as in (k # ks, e))"

text \<open>
  \<open>loop { let Ok(..) = listener.accept().await else { continue }; ... spawn }\<close>, as the compio examples and
  \<open>echo.rs\<close> have it: it goes on after an error.
\<close>

fun accept_on :: "('e + 'k) list \<Rightarrow> 'k list" where
  "accept_on [] = []"
| "accept_on (Inl e # as) = accept_on as"
| "accept_on (Inr k # as) = k # accept_on as"

definition serve_loop :: "('e + 'k) list \<Rightarrow> ('e, 'k) worker_run \<Rightarrow> ('e, 'k) worker_run" where
  "serve_loop as w =
     (let (ks, e) = accept_loop as
      in w\<lparr>served := ks, ended := (case e of None \<Rightarrow> Serving | Some e \<Rightarrow> Stopped (Os e))\<rparr>)"

text \<open>The pool and the first connection, before a listener: \<open>Inl\<close> is how the worker ends there.\<close>

definition start_pool :: "server \<Rightarrow> ('e, 'k) world \<Rightarrow> nat \<Rightarrow> 'e ended option" where
  "start_pool sv w n =
     (case build_pool w n of
        Some msg \<Rightarrow> Some (if pool_panics sv then Crashed else Stopped (Other (''pool build: '' @ msg)))
      | None \<Rightarrow> if prewarms sv \<and> reach w \<noteq> None then Some Exited else None)"

text \<open>The closure \<open>run_percore\<close> spawns for worker \<open>i\<close>.\<close>

definition tokio_worker ::
  "server \<Rightarrow> nat list \<Rightarrow> socket_addr \<Rightarrow> nat \<Rightarrow> nat \<Rightarrow> ('e, 'k) world \<Rightarrow> ('e, 'k) worker_run" where
  "tokio_worker sv cores addr cap i w =
     (let n = percore_size sv cap;
          start = \<lparr>pinned_to = worker_core cores i, pool_max = None, served = [], ended = Serving\<rparr>
      in case build_rt w of
           Some e \<Rightarrow> start\<lparr>ended := Stopped (Os e)\<rparr>
         | None \<Rightarrow>
             (case start_pool sv w n of
                Some end \<Rightarrow> start\<lparr>ended := end\<rparr>
              | None \<Rightarrow>
                  (case reuseport_listener (sockets w) addr of
                     Inl (e, made) \<Rightarrow> start\<lparr>pool_max := Some n, ended := Stopped (Os e)\<rparr>
                   | Inr made \<Rightarrow>
                       (case from_std w of
                          Some e \<Rightarrow> start\<lparr>pool_max := Some n, ended := Stopped (Os e)\<rparr>
                        | None \<Rightarrow> serve_loop (accepts w) (start\<lparr>pool_max := Some n\<rparr>)))))"

section \<open>The process\<close>

text \<open>What \<open>main\<close> comes to; \<open>MainWaits\<close> is a \<open>join\<close> or an accept loop that goes on.\<close>

datatype 'e main_end = MainOk | MainErr "'e io_error" | MainPanics | MainExits | MainWaits

fun ended_main :: "'e ended \<Rightarrow> 'e main_end" where
  "ended_main Serving = MainWaits"
| "ended_main (Stopped e) = MainErr e"
| "ended_main Exited = MainExits"
| "ended_main Crashed = MainPanics"

text \<open>
  \<open>for h in handles { h.join().expect("worker panicked")?; }\<close>. No worker returns \<open>Ok\<close>, so the first join
  decides; while it waits, another worker's \<open>exit\<close> ends the process.
\<close>

fun join_all :: "('e, 'k) worker_run list \<Rightarrow> 'e main_end" where
  "join_all [] = MainOk"
| "join_all (w # ws) =
     (case ended w of
        Serving \<Rightarrow> if list_ex (\<lambda>x. case ended x of Exited \<Rightarrow> True | _ \<Rightarrow> False) ws then MainExits else MainWaits
      | x \<Rightarrow> ended_main x)"

definition run_percore ::
  "server \<Rightarrow> nat list \<Rightarrow> socket_addr \<Rightarrow> nat \<Rightarrow> nat \<Rightarrow> (nat \<Rightarrow> ('e, 'k) world) \<Rightarrow> ('e, 'k) worker_run list" where
  "run_percore sv cores addr cap workers worlds =
     map (\<lambda>i. tokio_worker sv cores addr cap i (worlds i)) [0..<workers]"

text \<open>
  The shared runtime: \<open>bind_err\<close> is what \<open>TcpListener::bind\<close> returns, \<open>threads_ok\<close> whether
  \<open>worker_threads\<close> accepts a count.
\<close>

definition run_default ::
  "server \<Rightarrow> (nat \<Rightarrow> bool) \<Rightarrow> 'e option \<Rightarrow> nat \<Rightarrow> nat \<Rightarrow> ('e, 'k) world \<Rightarrow> ('e, 'k) worker_run" where
  "run_default sv threads_ok bind_err cap workers w =
     (let n = shared_size sv cap workers;
          start = \<lparr>pinned_to = None, pool_max = None, served = [], ended = Serving\<rparr>
      in if \<not> threads_ok workers then start\<lparr>ended := Crashed\<rparr>
         else case build_rt w of
           Some e \<Rightarrow> start\<lparr>ended := Stopped (Os e)\<rparr>
         | None \<Rightarrow>
             if \<not> env_ok sv then start\<lparr>ended := Crashed\<rparr>
             else (case start_pool sv w n of
                Some end \<Rightarrow> start\<lparr>ended := end\<rparr>
              | None \<Rightarrow>
                  (case bind_err of
                     Some e \<Rightarrow> start\<lparr>pool_max := Some n, ended := Stopped (Os e)\<rparr>
                   | None \<Rightarrow> serve_loop (accepts w) (start\<lparr>pool_max := Some n\<rparr>))))"

text \<open>\<open>usize::saturating_mul\<close>.\<close>

definition saturating_mul :: "nat \<Rightarrow> nat \<Rightarrow> nat" where
  "saturating_mul a b = min (a * b) (2 ^ 64 - 1)"

text \<open>\<open>env\<close> says whether the addresses the environment gives parse, \<open>warm\<close> whether a first upstream is reached for.\<close>

definition deadpool_server :: "bool \<Rightarrow> bool \<Rightarrow> server" where
  "deadpool_server env warm =
     \<lparr>env_ok = env, prewarms = warm, pool_panics = False, percore_size = (\<lambda>cap. max cap 1),
      shared_size = (\<lambda>cap workers. max (saturating_mul cap workers) 1)\<rparr>"

text \<open>\<open>build_pool\<close> of \<open>redis_proxy.rs\<close> panics when the pool cannot be made, and resizes it to the capacity as given.\<close>

definition redis_server :: server where
  "redis_server =
     \<lparr>env_ok = True, prewarms = True, pool_panics = True, percore_size = (\<lambda>cap. cap), shared_size = (\<lambda>cap workers. cap)\<rparr>"

text \<open>\<open>main\<close>: parse, dispatch on the mode, and what the process comes to.\<close>

definition tokio_main ::
  "server \<Rightarrow> (string \<Rightarrow> socket_addr option) \<Rightarrow> nat \<Rightarrow> (nat \<Rightarrow> bool) option \<Rightarrow> (nat \<Rightarrow> bool) \<Rightarrow> 'e option
   \<Rightarrow> (nat \<Rightarrow> ('e, 'k) world) \<Rightarrow> string list \<Rightarrow> 'e main_end \<times> ('e, 'k) worker_run list" where
  "tokio_main sv parse_addr parallelism affinity threads_ok bind_err worlds args =
     (case main_args parse_addr parallelism args of
        Inl e \<Rightarrow> (MainErr e, [])
      | Inr l \<Rightarrow>
          (case launch_mode l of
             Percore \<Rightarrow>
               if \<not> env_ok sv then (MainPanics, [])
               else (let ws = run_percore sv (proxy_core_ids affinity parallelism) (launch_addr l) (launch_cap l)
                           (launch_workers l) worlds
                in (join_all ws, ws))
           | Default \<Rightarrow>
               (let w = run_default sv threads_ok bind_err (launch_cap l) (launch_workers l) (worlds 0)
                in (ended_main (ended w), [w]))))"

section \<open>The servers\<close>

text \<open>
  \<open>relay.rs\<close> and \<open>fanout.rs\<close> reach for a first upstream before they listen; the others do not. Both print
  the addresses they will reach before anything else, which panics when one does not parse.
\<close>

definition relay_run_percore where "relay_run_percore = run_percore (deadpool_server True True)"

definition relay_run_default where
  "relay_run_default parse_addr var = run_default (deadpool_server (upstream_addr parse_addr var \<noteq> None) True)"

definition relay_main where
  "relay_main parse_addr var = tokio_main (deadpool_server (upstream_addr parse_addr var \<noteq> None) True) parse_addr"

definition fanout_run_percore where "fanout_run_percore = run_percore (deadpool_server True True)"

definition fanout_run_default where
  "fanout_run_default parse_addr var = run_default (deadpool_server (upstream_addrs parse_addr var \<noteq> None) True)"

definition fanout_main where
  "fanout_main parse_addr var = tokio_main (deadpool_server (upstream_addrs parse_addr var \<noteq> None) True) parse_addr"

definition churn_run_percore where "churn_run_percore = run_percore (deadpool_server True False)"

definition churn_run_default where "churn_run_default = run_default (deadpool_server True False)"

definition churn_main where "churn_main = tokio_main (deadpool_server True False)"

definition file_run_percore where "file_run_percore = run_percore (deadpool_server True False)"

definition file_run_default where "file_run_default = run_default (deadpool_server True False)"

definition file_main where "file_main = tokio_main (deadpool_server True False)"

definition wal_run_percore where "wal_run_percore = run_percore (deadpool_server True False)"

definition wal_run_default where "wal_run_default = run_default (deadpool_server True False)"

text \<open>\<open>wal.rs\<close> makes its directory before it looks at its arguments.\<close>

definition wal_main where
  "wal_main dir_err parse_addr parallelism affinity threads_ok bind_err worlds args =
     (case dir_err of
        Some e \<Rightarrow> (MainErr (Os e), [])
      | None \<Rightarrow> tokio_main (deadpool_server True False) parse_addr parallelism affinity threads_ok bind_err worlds args)"

definition redis_run_percore where "redis_run_percore = run_percore redis_server"

definition redis_run_default where "redis_run_default = run_default redis_server"

definition redis_main where "redis_main = tokio_main redis_server"

section \<open>Workers\<close>

text \<open>Everything that has to come up before a worker accepts.\<close>

definition came_up :: "server \<Rightarrow> socket_addr \<Rightarrow> nat \<Rightarrow> ('e, 'k) world \<Rightarrow> bool" where
  "came_up sv addr cap w \<longleftrightarrow>
     build_rt w = None \<and> build_pool w (percore_size sv cap) = None \<and> (prewarms sv \<longrightarrow> reach w = None)
     \<and> reuseport_listener (sockets w) addr = Inr (listener_calls addr) \<and> from_std w = None"

lemma accept_loop_prefix:
  "accept_loop as = (ks, e) \<Longrightarrow>
   prefix (map Inr ks @ (case e of None \<Rightarrow> [] | Some e \<Rightarrow> [Inl e])) as \<and> (e = None \<longrightarrow> as = map Inr ks)"
proof (induction "as" arbitrary: ks)
  case (Cons a as)
  then show ?case by (cases a) (auto split: prod.splits)
qed auto

text \<open>An error costs \<open>accept_on\<close> one connection and \<open>accept_loop\<close> all later ones.\<close>

lemma accept_on_keeps_going: "accept_on as = List.map_filter (\<lambda>a. case a of Inr k \<Rightarrow> Some k | Inl e \<Rightarrow> None) as"
  by (induction "as" rule: accept_on.induct) (simp_all add: map_filter_simps)

lemma accept_loop_served: "prefix (fst (accept_loop as)) (accept_on as)"
  by (induction "as" rule: accept_on.induct) (auto split: prod.split)

lemma listener_up: "reuseport_listener os addr = Inr made \<Longrightarrow> made = listener_calls addr"
  using make_calls_ok by (fastforce simp: reuseport_listener_calls)

lemma tokio_worker_up:
  "came_up sv addr cap w \<Longrightarrow>
   tokio_worker sv cores addr cap i w = serve_loop (accepts w)
     \<lparr>pinned_to = worker_core cores i, pool_max = Some (percore_size sv cap), served = [], ended = Serving\<rparr>"
  by (auto simp: tokio_worker_def came_up_def start_pool_def Let_def)

lemma tokio_worker_down:
  assumes "\<not> came_up sv addr cap w"
  shows "served (tokio_worker sv cores addr cap i w) = [] \<and> ended (tokio_worker sv cores addr cap i w) \<noteq> Serving"
  using assms listener_up [of "sockets w" addr]
  by (auto simp: tokio_worker_def came_up_def start_pool_def Let_def split: option.splits sum.splits)

lemma tokio_worker_pinned [simp]: "pinned_to (tokio_worker sv cores addr cap i w) = worker_core cores i"
  by (auto simp: tokio_worker_def serve_loop_def Let_def split: option.splits sum.splits prod.splits)

lemma worker_core_nth: "cores \<noteq> [] \<Longrightarrow> worker_core cores i = Some (cores ! (i mod length cores))"
proof -
  assume "cores \<noteq> []"
  moreover from this have "max (length cores) 1 = length cores" by (cases cores) simp_all
  ultimately show ?thesis by (simp add: worker_core_def Let_def)
qed

lemma join_all_not_ok: "join_all (w # ws) \<noteq> MainOk"
  by (cases "ended w") simp_all

lemma residue_count:
  assumes "j < n"
  shows "length (filter (\<lambda>i. i mod n = j) [0..<m]) = m div n + (if j < m mod n then 1 else 0)"
proof (induction m)
  case (Suc m)
  have "m mod n < n" using assms by simp
  with Suc assms show ?case by (auto simp: mod_Suc div_Suc)
qed simp

lemma serve_loop_sel:
  "pinned_to (serve_loop as w) = pinned_to w" "pool_max (serve_loop as w) = pool_max w"
  "prefix (map Inr (served (serve_loop as w))) as"
  "ended (serve_loop as w) = Serving \<longleftrightarrow> as = map Inr (served (serve_loop as w))"
proof -
  obtain ks e where "accept_loop as = (ks, e)" by (cases "accept_loop as")
  with accept_loop_prefix [OF this] show "prefix (map Inr (served (serve_loop as w))) as"
    "ended (serve_loop as w) = Serving \<longleftrightarrow> as = map Inr (served (serve_loop as w))"
    by (auto simp: serve_loop_def prefix_def map_eq_append_conv split: option.splits)
qed (simp_all add: serve_loop_def Let_def split: prod.split)

text \<open>
  Starting one worker per core. Worker \<open>i\<close> is pinned to core \<open>i mod n\<close> of the \<open>n\<close> permitted ones, so the
  workers per core differ by at most one. A worker serves exactly the connections accepted before the
  first accept error, and none unless its runtime, pool, first connection and listener all came up,
  in which case its pool has the capacity asked for. Workers only end in an error, so \<open>main\<close> returns
  \<open>Ok\<close> only when it was told to start none.
\<close>

theorem percore_start:
  "let ws = run_percore sv cores addr cap workers worlds; n = length cores in
     length ws = workers \<and> (join_all ws = MainOk \<longleftrightarrow> workers = 0) \<and>
     (distinct cores \<longrightarrow> (\<forall>c \<in> set cores.
        length (filter (\<lambda>w. pinned_to w = Some c) ws) \<in> {workers div n, workers div n + 1})) \<and>
     (\<forall>i < workers.
        (cores \<noteq> [] \<longrightarrow> pinned_to (ws ! i) = Some (cores ! (i mod n))) \<and>
        (if came_up sv addr cap (worlds i)
         then pool_max (ws ! i) = Some (percore_size sv cap)
           \<and> prefix (map Inr (served (ws ! i))) (accepts (worlds i))
           \<and> (ended (ws ! i) = Serving \<longleftrightarrow> accepts (worlds i) = map Inr (served (ws ! i)))
         else served (ws ! i) = [] \<and> ended (ws ! i) \<noteq> Serving))"
proof -
  let ?ws = "run_percore sv cores addr cap workers worlds"
  have nth: "?ws ! i = tokio_worker sv cores addr cap i (worlds i)" if "i < workers" for i
    using that by (simp add: run_percore_def)
  have len: "length ?ws = workers" by (simp add: run_percore_def)
  have joined: "join_all ?ws = MainOk \<longleftrightarrow> workers = 0"
    by (cases ?ws) (use len in \<open>auto simp: join_all_not_ok simp del: join_all.simps(2)\<close>)
  have even: "length (filter (\<lambda>w. pinned_to w = Some c) ?ws) \<in> {workers div length cores, workers div length cores + 1}"
    if d: "distinct cores" and c: "c \<in> set cores" for c
  proof -
    obtain j where j: "j < length cores" "cores ! j = c" using c by (auto simp: in_set_conv_nth)
    have ne: "cores \<noteq> []" using c by auto
    then have "i mod length cores < length cores" for i by simp
    then have "worker_core cores i = Some c \<longleftrightarrow> i mod length cores = j" for i
      using worker_core_nth [OF ne, of i] j nth_eq_iff_index_eq [OF d] by auto
    then have "length (filter (\<lambda>w. pinned_to w = Some c) ?ws) = length (filter (\<lambda>i. i mod length cores = j) [0..<workers])"
      by (simp add: run_percore_def filter_map comp_def)
    then show ?thesis using residue_count [OF j(1), of workers] by simp
  qed
  have each: "(cores \<noteq> [] \<longrightarrow> pinned_to (?ws ! i) = Some (cores ! (i mod length cores))) \<and>
      (if came_up sv addr cap (worlds i)
       then pool_max (?ws ! i) = Some (percore_size sv cap) \<and> prefix (map Inr (served (?ws ! i))) (accepts (worlds i))
         \<and> (ended (?ws ! i) = Serving \<longleftrightarrow> accepts (worlds i) = map Inr (served (?ws ! i)))
       else served (?ws ! i) = [] \<and> ended (?ws ! i) \<noteq> Serving)" if "i < workers" for i
    by (simp add: nth [OF that] worker_core_nth tokio_worker_up tokio_worker_down serve_loop_sel)
  show ?thesis unfolding Let_def using len joined even each by (intro conjI) blast+
qed

definition calm_world :: "(nat, nat) world" where
  "calm_world =
     \<lparr>build_rt = None, build_pool = (\<lambda>n. None), reach = None, sockets = (\<lambda>made c. None), from_std = None,
      accepts = [Inr 7, Inl 24, Inr 8]\<rparr>"

theorem percore_start_witness:
  "let ws = run_percore (deadpool_server True True) [2, 5] (SocketV4 0 80) 0 3 (\<lambda>i. calm_world) in
     pinned_to (ws ! 2) = Some 2 \<and> pool_max (ws ! 2) = Some 1 \<and> served (ws ! 2) = [7]
     \<and> length (filter (\<lambda>w. pinned_to w = Some 5) ws) \<in> {1, 2}"
proof -
  let ?ws = "run_percore (deadpool_server True True) [2, 5] (SocketV4 0 80) 0 3 (\<lambda>i. calm_world)"
  have up: "came_up (deadpool_server True True) (SocketV4 0 80) 0 calm_world"
    by (simp add: came_up_def calm_world_def reuseport_listener_def try_call_def listener_calls_def)
  have srv: "served (?ws ! 2) = [7]"
    using tokio_worker_up [OF up] by (simp add: run_percore_def serve_loop_def calm_world_def)
  have two: "2 mod Suc (Suc 0) = (0 :: nat)" by (simp add: numeral_2_eq_2)
  note start = percore_start [of "deadpool_server True True" "[2, 5]" "SocketV4 0 80" 0 3 "\<lambda>i. calm_world", unfolded Let_def]
  have "\<forall>c \<in> set [2, 5]. length (filter (\<lambda>w. pinned_to w = Some c) ?ws) \<in> {3 div length [2, 5 :: nat], 3 div length [2, 5 :: nat] + 1}"
    using start by fastforce
  moreover have "pinned_to (?ws ! 2) = Some 2 \<and> pool_max (?ws ! 2) = Some (percore_size (deadpool_server True True) 0)"
    using start up by (auto simp: two dest: spec [of _ 2])
  moreover have "percore_size (deadpool_server True True) 0 = 1" by (simp add: deadpool_server_def)
  moreover have "3 div Suc (Suc 0) = (1 :: nat)" by (subst numeral_2_eq_2 [symmetric]) simp
  ultimately show ?thesis using srv by (simp add: Let_def numeral_2_eq_2)
qed

section \<open>Capacities\<close>

text \<open>The deadpool servers never ask for an empty pool, and the product of capacity and workers never wraps.\<close>

lemma deadpool_size_positive: "0 < percore_size (deadpool_server a b) cap" "0 < shared_size (deadpool_server a b) cap workers"
  by (simp_all add: deadpool_server_def max_def)

lemma shared_size_bound: "cap < 2 ^ 64 \<Longrightarrow> shared_size (deadpool_server a b) cap workers < 2 ^ 64"
  by (simp add: deadpool_server_def saturating_mul_def)

text \<open>\<open>redis_proxy.rs\<close> does not clamp: asked for none, it makes a pool that can hold none.\<close>

lemma redis_pool_can_be_empty:
  "came_up redis_server addr 0 w \<Longrightarrow> pool_max (tokio_worker redis_server cores addr 0 i w) = Some 0"
  by (simp add: tokio_worker_up serve_loop_sel) (simp add: redis_server_def)

text \<open>Told to start no worker, a per-core server returns \<open>Ok\<close> at once.\<close>

lemma no_workers_is_success:
  assumes "parse_addr a = Some addr" and "parse_usize c = Some cap" and "env_ok sv"
  shows "tokio_main sv parse_addr parallelism affinity threads_ok bind_err worlds [a, c, ''0''] = (MainOk, [])"
proof -
  have "parse_usize ''0'' = Some 0" by (simp add: parse_usize_def char_digit_def Let_def)
  with assms show ?thesis by (simp add: tokio_main_def main_args_def usize_arg_def run_percore_def Let_def)
qed

end
