(* ===== verification/Tokio_Echo.thy ===== *)
theory Tokio_Echo
  imports Echo Tokio_Start
begin

text \<open>
  What the tokio servers under \<open>src/crates/deadpool-baseline/examples\<close> pool and how the echo servers among
  them run: the managers of \<open>relay.rs\<close>, \<open>fanout.rs\<close>, \<open>churn.rs\<close> and \<open>echo.rs\<close>, the handler of \<open>churn.rs\<close>, the
  thread-local buffers of \<open>echo_tpc.rs\<close>, and \<open>main\<close> of the two echo servers. deadpool recycles an object
  before it lends it again; the locale \<open>recycled_resource\<close> is what its users rely on.
\<close>

section \<open>Managers\<close>

text \<open>\<open>Vec::resize\<close>.\<close>

definition vec_resize :: "nat \<Rightarrow> 'a \<Rightarrow> 'a list \<Rightarrow> 'a list" where
  "vec_resize n x xs = take n xs @ replicate (n - length xs) x"

lemma length_vec_resize [simp]: "length (vec_resize n x xs) = n"
  by (simp add: vec_resize_def)

record 'k relay_up =
  up_stream :: 'k
  up_buf :: "u8 list"

text \<open>What connecting to an address gives; \<open>set_nodelay\<close> may still fail.\<close>

definition open_stream :: "('a \<Rightarrow> 'e + 'k) \<Rightarrow> ('k \<Rightarrow> 'e option) \<Rightarrow> 'a \<Rightarrow> 'e + 'k" where
  "open_stream connect nodelay addr =
     (case connect addr of
        Inl e \<Rightarrow> Inl e
      | Inr s \<Rightarrow> (case nodelay s of Some e \<Rightarrow> Inl e | None \<Rightarrow> Inr s))"

definition relay_create :: "('a \<Rightarrow> 'e + 'k) \<Rightarrow> ('k \<Rightarrow> 'e option) \<Rightarrow> 'a \<Rightarrow> 'e + 'k relay_up" where
  "relay_create connect nodelay addr =
     (case open_stream connect nodelay addr of
        Inl e \<Rightarrow> Inl e
      | Inr s \<Rightarrow> Inr \<lparr>up_stream = s, up_buf = replicate (16 * 1024) 0\<rparr>)"

definition relay_recycle :: "'k relay_up \<Rightarrow> 'k relay_up" where
  "relay_recycle up =
     (if length (up_buf up) \<noteq> 16 * 1024 then up\<lparr>up_buf := vec_resize (16 * 1024) 0 (up_buf up)\<rparr> else up)"

record 'k fan_ups =
  fan_streams :: "'k list"
  fan_buf :: "u8 list"
  fan_resp :: "u8 list"

text \<open>The loop over the addresses: the first that fails ends it.\<close>

fun connect_all :: "('a \<Rightarrow> 'e + 'k) \<Rightarrow> ('k \<Rightarrow> 'e option) \<Rightarrow> 'a list \<Rightarrow> 'k list \<Rightarrow> 'e + 'k list" where
  "connect_all connect nodelay [] streams = Inr streams"
| "connect_all connect nodelay (a # as) streams =
     (case open_stream connect nodelay a of
        Inl e \<Rightarrow> Inl e
      | Inr s \<Rightarrow> connect_all connect nodelay as (streams @ [s]))"

definition fanout_create :: "('a \<Rightarrow> 'e + 'k) \<Rightarrow> ('k \<Rightarrow> 'e option) \<Rightarrow> 'a list \<Rightarrow> 'e + 'k fan_ups" where
  "fanout_create connect nodelay addrs =
     (case connect_all connect nodelay addrs [] of
        Inl e \<Rightarrow> Inl e
      | Inr ss \<Rightarrow>
          Inr \<lparr>fan_streams = ss, fan_buf = replicate (16 * 1024) 0, fan_resp = replicate (16 * 1024) 0\<rparr>)"

definition fanout_recycle :: "'k fan_ups \<Rightarrow> 'k fan_ups" where
  "fanout_recycle up =
     (let up1 = (if length (fan_buf up) \<noteq> 16 * 1024 then up\<lparr>fan_buf := vec_resize (16 * 1024) 0 (fan_buf up)\<rparr> else up)
      in if length (fan_resp up1) \<noteq> 16 * 1024 then up1\<lparr>fan_resp := vec_resize (16 * 1024) 0 (fan_resp up1)\<rparr> else up1)"

definition tiny_create :: "u8 list" where
  "tiny_create = [0]"

definition tiny_recycle :: "u8 list \<Rightarrow> u8 list" where
  "tiny_recycle b = (if length b \<noteq> 1 then vec_resize 1 0 b else b)"

text \<open>The buffers of \<open>echo.rs\<close> and \<open>file_server.rs\<close> are cleared; their handlers resize them.\<close>

definition buf_create :: "u8 list" where
  "buf_create = []"

definition buf_recycle :: "u8 list \<Rightarrow> u8 list" where
  "buf_recycle b = []"

definition lend_buffer :: "nat \<Rightarrow> u8 list \<Rightarrow> u8 list" where
  "lend_buffer n b = vec_resize n 0 b"

section \<open>What a handler is lent\<close>

locale recycled_resource =
  fixes recycle :: "'r \<Rightarrow> 'r" and made :: "'r \<Rightarrow> bool" and ready :: "'r \<Rightarrow> bool"
  assumes made_ready: "made r \<Longrightarrow> ready r"
    and recycled_ready: "ready (recycle r)"
begin

text \<open>An object through a history of loans: whatever each holder left is recycled before the next.\<close>

fun lent :: "('r \<Rightarrow> 'r) list \<Rightarrow> 'r \<Rightarrow> 'r" where
  "lent [] r = r"
| "lent (use # uses) r = lent uses (recycle (use r))"

lemma lent_ready: "made r \<Longrightarrow> ready (lent uses r)"
proof (induction uses arbitrary: r)
  case (Cons use uses)
  have "ready r \<Longrightarrow> ready (lent uses r)" for r using recycled_ready by (induction uses arbitrary: r) auto
  with recycled_ready show ?case by simp
qed (simp add: made_ready)

end

lemma relay_create_buf: "relay_create connect nodelay addr = Inr up \<Longrightarrow> length (up_buf up) = 16 * 1024"
  by (cases "open_stream connect nodelay addr") (auto simp: relay_create_def)

lemma fanout_create_bufs:
  "fanout_create connect nodelay addrs = Inr up \<Longrightarrow>
   length (fan_buf up) = 16 * 1024 \<and> length (fan_resp up) = 16 * 1024"
  by (cases "connect_all connect nodelay addrs []") (auto simp: fanout_create_def)

interpretation relay_pool: recycled_resource relay_recycle
  "\<lambda>up. \<exists>connect nodelay addr. relay_create connect nodelay addr = (Inr up :: unit + 'k relay_up)"
  "\<lambda>up :: 'k relay_up. length (up_buf up) = 16 * 1024"
  by unfold_locales (auto simp: relay_recycle_def dest: relay_create_buf)

interpretation fanout_pool: recycled_resource fanout_recycle
  "\<lambda>up. \<exists>connect nodelay addrs. fanout_create connect nodelay addrs = (Inr up :: unit + 'k fan_ups)"
  "\<lambda>up :: 'k fan_ups. length (fan_buf up) = 16 * 1024 \<and> length (fan_resp up) = 16 * 1024"
  by unfold_locales (auto simp: fanout_recycle_def Let_def dest: fanout_create_bufs)

interpretation tiny_pool: recycled_resource tiny_recycle "\<lambda>b. b = tiny_create" "\<lambda>b. length b = 1"
  by unfold_locales (auto simp: tiny_create_def tiny_recycle_def)

interpretation buf_pool: recycled_resource buf_recycle "\<lambda>b. b = buf_create" "\<lambda>b. b = []"
  by unfold_locales (auto simp: buf_create_def buf_recycle_def)

text \<open>A set of upstreams has one stream per address, in their order.\<close>

lemma connect_all_streams:
  "connect_all connect nodelay as ss = Inr ss' \<Longrightarrow>
   \<exists>new. ss' = ss @ new \<and> map (open_stream connect nodelay) as = map Inr new"
proof (induction "as" arbitrary: ss)
  case (Cons a as)
  then obtain s where s: "open_stream connect nodelay a = Inr s" "connect_all connect nodelay as (ss @ [s]) = Inr ss'"
    by (auto split: sum.splits)
  with Cons.IH obtain new where "ss' = (ss @ [s]) @ new" "map (open_stream connect nodelay) as = map Inr new" by blast
  with s(1) show ?case by (intro exI [of _ "s # new"]) simp
qed simp

lemma fanout_create_streams:
  "fanout_create connect nodelay addrs = Inr up \<Longrightarrow>
   map Inr (fan_streams up) = map (open_stream connect nodelay) addrs"
  by (auto simp: fanout_create_def dest!: connect_all_streams split: sum.splits)

section \<open>One byte per connection\<close>

text \<open>
  \<open>handle\<close> of \<open>churn.rs\<close>: the buffer leased, if any, and what the read finds; the write's result is
  ignored. The handler's second result is the buffer it gives back.
\<close>

definition churn_handle :: "u8 list option \<Rightarrow> 'e + u8 list \<Rightarrow> u8 list \<times> u8 list option" where
  "churn_handle lease arriving =
     (case lease of
        None \<Rightarrow> ([], None)
      | Some b \<Rightarrow>
          (case arriving of
             Inl e \<Rightarrow> ([], Some b)
           | Inr bytes \<Rightarrow>
               (let n = min (length b) (length bytes);
                    b1 = take n bytes @ drop n b
                in if n = 0 then ([], Some b1) else (take n b1, Some b1))))"

text \<open>A connection that sends anything has its first byte echoed, whatever the buffer held before.\<close>

lemma churn_echoes_first:
  "churn_handle (Some (tiny_pool.lent uses tiny_create)) (Inr (x # xs)) = ([x], Some [x])"
proof -
  have "length (tiny_pool.lent uses tiny_create) = 1" by (rule tiny_pool.lent_ready) (rule refl)
  then obtain y where "tiny_pool.lent uses tiny_create = [y]" by (auto simp: length_Suc_conv)
  then show ?thesis by (simp add: churn_handle_def Let_def)
qed

section \<open>Thread-local buffers\<close>

text \<open>
  The worker loop of \<open>echo_tpc.rs\<close>. \<open>tpc_free\<close> is the \<open>Vec\<close> behind the \<open>RefCell\<close>, taken from and put back
  at its end; a task has not been polled, holds_buffer its buffer, or is over. A read fills the front of the
  buffer with as many bytes as fit.
\<close>

datatype tpc_task = Unpolled | Holding "u8 list" | Over

record tpc =
  tpc_free :: "u8 list list"
  tpc_tasks :: "tpc_task list"
  tpc_sent :: "(nat \<times> u8 list) list"

datatype 'e tpc_event = TpcAccept | TpcPoll nat "('e + u8 list) \<times> bool"

definition tpc_take :: "u8 list list \<Rightarrow> u8 list \<times> u8 list list" where
  "tpc_take pool = (if pool = [] then (replicate (16 * 1024) 0, []) else (last pool, butlast pool))"

definition tpc_turn :: "nat \<Rightarrow> u8 list \<Rightarrow> ('e + u8 list) \<times> bool \<Rightarrow> tpc \<Rightarrow> tpc" where
  "tpc_turn i b turn w =
     (case turn of
        (Inl e, write_ok) \<Rightarrow> w\<lparr>tpc_free := tpc_free w @ [b], tpc_tasks := (tpc_tasks w)[i := Over]\<rparr>
      | (Inr bytes, write_ok) \<Rightarrow>
          (let n = min (length b) (length bytes);
               b1 = take n bytes @ drop n b
           in if n = 0 \<or> \<not> write_ok
              then w\<lparr>tpc_free := tpc_free w @ [b1], tpc_tasks := (tpc_tasks w)[i := Over]\<rparr>
              else w\<lparr>tpc_tasks := (tpc_tasks w)[i := Holding b1], tpc_sent := tpc_sent w @ [(i, take n b1)]\<rparr>))"

fun tpc_step :: "'e tpc_event \<Rightarrow> tpc \<Rightarrow> tpc" where
  "tpc_step TpcAccept w = w\<lparr>tpc_tasks := tpc_tasks w @ [Unpolled]\<rparr>"
| "tpc_step (TpcPoll i turn) w =
     (if i < length (tpc_tasks w)
      then (case tpc_tasks w ! i of
              Unpolled \<Rightarrow>
                (let (b, rest) = tpc_take (tpc_free w)
                 in w\<lparr>tpc_free := rest, tpc_tasks := (tpc_tasks w)[i := Holding b]\<rparr>)
            | Holding b \<Rightarrow> tpc_turn i b turn w
            | Over \<Rightarrow> w)
      else w)"

definition tpc_start :: tpc where
  "tpc_start = \<lparr>tpc_free = [], tpc_tasks = [], tpc_sent = []\<rparr>"

fun holds_buffer :: "tpc_task \<Rightarrow> bool" where
  "holds_buffer (Holding b) \<longleftrightarrow> True"
| "holds_buffer t \<longleftrightarrow> False"

definition tpc_holding :: "tpc \<Rightarrow> nat" where
  "tpc_holding w = length (filter holds_buffer (tpc_tasks w))"

text \<open>A run, and the most tasks that held a buffer at the same time in it.\<close>

fun tpc_run :: "'e tpc_event list \<Rightarrow> nat \<Rightarrow> tpc \<Rightarrow> nat \<times> tpc" where
  "tpc_run [] peak w = (peak, w)"
| "tpc_run (e # es) peak w = (let w1 = tpc_step e w in tpc_run es (max peak (tpc_holding w1)) w1)"

definition tpc_inv :: "nat \<Rightarrow> tpc \<Rightarrow> bool" where
  "tpc_inv peak w \<longleftrightarrow>
     length (tpc_free w) + tpc_holding w = peak \<and>
     (\<forall>b \<in> set (tpc_free w). length b = 16 * 1024) \<and>
     (\<forall>t \<in> set (tpc_tasks w). \<forall>b. t = Holding b \<longrightarrow> length b = 16 * 1024)"

lemma holds_update:
  "i < length ts \<Longrightarrow>
   length (filter holds_buffer (ts[i := t])) + (if holds_buffer (ts ! i) then 1 else 0) = length (filter holds_buffer ts) + (if holds_buffer t then 1 else 0)"
proof (induction ts arbitrary: i)
  case (Cons x ts)
  then show ?case using Cons.IH [of "i - 1"] by (cases i) auto
qed simp

lemma task_update: "t \<in> set (ts[i := u]) \<Longrightarrow> t = u \<or> t \<in> set ts"
  using set_update_subset_insert by fastforce

lemma tpc_take_room:
  "tpc_take pool = (b, rest) \<Longrightarrow> \<forall>b \<in> set pool. length b = 16 * 1024 \<Longrightarrow>
   length b = 16 * 1024 \<and> (\<forall>b \<in> set rest. length b = 16 * 1024) \<and> length rest = length pool - 1"
  by (auto simp: tpc_take_def dest: in_set_butlastD split: if_splits)

lemma tpc_inv_put:
  assumes "tpc_inv peak w" "i < length (tpc_tasks w)" "tpc_tasks w ! i = Holding b" "length b1 = 16 * 1024"
  shows "tpc_inv peak (w\<lparr>tpc_free := tpc_free w @ [b1], tpc_tasks := (tpc_tasks w)[i := Over]\<rparr>)"
  using assms holds_update [OF assms(2), of Over] by (auto simp: tpc_inv_def tpc_holding_def dest!: task_update)

lemma tpc_inv_keep:
  assumes "tpc_inv peak w" "i < length (tpc_tasks w)" "tpc_tasks w ! i = Holding b" "length b1 = 16 * 1024"
  shows "tpc_inv peak (w\<lparr>tpc_tasks := (tpc_tasks w)[i := Holding b1], tpc_sent := sent\<rparr>)"
  using assms holds_update [OF assms(2), of "Holding b1"] by (auto simp: tpc_inv_def tpc_holding_def dest!: task_update)

lemma tpc_turn_inv:
  assumes "tpc_inv peak w" "i < length (tpc_tasks w)" "tpc_tasks w ! i = Holding b"
  shows "tpc_inv peak (tpc_turn i b turn w)"
proof -
  have b: "length b = 16 * 1024" using assms by (metis nth_mem tpc_inv_def)
  obtain r ok where turn: "turn = (r, ok)" by (cases turn)
  show ?thesis
  proof (cases r)
    case (Inl e)
    with tpc_inv_put [OF assms b] turn show ?thesis by (simp add: tpc_turn_def)
  next
    case (Inr bytes)
    let ?n = "min (length b) (length bytes)"
    have "length (take ?n bytes @ drop ?n b) = 16 * 1024" using b by simp
    from tpc_inv_put [OF assms this] tpc_inv_keep [OF assms this] Inr turn show ?thesis
      by (simp add: tpc_turn_def Let_def)
  qed
qed

lemma tpc_inv_peak: "tpc_inv peak w \<Longrightarrow> max peak (tpc_holding w) = peak"
  by (auto simp: tpc_inv_def)

lemma tpc_inv_take:
  assumes "tpc_inv peak w" "i < length (tpc_tasks w)" "tpc_tasks w ! i = Unpolled" "tpc_take (tpc_free w) = (b, rest)"
  shows "tpc_inv (max peak (Suc (tpc_holding w))) (w\<lparr>tpc_free := rest, tpc_tasks := (tpc_tasks w)[i := Holding b]\<rparr>)"
    and "tpc_holding (w\<lparr>tpc_free := rest, tpc_tasks := (tpc_tasks w)[i := Holding b]\<rparr>) = Suc (tpc_holding w)"
proof -
  show one: "tpc_holding (w\<lparr>tpc_free := rest, tpc_tasks := (tpc_tasks w)[i := Holding b]\<rparr>) = Suc (tpc_holding w)"
    using holds_update [OF assms(2), of "Holding b"] assms(3) by (simp add: tpc_holding_def)
  have "\<forall>b \<in> set (tpc_free w). length b = 16 * 1024" using assms(1) by (simp add: tpc_inv_def)
  note room = tpc_take_room [OF assms(4) this]
  have "length rest + Suc (tpc_holding w) = max peak (Suc (tpc_holding w))"
    using assms(1) room by (cases "tpc_free w") (auto simp: tpc_inv_def)
  with room assms(1) one show "tpc_inv (max peak (Suc (tpc_holding w))) (w\<lparr>tpc_free := rest, tpc_tasks := (tpc_tasks w)[i := Holding b]\<rparr>)"
    by (auto simp: tpc_inv_def dest!: task_update)
qed

lemma tpc_step_inv: "tpc_inv peak w \<Longrightarrow> tpc_inv (max peak (tpc_holding (tpc_step e w))) (tpc_step e w)"
proof (cases e)
  case TpcAccept
  assume inv: "tpc_inv peak w"
  then have "tpc_inv peak (tpc_step e w)" using TpcAccept by (auto simp: tpc_inv_def tpc_holding_def)
  then show ?thesis by (simp add: tpc_inv_peak)
next
  case (TpcPoll i turn)
  assume inv: "tpc_inv peak w"
  consider "i \<ge> length (tpc_tasks w) \<or> tpc_tasks w ! i = Over" | b where "i < length (tpc_tasks w)" "tpc_tasks w ! i = Holding b"
    | "i < length (tpc_tasks w)" "tpc_tasks w ! i = Unpolled"
    by (cases "tpc_tasks w ! i") force+
  then show ?thesis
  proof cases
    case 1
    with inv TpcPoll have "tpc_step e w = w" by auto
    with inv show ?thesis by (simp add: tpc_inv_peak)
  next
    case 2
    with tpc_turn_inv [OF inv 2, of turn] TpcPoll show ?thesis by (simp add: tpc_inv_peak)
  next
    case 3
    obtain b rest where t: "tpc_take (tpc_free w) = (b, rest)" by fastforce
    with 3 TpcPoll have "tpc_step e w = w\<lparr>tpc_free := rest, tpc_tasks := (tpc_tasks w)[i := Holding b]\<rparr>" by simp
    then show ?thesis using tpc_inv_take [OF inv 3 t] by simp
  qed
qed

text \<open>
  A worker never makes a buffer while one is free: the buffers in existence are as many as the most
  connections it ever served at once, and each keeps its 16 KiB.
\<close>

lemma tpc_buffers_are_peak:
  assumes "tpc_run es 0 tpc_start = (peak, w)"
  shows "tpc_inv peak w"
proof -
  have "tpc_inv peak0 w0 \<Longrightarrow> tpc_run es peak0 w0 = (peak, w) \<Longrightarrow> tpc_inv peak w" for es :: "'a tpc_event list" and peak0 w0
    by (induction es arbitrary: peak0 w0) (auto simp: Let_def dest: tpc_step_inv)
  moreover have "tpc_inv 0 tpc_start" by (simp add: tpc_inv_def tpc_start_def tpc_holding_def map_filter_def)
  ultimately show ?thesis using assms by blast
qed

section \<open>Start-up\<close>

text \<open>
  The arguments of \<open>echo.rs\<close>; \<open>echo_tpc.rs\<close> skips the second. Neither has a mode.
\<close>

definition echo_args :: "(string \<Rightarrow> 'a option) \<Rightarrow> nat \<Rightarrow> string list \<Rightarrow> 'e io_error + 'a \<times> nat \<times> nat" where
  "echo_args parse_addr parallelism args =
     (let (a, args1) = next_arg args
      in case parse_addr (case a of Some s \<Rightarrow> s | None \<Rightarrow> ''0.0.0.0:7000'') of
           None \<Rightarrow> Inl (InvalidInput ''bad address'')
         | Some addr \<Rightarrow>
             (let (c, args2) = next_arg args1
              in case usize_arg 1024 c of
                   Inl e \<Rightarrow> Inl e
                 | Inr cap \<Rightarrow>
                     (case usize_arg parallelism (fst (next_arg args2)) of
                        Inl e \<Rightarrow> Inl e
                      | Inr workers \<Rightarrow> Inr (addr, cap, workers))))"

definition tpc_args :: "(string \<Rightarrow> 'a option) \<Rightarrow> nat \<Rightarrow> string list \<Rightarrow> 'e io_error + 'a \<times> nat" where
  "tpc_args parse_addr parallelism args =
     (let (a, args1) = next_arg args
      in case parse_addr (case a of Some s \<Rightarrow> s | None \<Rightarrow> ''0.0.0.0:7000'') of
           None \<Rightarrow> Inl (InvalidInput ''bad address'')
         | Some addr \<Rightarrow>
             (let (c, args2) = next_arg args1
              in case usize_arg parallelism (fst (next_arg args2)) of
                   Inl e \<Rightarrow> Inl e
                 | Inr workers \<Rightarrow> Inr (addr, workers)))"

text \<open>\<open>bound\<close> is what binding, or asking for the local address after it, returns.\<close>

definition tokio_echo_main ::
  "(string \<Rightarrow> 'a option) \<Rightarrow> nat \<Rightarrow> (nat \<Rightarrow> bool) \<Rightarrow> 'e option \<Rightarrow> ('e, 'k) world \<Rightarrow> string list
   \<Rightarrow> 'e main_end \<times> nat option \<times> 'k list" where
  "tokio_echo_main parse_addr parallelism threads_ok bound w args =
     (case echo_args parse_addr parallelism args of
        Inl e \<Rightarrow> (MainErr e, None, [])
      | Inr (addr, cap, workers) \<Rightarrow>
          if \<not> threads_ok workers then (MainPanics, None, [])
          else
            (case build_rt w of
               Some e \<Rightarrow> (MainErr (Os e), None, [])
             | None \<Rightarrow>
                 (let n = max (saturating_mul cap workers) 1
                  in case build_pool w n of
                       Some msg \<Rightarrow> (MainErr (Other (''pool build: '' @ msg)), None, [])
                     | None \<Rightarrow>
                         (case bound of
                            Some e \<Rightarrow> (MainErr (Os e), Some n, [])
                          | None \<Rightarrow> (MainWaits, Some n, accept_on (accepts w))))))"

text \<open>A worker of \<open>echo_tpc.rs\<close>: no pool to build, and the listener as in the other servers.\<close>

definition tpc_worker :: "nat list \<Rightarrow> socket_addr \<Rightarrow> nat \<Rightarrow> ('e, 'k) world \<Rightarrow> ('e, 'k) worker_run" where
  "tpc_worker cores addr i w =
     (let start = \<lparr>pinned_to = worker_core cores i, pool_max = None, served = [], ended = Serving\<rparr>
      in case build_rt w of
           Some e \<Rightarrow> start\<lparr>ended := Stopped (Os e)\<rparr>
         | None \<Rightarrow>
             (case reuseport_listener (sockets w) addr of
                Inl (e, made) \<Rightarrow> start\<lparr>ended := Stopped (Os e)\<rparr>
              | Inr made \<Rightarrow>
                  (case from_std w of
                     Some e \<Rightarrow> start\<lparr>ended := Stopped (Os e)\<rparr>
                   | None \<Rightarrow> serve_loop (accepts w) start)))"

definition tpc_main ::
  "(string \<Rightarrow> socket_addr option) \<Rightarrow> nat \<Rightarrow> (nat \<Rightarrow> bool) option \<Rightarrow> (nat \<Rightarrow> ('e, 'k) world) \<Rightarrow> string list
   \<Rightarrow> 'e main_end \<times> ('e, 'k) worker_run list" where
  "tpc_main parse_addr parallelism affinity worlds args =
     (case tpc_args parse_addr parallelism args of
        Inl e \<Rightarrow> (MainErr e, [])
      | Inr (addr, workers) \<Rightarrow>
          (let ws = map (\<lambda>i. tpc_worker (proxy_core_ids affinity parallelism) addr i (worlds i)) [0..<workers]
           in (join_all ws, ws)))"

text \<open>An accept error ends the worker it happens in, with all later connections.\<close>

lemma tpc_worker_stops_at_error:
  assumes "accepts w = map Inr ks @ Inl e # as" "build_rt w = None" "from_std w = None"
    "reuseport_listener (sockets w) addr = Inr made"
  shows "served (tpc_worker cores addr i w) = ks \<and> ended (tpc_worker cores addr i w) = Stopped (Os e)"
proof -
  have "accept_loop (map Inr ks @ Inl e # as) = (ks, Some e)" by (induction ks) simp_all
  with assms show ?thesis by (simp add: tpc_worker_def serve_loop_def)
qed

end
