(* ===== verification/Echo_Stats.thy ===== *)
theory Echo_Stats
  imports Echo
begin

text \<open>
  The tokio echo server, \<open>src/crates/deadpool-baseline/examples/echo.rs\<close>: \<open>serve\<close> with the counters of
  \<open>Stats\<close>, and the accept loop of \<open>main\<close>. The runtime is multi-threaded, so every operation on an atomic
  is a step of its own and the steps of different connections interleave in any order. What the pool, the
  peer and \<open>accept\<close> answer comes with the step. The counters are 64-bit words that wrap, as
  \<open>fetch_add\<close> and \<open>fetch_sub\<close> do.
\<close>

section \<open>The handler\<close>

record stats =
  st_active :: u64
  st_accepted :: u64
  st_completed :: u64
  st_errors :: u64

definition stats_default :: stats where
  "stats_default = \<lparr>st_active = 0, st_accepted = 0, st_completed = 0, st_errors = 0\<rparr>"

text \<open>
  The inner \<open>loop\<close>: what was echoed, and whether it returned \<open>Ok\<close>. A turn is what the read returns and
  whether \<open>write_all\<close> goes through; when the script ends the peer has closed.
\<close>

fun echo_loop :: "('e chunk \<times> bool) list \<Rightarrow> string list \<times> bool" where
  "echo_loop [] = ([], True)"
| "echo_loop ((ReadFailed e, write_ok) # turns) = ([], False)"
| "echo_loop ((Data bs, write_ok) # turns) =
     (if bs = [] then ([], True)
      else if \<not> write_ok then ([], False)
      else (let (out, ok) = echo_loop turns in (bs # out, ok)))"

text \<open>
  Where \<open>serve\<close> is. \<open>Finishing\<close> and the two after it remember whether \<open>errors\<close> was counted for this
  connection, \<open>Leaving\<close> and \<open>Gone\<close> whether \<open>completed\<close> was.
\<close>

datatype phase =
    Spawned
  | Leasing
  | Refused
  | Echoing
  | Failed
  | Finishing bool
  | Leaving bool bool
  | Gone bool bool

record echo_conn =
  phase :: phase
  echoed :: "string list"

datatype 'e answer = Tick | Lease bool | Peer "('e chunk \<times> bool) list"

definition serve_step :: "'e answer \<Rightarrow> stats \<Rightarrow> echo_conn \<Rightarrow> stats \<times> echo_conn" where
  "serve_step a s c =
     (case phase c of
        Spawned \<Rightarrow> (s\<lparr>st_active := st_active s + 1\<rparr>, c\<lparr>phase := Leasing\<rparr>)
      | Leasing \<Rightarrow>
          (case a of
             Lease ok \<Rightarrow> (s, c\<lparr>phase := if ok then Echoing else Refused\<rparr>)
           | _ \<Rightarrow> (s, c))
      | Refused \<Rightarrow> (s\<lparr>st_errors := st_errors s + 1\<rparr>, c\<lparr>phase := Leaving False True\<rparr>)
      | Echoing \<Rightarrow>
          (case a of
             Peer turns \<Rightarrow>
               (let (out, ok) = echo_loop turns
                in (s, c\<lparr>phase := if ok then Finishing False else Failed, echoed := out\<rparr>))
           | _ \<Rightarrow> (s, c))
      | Failed \<Rightarrow> (s\<lparr>st_errors := st_errors s + 1\<rparr>, c\<lparr>phase := Finishing True\<rparr>)
      | Finishing err \<Rightarrow> (s\<lparr>st_completed := st_completed s + 1\<rparr>, c\<lparr>phase := Leaving True err\<rparr>)
      | Leaving completed err \<Rightarrow> (s\<lparr>st_active := st_active s - 1\<rparr>, c\<lparr>phase := Gone completed err\<rparr>)
      | Gone completed err \<Rightarrow> (s, c))"

section \<open>The server\<close>

datatype acceptor = Accepting | Spawning

record echo_server =
  acceptor :: acceptor
  counters :: stats
  conns :: "echo_conn list"

definition server_start :: echo_server where
  "server_start = \<lparr>acceptor = Accepting, counters = stats_default, conns = []\<rparr>"

datatype 'e echo_event = Acceptor bool | Run nat "'e answer"

text \<open>The body of the accept loop up to the count, and the spawn after it.\<close>

definition acceptor_step :: "bool \<Rightarrow> echo_server \<Rightarrow> echo_server" where
  "acceptor_step ok sv =
     (case acceptor sv of
        Accepting \<Rightarrow>
          if ok then sv\<lparr>acceptor := Spawning, counters := (counters sv)\<lparr>st_accepted := st_accepted (counters sv) + 1\<rparr>\<rparr>
          else sv\<lparr>counters := (counters sv)\<lparr>st_errors := st_errors (counters sv) + 1\<rparr>\<rparr>
      | Spawning \<Rightarrow> sv\<lparr>acceptor := Accepting, conns := conns sv @ [\<lparr>phase = Spawned, echoed = []\<rparr>]\<rparr>)"

fun server_step :: "'e echo_event \<Rightarrow> echo_server \<Rightarrow> echo_server" where
  "server_step (Acceptor ok) sv = acceptor_step ok sv"
| "server_step (Run i a) sv =
     (if i < length (conns sv)
      then (let (s, c) = serve_step a (counters sv) (conns sv ! i)
            in sv\<lparr>counters := s, conns := (conns sv)[i := c]\<rparr>)
      else sv)"

fun server_run :: "'e echo_event list \<Rightarrow> echo_server \<Rightarrow> echo_server" where
  "server_run [] sv = sv"
| "server_run (e # es) sv = server_run es (server_step e sv)"

text \<open>The accepts of a run that failed.\<close>

fun accept_failed :: "'e echo_event \<Rightarrow> echo_server \<Rightarrow> bool" where
  "accept_failed (Acceptor ok) sv \<longleftrightarrow> acceptor sv = Accepting \<and> \<not> ok"
| "accept_failed (Run i a) sv \<longleftrightarrow> False"

fun accept_failures :: "'e echo_event list \<Rightarrow> echo_server \<Rightarrow> nat" where
  "accept_failures [] sv = 0"
| "accept_failures (e # es) sv = (if accept_failed e sv then 1 else 0) + accept_failures es (server_step e sv)"

section \<open>What the counters count\<close>

fun in_flight :: "phase \<Rightarrow> bool" where
  "in_flight Spawned \<longleftrightarrow> False"
| "in_flight (Gone completed err) \<longleftrightarrow> False"
| "in_flight p \<longleftrightarrow> True"

fun counted_completed :: "phase \<Rightarrow> bool" where
  "counted_completed (Leaving completed err) \<longleftrightarrow> completed"
| "counted_completed (Gone completed err) \<longleftrightarrow> completed"
| "counted_completed p \<longleftrightarrow> False"

fun counted_error :: "phase \<Rightarrow> bool" where
  "counted_error (Finishing err) \<longleftrightarrow> err"
| "counted_error (Leaving completed err) \<longleftrightarrow> err"
| "counted_error (Gone completed err) \<longleftrightarrow> err"
| "counted_error p \<longleftrightarrow> False"

definition gone :: "phase \<Rightarrow> bool" where
  "gone p \<longleftrightarrow> (case p of Gone completed err \<Rightarrow> True | _ \<Rightarrow> False)"

definition tally :: "(phase \<Rightarrow> bool) \<Rightarrow> echo_conn list \<Rightarrow> nat" where
  "tally P cs = length (filter (\<lambda>c. P (phase c)) cs)"

definition accounted :: "nat \<Rightarrow> echo_server \<Rightarrow> bool" where
  "accounted failures sv \<longleftrightarrow>
     st_active (counters sv) = of_nat (tally in_flight (conns sv)) \<and>
     st_accepted (counters sv) = of_nat (length (conns sv) + (if acceptor sv = Spawning then 1 else 0)) \<and>
     st_completed (counters sv) = of_nat (tally counted_completed (conns sv)) \<and>
     st_errors (counters sv) = of_nat (failures + tally counted_error (conns sv))"

lemma tally_simps [simp]:
  "tally P [] = 0"
  "tally P (cs @ [c]) = tally P cs + (if P (phase c) then 1 else 0)"
  by (simp_all add: tally_def)

lemma tally_update:
  "i < length cs \<Longrightarrow>
   of_nat (tally P (cs[i := c])) =
     (of_nat (tally P cs) + (if P (phase c) then 1 else 0) - (if P (phase (cs ! i)) then 1 else 0) :: u64)"
proof (induction cs arbitrary: i)
  case (Cons x cs)
  then show ?case by (cases i) (auto simp: tally_def)
qed simp

lemma accounted_acceptor:
  "accounted k sv \<Longrightarrow> accounted (k + (if acceptor sv = Accepting \<and> \<not> ok then 1 else 0)) (acceptor_step ok sv)"
  by (cases "acceptor sv") (auto simp: accounted_def acceptor_step_def)

lemma accounted_serve:
  assumes "accounted k sv" and "i < length (conns sv)"
  shows "accounted k (server_step (Run i a) sv)"
  using assms
  by (cases "phase (conns sv ! i)")
    (auto simp: accounted_def serve_step_def tally_update split: answer.split prod.split)

lemma accounted_step: "accounted k sv \<Longrightarrow> accounted (k + (if accept_failed e sv then 1 else 0)) (server_step e sv)"
proof (cases e)
  case (Run i a)
  moreover assume "accounted k sv"
  ultimately show ?thesis using accounted_serve [of k sv i a] by (cases "i < length (conns sv)") simp_all
qed (use accounted_acceptor in auto)

lemma accounted_run: "accounted k sv \<Longrightarrow> accounted (k + accept_failures es sv) (server_run es sv)"
proof (induction es arbitrary: k sv)
  case (Cons e es)
  from Cons.IH [OF accounted_step [OF Cons.prems, of e]] show ?case by (simp add: add.assoc)
qed simp

lemma accounted_start: "accounted 0 server_start"
  by (simp add: accounted_def server_start_def stats_default_def)

lemma drained_tallies:
  assumes "list_all (\<lambda>c. gone (phase c)) cs"
  shows "tally in_flight cs = 0" "length cs = tally counted_completed cs + tally (\<lambda>p. \<not> counted_completed p) cs"
proof -
  have "\<not> in_flight p" if "gone p" for p using that by (cases p) (auto simp: gone_def)
  then show "tally in_flight cs = 0" using assms by (auto simp: tally_def list_all_iff)
  show "length cs = tally counted_completed cs + tally (\<lambda>p. \<not> counted_completed p) cs"
    by (simp add: tally_def sum_length_filter_compl)
qed


definition two_echo_clients :: "nat echo_event list" where
  "two_echo_clients =
     [Acceptor True, Acceptor True, Acceptor False, Acceptor True, Acceptor True,
      Run 0 Tick, Run 1 Tick, Run 1 (Lease False), Run 0 (Lease True), Run 1 Tick,
      Run 0 (Peer [(Data ''hi'', True), (ReadFailed 104, True)]), Run 0 Tick, Run 0 Tick, Run 1 Tick, Run 0 Tick]"


section \<open>The echo and its end\<close>

text \<open>The tokio loop sends back what the compio one does, turn for turn.\<close>

lemma echo_loop_agrees: "fst (echo_loop turns) = fst (echo_serve turns lease)"
proof (induction turns arbitrary: lease rule: echo_loop.induct)
  case (3 bs write_ok turns)
  then show ?case by (auto simp: Let_def split: prod.splits) (metis fst_conv)+
qed simp_all

text \<open>Once the pool has answered and the peer has closed, \<open>serve\<close> is over in at most four more steps.\<close>

fun conn_run :: "'e answer list \<Rightarrow> stats \<Rightarrow> echo_conn \<Rightarrow> stats \<times> echo_conn" where
  "conn_run [] s c = (s, c)"
| "conn_run (a # as) s c = (let (s1, c1) = serve_step a s c in conn_run as s1 c1)"

lemma serve_ends:
  "phase (snd (conn_run [Tick, Lease ok, Peer turns, Tick, Tick, Tick] s \<lparr>phase = Spawned, echoed = []\<rparr>)) =
     (if ok then Gone True (\<not> snd (echo_loop turns)) else Gone False True)"
  by (auto simp: serve_step_def split: prod.splits)

end
