(* ===== verification/Example_Start.thy ===== *)
theory Example_Start
  imports Tokio_Start Workers Builder Echo
begin

text \<open>
  How the servers under \<open>src/examples\<close> start and accept: \<open>main\<close> of \<open>echo.rs\<close>, \<open>tcp_pool.rs\<close> and
  \<open>file_server.rs\<close>, which run on \<open>PerCore\<close>; of \<open>wal.rs\<close> and \<open>udp_echo.rs\<close>, which start their threads
  themselves; and of \<open>task_echo.rs\<close>, \<open>unix_echo.rs\<close>, \<open>http_proxy.rs\<close> and \<open>scatter_gather.rs\<close>, which run on
  one thread, and \<open>fanout_requests.rs\<close> with its backend; with the datagram loop of \<open>udp_echo.rs\<close>. A thread
  that is still in its loop is \<open>Returned (StillServing x)\<close>, \<open>x\<close> what it has done so far: it has not
  ended, and a \<open>join\<close> waits for it.
\<close>

section \<open>Arguments and pools\<close>

definition nth_arg :: "nat \<Rightarrow> string list \<Rightarrow> string option" where
  "nth_arg n args = (if n < length args then Some (args ! n) else None)"

definition parse_u32 :: "string \<Rightarrow> u32 option" where
  "parse_u32 s =
     (case parse_usize s of
        None \<Rightarrow> None
      | Some n \<Rightarrow> if n < 2 ^ 32 then Some (of_nat n) else None)"

text \<open>\<open>.nth(n).and_then(|s| s.parse().ok())\<close>: what does not parse counts as absent.\<close>

definition arg :: "(string \<Rightarrow> 'a option) \<Rightarrow> nat \<Rightarrow> string list \<Rightarrow> 'a option" where
  "arg parse n args = (case nth_arg n args of None \<Rightarrow> None | Some s \<Rightarrow> parse s)"

definition addr_arg :: "(string \<Rightarrow> 'a option) \<Rightarrow> string \<Rightarrow> string \<Rightarrow> string list \<Rightarrow> 'e io_error + 'a" where
  "addr_arg parse_addr fallback what args =
     (case parse_addr (unwrap_or (nth_arg 1 args) fallback) of
        None \<Rightarrow> Inl (InvalidInput what)
      | Some addr \<Rightarrow> Inr addr)"

definition capacity_arg :: "u32 \<Rightarrow> string list \<Rightarrow> u32" where
  "capacity_arg fallback args = unwrap_or (arg parse_u32 2 args) fallback"

text \<open>\<open>Pool::builder().max_size(capacity).build(..).expect(..)\<close>: \<open>None\<close> is the panic.\<close>

definition sized_pool :: "u32 \<Rightarrow> pool_config option" where
  "sized_pool cap = (case build (set_max_size cap builder_new) of Inl e \<Rightarrow> None | Inr cfg \<Rightarrow> Some cfg)"

section \<open>Workers\<close>

record ('e, 'x) place =
  rt_fails :: bool
  place_os :: "'e os"
  wrap_fails :: bool
  arrivals :: "'x list"

datatype 'r unending = StillServing 'r

text \<open>A bound socket wrapped in the ring and served; failing to bind or wrap panics.\<close>

definition listen_and_serve :: "('e \<times> socket_call list) + socket_call list \<Rightarrow> bool \<Rightarrow> 'r \<Rightarrow> 'r unending outcome" where
  "listen_and_serve bound unwrapped r =
     (case bound of
        Inl x \<Rightarrow> Panicked
      | Inr made \<Rightarrow> if unwrapped then Panicked else Returned (StillServing r))"

definition tcp_body :: "bool \<Rightarrow> socket_addr \<Rightarrow> ('e, 'e + 'k) place \<Rightarrow> 'k list unending outcome" where
  "tcp_body linux addr p =
     listen_and_serve (bind_reuseport (place_os p) linux addr 1024 None) (wrap_fails p) (accept_on (arrivals p))"

definition bind_reuseport_udp :: "'e os \<Rightarrow> socket_addr \<Rightarrow> ('e \<times> socket_call list) + socket_call list" where
  "bind_reuseport_udp os addr =
     and_then (try_call os (NewDatagramSocket (for_address addr)) [])
       (\<lambda>made. and_then (try_call os (SetReuseAddress True) made)
         (\<lambda>made. and_then (try_call os (SetReusePort True) made)
           (\<lambda>made. try_call os (Bind addr) made)))"

definition datagram_connect :: buffer where
  "datagram_connect = \<lparr>room = 64 * 1024, filled = []\<rparr>"

text \<open>
  A turn of the datagram loop is the buffer leased, if any, and what \<open>recv_from\<close> returns: a datagram
  fills the buffer as far as it has room. The result is what was sent and the buffers given back.
\<close>

fun udp_loop :: "(buffer option \<times> ('e + string \<times> 'p)) list \<Rightarrow> (string \<times> 'p) list \<times> buffer list" where
  "udp_loop [] = ([], [])"
| "udp_loop ((None, r) # turns) = udp_loop turns"
| "udp_loop ((Some lease, Inl e) # turns) =
     (let (sent, back) = udp_loop turns in (sent, lease\<lparr>filled := []\<rparr> # back))"
| "udp_loop ((Some lease, Inr (datagram, peer)) # turns) =
     (let got = take (room lease) datagram;
          (sent, back) = udp_loop turns
      in ((got, peer) # sent, lease\<lparr>filled := got\<rparr> # back))"

definition udp_body ::
  "socket_addr \<Rightarrow> ('e, buffer option \<times> ('e + string \<times> 'p)) place \<Rightarrow> ((string \<times> 'p) list \<times> buffer list) unending outcome" where
  "udp_body addr p =
     listen_and_serve (bind_reuseport_udp (place_os p) addr) (wrap_fails p) (udp_loop (arrivals p))"

section \<open>One worker per core\<close>

text \<open>\<open>join\<close> on every handle, whose results are dropped: it comes back once every worker has died.\<close>

definition joined :: "'t handle list \<Rightarrow> 'e main_end" where
  "joined ws = (if list_all (\<lambda>w. case hd_outcome w of Panicked \<Rightarrow> True | Returned r \<Rightarrow> False) ws then MainOk else MainWaits)"

fun spawn_io_error :: "'e spawn_error \<Rightarrow> 'e io_error" where
  "spawn_io_error NoCores = Unsupported ''no cores to run on''"
| "spawn_io_error (SpawnFailed e) = Os e"

record 'e machine =
  machine_cores :: "core_id list option"
  pins :: "core_id \<Rightarrow> bool"
  spawns :: "nat \<Rightarrow> 'e option"

definition percore_main ::
  "string \<Rightarrow> u32 \<Rightarrow> (string \<Rightarrow> socket_addr option) \<Rightarrow> 'e machine \<Rightarrow> (nat \<Rightarrow> bool) \<Rightarrow> (socket_addr \<Rightarrow> nat \<Rightarrow> 't unending outcome)
   \<Rightarrow> string list \<Rightarrow> 'e main_end \<times> 't unending handle list" where
  "percore_main nm fallback parse_addr m rt_down body args =
     (case addr_arg parse_addr ''0.0.0.0:7000'' ''bad address'' args of
        Inl e \<Rightarrow> (MainErr e, [])
      | Inr addr \<Rightarrow>
          (case sized_pool (capacity_arg fallback args) of
             None \<Rightarrow> (MainPanics, [])
           | Some cfg \<Rightarrow>
               (case block_on_each (spawns m) (pins m) (\<lambda>(p :: unit option) i. if rt_down i then None else Some ())
                       (\<lambda>rt fut. fut) (set_name nm (per_core_new (cores (machine_cores m)))) (\<lambda>ctx. body addr (w_index ctx)) of
                  Inl (e, ws) \<Rightarrow> (MainErr (spawn_io_error e), ws)
                | Inr ws \<Rightarrow> (joined ws, ws))))"

definition echo_main where
  "echo_main parse_addr m linux places =
     percore_main ''echo'' 1024 parse_addr m (\<lambda>i. rt_fails (places i)) (\<lambda>addr i. tcp_body linux addr (places i))"

definition tcp_pool_main where
  "tcp_pool_main parse_addr m linux places =
     percore_main ''tcp_pool'' 64 parse_addr m (\<lambda>i. rt_fails (places i)) (\<lambda>addr i. tcp_body linux addr (places i))"

definition file_server_main where
  "file_server_main parse_addr m linux places =
     percore_main ''file_server'' 1024 parse_addr m (\<lambda>i. rt_fails (places i)) (\<lambda>addr i. tcp_body linux addr (places i))"

text \<open>
  \<open>worker\<close> of \<open>wal.rs\<close> and \<open>udp_echo.rs\<close>: pinned first, then a runtime that is expected to build. Their
  \<open>main\<close> checks for cores itself; \<open>wal.rs\<close> makes its directory first, and \<open>dir_err\<close> is that call's error.
\<close>

definition thread_worker :: "bool \<Rightarrow> 't unending outcome \<Rightarrow> 't unending outcome" where
  "thread_worker rt_down looping = (if rt_down then Panicked else looping)"

definition threads_main ::
  "'e option \<Rightarrow> (string \<Rightarrow> socket_addr option) \<Rightarrow> 'e machine \<Rightarrow> (nat \<Rightarrow> bool) \<Rightarrow> (socket_addr \<Rightarrow> nat \<Rightarrow> 't unending outcome)
   \<Rightarrow> string list \<Rightarrow> 'e main_end \<times> 't unending handle list" where
  "threads_main dir_err parse_addr m rt_down body args =
     (case addr_arg parse_addr ''0.0.0.0:7000'' ''bad address'' args of
        Inl e \<Rightarrow> (MainErr e, [])
      | Inr addr \<Rightarrow>
          (case dir_err of
             Some e \<Rightarrow> (MainErr (Os e), [])
           | None \<Rightarrow>
               (case sized_pool (capacity_arg 1024 args) of
                  None \<Rightarrow> (MainPanics, [])
                | Some cfg \<Rightarrow>
                    (let cs = cores (machine_cores m)
                     in if cs = [] then (MainErr (Unsupported ''no cores to run on''), [])
                        else
                          (case spawn_loop (spawns m) (pins m)
                                  (\<lambda>ctx. thread_worker (rt_down (w_index ctx)) (body addr (w_index ctx))) ''worker'' 0 cs [] of
                             Inl (e, ws) \<Rightarrow> (MainErr (spawn_io_error e), ws)
                           | Inr ws \<Rightarrow> (joined ws, ws))))))"

definition wal_example_main where
  "wal_example_main dir_err parse_addr m linux places =
     threads_main dir_err parse_addr m (\<lambda>i. rt_fails (places i)) (\<lambda>addr i. tcp_body linux addr (places i))"

definition udp_echo_main where
  "udp_echo_main parse_addr m places =
     threads_main None parse_addr m (\<lambda>i. rt_fails (places i)) (\<lambda>addr i. udp_body addr (places i))"

section \<open>One thread\<close>

text \<open>
  A bind, and an accept loop that goes on; the first result is what \<open>main\<close> comes to, the second the
  connections a handler was spawned for.
\<close>

definition bind_and_accept :: "'e option \<Rightarrow> ('e + 'k) list \<Rightarrow> 'e main_end \<times> 'k list" where
  "bind_and_accept bind_err conns =
     (case bind_err of Some e \<Rightarrow> (MainErr (Os e), []) | None \<Rightarrow> (MainWaits, accept_on conns))"

definition task_echo_main ::
  "(string \<Rightarrow> 'a option) \<Rightarrow> bool \<Rightarrow> 'e option \<Rightarrow> ('e + 'k) list \<Rightarrow> string list \<Rightarrow> 'e main_end \<times> 'k list" where
  "task_echo_main parse_addr rt_down bind_err conns args =
     (case addr_arg parse_addr ''127.0.0.1:7000'' ''bad address'' args of
        Inl e \<Rightarrow> (MainErr e, [])
      | Inr addr \<Rightarrow>
          (case sized_pool (capacity_arg 1024 args) of
             None \<Rightarrow> (MainPanics, [])
           | Some cfg \<Rightarrow> if rt_down then (MainPanics, []) else bind_and_accept bind_err conns))"

text \<open>
  \<open>unix_echo.rs\<close> takes any path, removes what is there and ignores whether it could; the paths in use are
  a set, and \<open>bind\<close> says whether binding one fails while they are. It pins itself to the first permitted core.
\<close>

definition unix_echo_main ::
  "core_id list option \<Rightarrow> (string \<Rightarrow> bool) \<Rightarrow> (string set \<Rightarrow> string \<Rightarrow> 'e option) \<Rightarrow> string set \<Rightarrow> bool \<Rightarrow> ('e + 'k) list
   \<Rightarrow> string list \<Rightarrow> 'e main_end \<times> 'k list \<times> core_id option" where
  "unix_echo_main ids removable bind files rt_down conns args =
     (let path = unwrap_or (nth_arg 1 args) ''/tmp/compio-pool-echo.sock'';
          files1 = (if removable path then files - {path} else files)
      in case sized_pool (capacity_arg 1024 args) of
           None \<Rightarrow> (MainPanics, [], None)
         | Some cfg \<Rightarrow>
             (let pinned = (case cores ids of [] \<Rightarrow> None | c # cs \<Rightarrow> Some c)
              in if rt_down then (MainPanics, [], pinned)
                 else (let (r, ks) = bind_and_accept (bind files1 path) conns
                       in (r, ks, pinned))))"

text \<open>
  \<open>http_proxy.rs\<close>: the origin named by \<open>ORIGIN\<close>, or one of its own whose listener may fail to bind or to
  name its address.
\<close>

definition origin_addr :: "(string \<Rightarrow> 'a option) \<Rightarrow> string option \<Rightarrow> 'e + 'a \<Rightarrow> 'e io_error + 'a \<times> bool" where
  "origin_addr parse_addr var own =
     (case var of
        Some s \<Rightarrow> (case parse_addr s of None \<Rightarrow> Inl (InvalidInput ''bad ORIGIN'') | Some a \<Rightarrow> Inr (a, False))
      | None \<Rightarrow> (case own of Inl e \<Rightarrow> Inl (Os e) | Inr a \<Rightarrow> Inr (a, True)))"

definition http_proxy_main ::
  "(string \<Rightarrow> 'a option) \<Rightarrow> bool \<Rightarrow> string option \<Rightarrow> 'e + 'a \<Rightarrow> 'e option \<Rightarrow> ('e + 'k) list \<Rightarrow> string list
   \<Rightarrow> 'e main_end \<times> 'k list" where
  "http_proxy_main parse_addr rt_down var own bind_err conns args =
     (case addr_arg parse_addr ''127.0.0.1:8080'' ''bad listen addr'' args of
        Inl e \<Rightarrow> (MainErr e, [])
      | Inr listen \<Rightarrow>
          if rt_down then (MainPanics, [])
          else (case origin_addr parse_addr var own of
                  Inl e \<Rightarrow> (MainErr e, [])
                | Inr (origin, built_in) \<Rightarrow>
                    (case sized_pool (capacity_arg 16 args) of
                       None \<Rightarrow> (MainPanics, [])
                     | Some cfg \<Rightarrow> bind_and_accept bind_err conns)))"

text \<open>The built-in origin numbers its connections from the counter on.\<close>

fun origin_loop :: "('e + 'k) list \<Rightarrow> u64 \<Rightarrow> (u64 \<times> 'k) list" where
  "origin_loop [] n = []"
| "origin_loop (Inl e # as) n = origin_loop as n"
| "origin_loop (Inr k # as) n = (n, k) # origin_loop as (n + 1)"

text \<open>
  \<open>scatter_gather.rs\<close>: per shard a listener of its own, a backend on it and a pool; the first that fails
  ends \<open>main\<close>.
\<close>

fun start_shards :: "u32 \<Rightarrow> ('e + 'a) list \<Rightarrow> ('a \<times> pool_config) list \<Rightarrow> 'e main_end + ('a \<times> pool_config) list" where
  "start_shards cap [] pools = Inr pools"
| "start_shards cap (own # owns) pools =
     (case own of
        Inl e \<Rightarrow> Inl (MainErr (Os e))
      | Inr a \<Rightarrow>
          (case sized_pool cap of
             None \<Rightarrow> Inl MainPanics
           | Some cfg \<Rightarrow> start_shards cap owns (pools @ [(a, cfg)])))"

definition scatter_gather_main ::
  "(string \<Rightarrow> 'a option) \<Rightarrow> bool \<Rightarrow> (nat \<Rightarrow> 'e + 'a) \<Rightarrow> 'e option \<Rightarrow> ('e + 'k) list \<Rightarrow> string list
   \<Rightarrow> 'e main_end \<times> 'k list" where
  "scatter_gather_main parse_addr rt_down own bind_err conns args =
     (case addr_arg parse_addr ''127.0.0.1:9000'' ''bad listen addr'' args of
        Inl e \<Rightarrow> (MainErr e, [])
      | Inr listen \<Rightarrow>
          (let shard_count = unwrap_or (arg parse_usize 2 args) 4;
               capacity = unwrap_or (arg parse_u32 3 args) 8
           in if rt_down then (MainPanics, [])
              else (case start_shards capacity (map own [0..<shard_count]) [] of
                      Inl r \<Rightarrow> (r, [])
                    | Inr pools \<Rightarrow> bind_and_accept bind_err conns)))"

text \<open>
  \<open>fanout_requests.rs\<close> up to the tasks it spawns: what they are given, or what \<open>main\<close> comes to. \<open>own\<close> is the
  address its backend listens on, whose connections are served by \<open>backend_conn\<close>.
\<close>

record 'a fan_plan =
  plan_backend :: 'a
  plan_pool :: pool_config
  plan_requests :: nat
  plan_clients :: nat
  plan_size :: nat

definition fanout_requests_start :: "bool \<Rightarrow> 'e + 'a \<Rightarrow> string list \<Rightarrow> 'e main_end + 'a fan_plan" where
  "fanout_requests_start rt_down own args =
     (let requests = unwrap_or (arg parse_usize 1 args) 50000;
          capacity = unwrap_or (arg parse_u32 2 args) 8;
          clients = unwrap_or (arg parse_usize 3 args) 128;
          sz = unwrap_or (arg parse_usize 4 args) 256
      in if rt_down then Inl MainPanics
         else (case own of
                 Inl e \<Rightarrow> Inl (MainErr (Os e))
               | Inr a \<Rightarrow>
                   (case sized_pool capacity of
                      None \<Rightarrow> Inl MainPanics
                    | Some cfg \<Rightarrow>
                        Inr \<lparr>plan_backend = a, plan_pool = cfg, plan_requests = requests, plan_clients = clients, plan_size = sz\<rparr>)))"

fun backend_conn :: "('e chunk \<times> bool) list \<Rightarrow> string list" where
  "backend_conn [] = []"
| "backend_conn ((ReadFailed e, write_ok) # turns) = []"
| "backend_conn ((Data bs, write_ok) # turns) = (if bs = [] \<or> \<not> write_ok then [] else bs # backend_conn turns)"

text \<open>\<open>serve\<close> of \<open>task_echo.rs\<close> and \<open>unix_echo.rs\<close>, the lease included.\<close>

definition task_echo_serve :: "buffer option \<Rightarrow> ('e chunk \<times> bool) list \<Rightarrow> string list \<times> buffer option" where
  "task_echo_serve lease turns =
     (case lease of
        None \<Rightarrow> ([], None)
      | Some b \<Rightarrow> (let (out, b1) = echo_serve turns b in (out, Some b1)))"

definition unix_echo_serve :: "buffer option \<Rightarrow> ('e chunk \<times> bool) list \<Rightarrow> string list \<times> buffer option" where
  "unix_echo_serve lease turns =
     (case lease of
        None \<Rightarrow> ([], None)
      | Some b \<Rightarrow> (let (out, b1) = echo_serve turns b in (out, Some b1)))"

section \<open>Pools and cores\<close>

lemma sized_pool_iff: "sized_pool cap = None \<longleftrightarrow> cap = 0"
  by (simp add: sized_pool_def build_def set_max_size_def Let_def)

lemma sized_pool_zero [simp]: "sized_pool 0 = None"
  by (simp add: sized_pool_iff)

lemma sized_pool_max: "sized_pool cap = Some cfg \<Longrightarrow> valid_config cfg \<and> max_size cfg = cap"
  by (auto simp: sized_pool_def build_def set_max_size_def valid_config_def Let_def word_neq_0_conv split: if_splits)

lemma joined_ok: "joined (ws :: 't handle list) = MainOk \<longleftrightarrow> (\<forall>w \<in> set ws. hd_outcome w = Panicked)"
proof -
  have "(case h of Panicked \<Rightarrow> True | Returned r \<Rightarrow> False) \<longleftrightarrow> h = Panicked" for h :: "'t outcome" by (cases h) simp_all
  then show ?thesis by (simp add: joined_def list_all_iff)
qed

lemma joined_cases: "joined ws = MainOk \<or> joined ws = MainWaits"
  by (simp add: joined_def)


lemma percore_main_spawned:
  assumes "parse_addr (unwrap_or (nth_arg 1 args) ''0.0.0.0:7000'') = Some addr" and "capacity_arg fallback args \<noteq> 0"
    and "cores (machine_cores m) \<noteq> []" and "\<forall>i < length (cores (machine_cores m)). spawns m i = None"
  shows "percore_main nm fallback parse_addr m rt_down body args =
    (let ws = map (\<lambda>(i, c). \<lparr>hd_name = worker_name nm i, hd_outcome = if rt_down i then Panicked else body addr i\<rparr>)
           (enumerate 0 (cores (machine_cores m))) in (joined ws, ws))"
proof -
  obtain cfg where "sized_pool (capacity_arg fallback args) = Some cfg" using assms(2) sized_pool_iff by fastforce
  moreover have "block_on_each (spawns m) (pins m) (\<lambda>(p :: unit option) i. if rt_down i then None else Some ()) (\<lambda>rt fut. fut)
      (set_name nm (per_core_new (cores (machine_cores m)))) (\<lambda>ctx. body addr (w_index ctx)) =
    Inr (map (\<lambda>(i, c). \<lparr>hd_name = worker_name nm i, hd_outcome = if rt_down i then Panicked else body addr i\<rparr>)
      (enumerate 0 (cores (machine_cores m))))"
    using assms(3,4)
    by (auto simp: block_on_each_def spawn_each_def spawn_loop_ok workers_upto_def worker_main_def set_name_def per_core_new_def
        intro!: map_cong split: prod.split)
  ultimately show ?thesis using assms(1) by (simp add: percore_main_def addr_arg_def Let_def)
qed

text \<open>
  C24: Start-up of a per-core server. A zero capacity panics before any thread exists, and without a
  permitted core \<open>main\<close> returns an error. Otherwise, when every thread can be spawned, there is one worker per
  core, each serving unless its own runtime, listener or ring failed; a failure takes down that worker
  only. \<open>main\<close> then never reports one: it waits while any worker serves, and returns \<open>Ok\<close> exactly when all
  of them have died.
\<close>

theorem percore_example_start:
  fixes body :: "socket_addr \<Rightarrow> nat \<Rightarrow> 't unending outcome"
  assumes "parse_addr (unwrap_or (nth_arg 1 args) ''0.0.0.0:7000'') = Some addr"
  shows "let (r, ws) = percore_main nm fallback parse_addr m rt_down body args; n = length (cores (machine_cores m)) in
    (if capacity_arg fallback args = 0 then r = MainPanics \<and> ws = []
     else if n = 0 then r = MainErr (Unsupported ''no cores to run on'') \<and> ws = []
     else (\<forall>i < n. spawns m i = None) \<longrightarrow>
       length ws = n \<and> (\<forall>i < n. hd_outcome (ws ! i) = (if rt_down i then Panicked else body addr i)) \<and>
       r = (if \<forall>i < n. rt_down i \<or> body addr i = Panicked then MainOk else MainWaits))"
proof (cases "capacity_arg fallback args = 0 \<or> cores (machine_cores m) = []")
  case True
  have "\<exists>cfg. sized_pool cap = Some cfg" if "cap \<noteq> 0" for cap using that sized_pool_iff by fastforce
  with True assms show ?thesis
    by (cases "capacity_arg fallback args = 0")
      (fastforce simp: percore_main_def addr_arg_def block_on_each_def spawn_each_def set_name_def per_core_new_def)+
next
  case False
  let ?cs = "cores (machine_cores m)"
  let ?ws = "map (\<lambda>(i, c). \<lparr>hd_name = worker_name nm i, hd_outcome = if rt_down i then Panicked else body addr i\<rparr>) (enumerate 0 ?cs)"
  have nth: "hd_outcome (?ws ! i) = (if rt_down i then Panicked else body addr i)" if "i < length ?cs" for i
    using that by (simp add: nth_enumerate_eq)
  have "(\<forall>w \<in> set ?ws. hd_outcome w = Panicked) \<longleftrightarrow> (\<forall>i < length ?cs. rt_down i \<or> body addr i = Panicked)"
    unfolding all_set_conv_all_nth using nth by auto
  then have "joined ?ws = (if \<forall>i < length ?cs. rt_down i \<or> body addr i = Panicked then MainOk else MainWaits)"
    using joined_ok [of ?ws] joined_cases [of ?ws] by auto
  with percore_main_spawned [of parse_addr args addr fallback m nm rt_down body] assms False nth show ?thesis by (auto simp: Let_def)
qed

definition two_cores :: "nat machine" where
  "two_cores = \<lparr>machine_cores = Some [\<lparr>cid = 1\<rparr>, \<lparr>cid = 0\<rparr>], pins = (\<lambda>c. True), spawns = (\<lambda>i. None)\<rparr>"

text \<open>A port in use: every worker dies on its listener, and \<open>main\<close> returns \<open>Ok\<close>.\<close>

definition busy_port :: "(nat, nat + nat) place" where
  "busy_port = \<lparr>rt_fails = False, place_os = refuse_bind, wrap_fails = False, arrivals = []\<rparr>"

lemma busy_port_body: "tcp_body True (SocketV4 0 80) busy_port = Panicked"
  by (simp add: tcp_body_def busy_port_def listen_and_serve_def bind_reuseport_def try_call_def refuse_bind_def)

theorem percore_example_start_witness:
  "\<exists>ws. echo_main (\<lambda>s. Some (SocketV4 0 80)) two_cores True (\<lambda>i. busy_port) [''echo'', ''a''] = (MainOk, ws) \<and> length ws = 2"
proof -
  have cs: "cores (machine_cores two_cores) = [\<lparr>cid = 0\<rparr>, \<lparr>cid = 1\<rparr>]"
    by (simp add: two_cores_def cores_def)
  have sp: "spawns two_cores i = None" for i by (simp add: two_cores_def)
  have cap: "capacity_arg 1024 [''echo'', ''a''] = 1024"
    by (simp add: capacity_arg_def arg_def nth_arg_def unwrap_or_def)
  from percore_example_start [of "\<lambda>s. Some (SocketV4 0 80)" "[''echo'', ''a'']" "SocketV4 0 80" "''echo''" 1024 two_cores
      "\<lambda>i. rt_fails busy_port" "\<lambda>addr i. tcp_body True addr busy_port"]
  show ?thesis by (auto simp: echo_main_def cs cap sp busy_port_body)
qed

text \<open>A shard server with no shards builds no pool, so its capacity is never looked at.\<close>

lemma no_shards_any_capacity: "start_shards cap [] pools = Inr pools" "start_shards 0 (Inr a # owns) [] = Inl MainPanics"
  by simp_all

text \<open>The in-process backend echoes as the echo server does, whatever buffer that one leases.\<close>

lemma backend_conn_echoes: "backend_conn turns = fst (echo_serve turns lease)"
proof (induction turns arbitrary: lease rule: backend_conn.induct)
  case (3 bs write_ok turns)
  then have "bs \<noteq> [] \<Longrightarrow> write_ok \<Longrightarrow> backend_conn turns = fst (echo_serve turns (lease\<lparr>filled := bs\<rparr>))" by simp
  then show ?case by (cases "echo_serve turns (lease\<lparr>filled := bs\<rparr>)") (simp add: Let_def)
qed simp_all

text \<open>The plan's pool holds what was asked for.\<close>

lemma fanout_plan_pool:
  "fanout_requests_start rt_down own args = Inr plan \<Longrightarrow>
   valid_config (plan_pool plan) \<and> max_size (plan_pool plan) = unwrap_or (arg parse_u32 2 args) 8"
  by (auto simp: fanout_requests_start_def Let_def dest!: sized_pool_max split: if_splits sum.splits option.splits)

section \<open>Datagrams\<close>

text \<open>
  Every datagram received while a buffer was leased goes back to its sender, in order and whole as long
  as the buffer is one the manager made; buffers come back with their room.
\<close>

lemma udp_echoes:
  assumes "\<forall>(lease, r) \<in> set turns. \<forall>b. lease = Some b \<longrightarrow> room b = room datagram_connect"
    and "\<forall>(lease, r) \<in> set turns. \<forall>d p. r = Inr (d, p) \<longrightarrow> length d \<le> 65507"
  shows "udp_loop turns =
    (List.map_filter (\<lambda>(lease, r). case (lease, r) of (Some b, Inr dp) \<Rightarrow> Some dp | _ \<Rightarrow> None) turns, snd (udp_loop turns))
    \<and> (\<forall>b \<in> set (snd (udp_loop turns)). room b = room datagram_connect)"
  using assms
proof (induction turns rule: udp_loop.induct)
  case (4 lease datagram peer turns)
  then have "take (room lease) datagram = datagram" by (simp add: datagram_connect_def)
  with 4 show ?case by (auto simp: Let_def map_filter_simps split: prod.splits)
qed (auto simp: Let_def map_filter_simps split: prod.splits)

end
