(* ===== verification/Ownership.thy ===== *)
theory Ownership
  imports Leasing
begin

text \<open>
  Who holds a connection. The abstract specification of a \<open>LocalPool\<close> is a ledger: a stack of parked
  connections and the multiset of those held by calls and leases. A connection is parked on top, taken
  off the top, given up by its holder, or evicted from the stack; it only enters when a dial opens it.
  \<open>ident\<close> names a connection through the changes its holder makes to it. Every event of a thread, whatever
  the interleaving, is a sequence of ledger steps, so no connection is ever held twice, or held and
  parked at once.
\<close>

section \<open>The ledger\<close>

type_synonym 'i ledger = "'i list \<times> 'i multiset"

inductive ledger_step :: "'i ledger \<Rightarrow> 'i ledger \<Rightarrow> bool" where
  park: "ledger_step (xs, add_mset x M) (xs @ [x], M)"
| take_top: "ledger_step (xs @ [x], M) (xs, add_mset x M)"
| give_up: "ledger_step (xs, add_mset x M) (xs, M)"
| evict: "subseq ys xs \<Longrightarrow> ledger_step (xs, M) (ys, M)"

inductive_cases ledger_stepE: "ledger_step l l'"

abbreviation ledger_steps :: "'i ledger \<Rightarrow> 'i ledger \<Rightarrow> bool" where
  "ledger_steps \<equiv> ledger_step\<^sup>*\<^sup>*"

definition ledger_total :: "'i ledger \<Rightarrow> 'i multiset" where
  "ledger_total l = mset (fst l) + snd l"

lemma mset_subseq: "subseq ys xs \<Longrightarrow> mset ys \<subseteq># mset xs"
proof (induction rule: list_emb.induct)
  case (list_emb_Cons ys xs x)
  then show ?case by (simp add: subset_mset.order_trans)
qed auto

lemma ledger_step_total: "ledger_step l l' \<Longrightarrow> ledger_total l' \<subseteq># ledger_total l"
  by (erule ledger_stepE) (auto simp: ledger_total_def mset_subseq intro: mset_subset_eq_mono_add)

lemma ledger_steps_total: "ledger_steps l l' \<Longrightarrow> ledger_total l' \<subseteq># ledger_total l"
  by (induction rule: rtranclp_induct) (auto dest: ledger_step_total)

text \<open>What others hold takes no part in a step.\<close>

lemma ledger_step_frame: "ledger_step l l' \<Longrightarrow> ledger_step (fst l, snd l + F) (fst l', snd l' + F)"
  by (erule ledger_stepE) (auto intro: ledger_step.intros)

lemma ledger_steps_frame:
  assumes "ledger_steps (xs, M) (ys, N)"
  shows "ledger_steps (xs, M + F) (ys, N + F)"
proof -
  have "ledger_steps (fst l, snd l + F) (fst l', snd l' + F)" if "ledger_steps l l'" for l l' :: "'a ledger"
    using that by (induction rule: rtranclp_induct) (auto intro: rtranclp.rtrancl_into_rtrancl ledger_step_frame)
  from this [OF assms] show ?thesis by simp
qed

section \<open>What a thread holds\<close>

definition idle_ids :: "('c \<Rightarrow> 'i) \<Rightarrow> ('c, 'w) inner \<Rightarrow> 'i list" where
  "idle_ids ident s = map (\<lambda>c. ident (raw c)) (idle s)"

definition conn_ids :: "('c \<Rightarrow> 'i) \<Rightarrow> 'c conn option \<Rightarrow> 'i multiset" where
  "conn_ids ident x = (case x of Some c \<Rightarrow> {#ident (raw c)#} | None \<Rightarrow> {#})"

definition task_ids :: "('c \<Rightarrow> 'i) \<Rightarrow> ('c, 'e) task \<Rightarrow> 'i multiset" where
  "task_ids ident t = conn_ids ident (task_conn t)"

definition thread_ledger :: "('c \<Rightarrow> 'i) \<Rightarrow> ('c, 'e) thread \<Rightarrow> 'i ledger" where
  "thread_ledger ident th = (idle_ids ident (th_pool th), sum_list (map (task_ids ident) (th_tasks th)))"

text \<open>The connection a signal opens.\<close>

fun opened_by :: "('c \<Rightarrow> 'i) \<Rightarrow> ('c, 'e) signal \<Rightarrow> 'i list" where
  "opened_by ident (Connected r) = [ident r]"
| "opened_by ident sig = []"

fun opened_in :: "('c \<Rightarrow> 'i) \<Rightarrow> ('c, 'e) event \<Rightarrow> 'i list" where
  "opened_in ident (OnTask i t1 t2 sig) = opened_by ident sig"
| "opened_in ident e = []"

text \<open>Validation and use of a connection leave it the same connection.\<close>

definition same_conn :: "('c \<Rightarrow> 'i) \<Rightarrow> 'c manager" where
  "same_conn ident =
     \<lparr>opened = (\<lambda>r. True), checked = (\<lambda>c ok r. ident r = ident c), used = (\<lambda>c r. ident r = ident c)\<rparr>"

fun keeps_run :: "'c has_broken \<Rightarrow> ('c \<Rightarrow> 'i) \<Rightarrow> ('c, 'e) event list \<Rightarrow> ('c, 'e) thread \<Rightarrow> bool" where
  "keeps_run hb ident [] th \<longleftrightarrow> True"
| "keeps_run hb ident (e # es) th \<longleftrightarrow>
     event_fits (same_conn ident) e th \<and>
     (case thread_step hb e th of None \<Rightarrow> True | Some th' \<Rightarrow> keeps_run hb ident es th')"

lemma conn_ids_simps [simp]: "conn_ids ident None = {#}" "conn_ids ident (Some c) = {#ident (raw c)#}"
  by (simp_all add: conn_ids_def)

lemma idle_ids_same [simp]:
  "idle_ids ident (observe f s) = idle_ids ident s" "idle_ids ident (notify sh n s) = idle_ids ident s"
  "idle_ids ident (release_slots n s) = idle_ids ident s" "idle_ids ident (release_slot sh s) = idle_ids ident s"
  "idle_ids ident (note_expired reason s) = idle_ids ident s" "idle_ids ident (note_created s) = idle_ids ident s"
  "idle_ids ident (note_broken s) = idle_ids ident s" "idle_ids ident (note_closed_manual k s) = idle_ids ident s"
  "idle_ids ident (note_timed_out s) = idle_ids ident s" "idle_ids ident (record_acquire w a b s) = idle_ids ident s"
  "idle_ids ident (held_drop sh h s) = idle_ids ident s" "idle_ids ident (wait_ready_drop wr s) = idle_ids ident s"
  "idle_ids ident (take_slot s) = idle_ids ident s"
  by (simp_all add: idle_ids_def release_slots_def note_expired_def note_created_def note_broken_def
      note_closed_manual_def note_timed_out_def record_acquire_def held_drop_def wait_ready_drop_sel take_slot_def)

lemma idle_ids_push_idle [simp]: "idle_ids ident (push_idle c s) = idle_ids ident s @ [ident (raw c)]"
  by (simp add: idle_ids_def push_idle_def vec_push_def)

lemma task_ids_simps [simp]:
  "task_ids ident (Finished r) = {#}" "task_ids ident (Leased p) = conn_ids ident (p_conn p)"
  "task_ids ident (GetWaiting wr start waited) = {#}" "task_ids ident (GetBackoff start waited) = {#}"
  "task_ids ident (GetValidating h start waited) = conn_ids ident (h_conn h)"
  "task_ids ident (GetConnecting h start waited) = conn_ids ident (h_conn h)"
  "task_ids ident (TryValidating h) = conn_ids ident (h_conn h)"
  "task_ids ident (TryConnecting h) = conn_ids ident (h_conn h)"
  "task_ids ident (WarmConnecting h made) = conn_ids ident (h_conn h)"
  "task_ids ident GetStart = {#}" "task_ids ident TryStart = {#}" "task_ids ident MaintainStart = {#}"
  "task_ids ident WarmStart = {#}"
  by (simp_all add: task_ids_def)

text \<open>Giving up whatever is held, and evicting from the stack.\<close>

lemma steps_give_up: "ledger_steps (xs, conn_ids ident x + M) (xs, M)"
  by (cases x) (auto intro: ledger_step.give_up)

lemma steps_give_up_all [simp]: "ledger_steps (xs, conn_ids ident x) (xs, {#})"
  using steps_give_up [of xs ident x "{#}"] by simp

lemma steps_give_up_one [simp]: "ledger_steps (xs, {#x#}) (xs, {#})"
  by (auto intro: ledger_step.give_up)

lemma steps_evict: "subseq ys xs \<Longrightarrow> ledger_steps (xs, M) (ys, M)"
  by (auto intro: ledger_step.evict)

lemma steps_evict_last: "ledger_steps (xs @ [x], M) (xs, M)"
  by (rule steps_evict) (simp add: prefix_imp_subseq)

lemma steps_take: "ledger_steps (xs @ [x], {#}) (xs, {#x#})"
  by (auto intro: ledger_step.take_top)

lemma steps_park: "ledger_steps (xs, {#x#}) (xs @ [x], {#})"
  by (auto intro: ledger_step.park)

section \<open>Every operation is a sequence of ledger steps\<close>

lemma pop_idle_ids:
  "pop_idle s = (r, s1) \<Longrightarrow>
   idle_ids ident s = idle_ids ident s1 @ (case r of Some c \<Rightarrow> [ident (raw c)] | None \<Rightarrow> [])"
  by (auto simp: pop_idle_def idle_ids_def dest!: vec_pop_SomeD split: prod.splits option.splits)

definition got_ids :: "('c \<Rightarrow> 'i) \<Rightarrow> 'c held option \<Rightarrow> 'i multiset" where
  "got_ids ident g = (case g of Some h \<Rightarrow> conn_ids ident (h_conn h) | None \<Rightarrow> {#})"

lemma got_ids_simps [simp]: "got_ids ident None = {#}" "got_ids ident (Some h) = conn_ids ident (h_conn h)"
  by (simp_all add: got_ids_def)

lemma steps_pop_fresh_idle:
  "pop_fresh_idle sh now s = (g, s') \<Longrightarrow> ledger_steps (idle_ids ident s, {#}) (idle_ids ident s', got_ids ident g)"
proof (induction sh now s rule: pop_fresh_idle.induct)
  case (1 sh now s)
  obtain c s1 where p: "pop_idle s = (c, s1)" by (cases "pop_idle s")
  note ids = pop_idle_ids [OF p, of ident]
  show ?case
  proof (cases c)
    case None
    with p ids "1.prems" show ?thesis by (auto simp: pop_fresh_idle.simps [of sh now s])
  next
    case (Some d)
    show ?thesis
    proof (cases "expiry d now (conf sh)")
      case None
      with p Some "1.prems" have "s' = s1" "g = Some \<lparr>h_conn = Some d, h_released = False\<rparr>"
        by (auto simp: pop_fresh_idle.simps [of sh now s])
      with ids Some show ?thesis by (simp add: steps_take)
    next
      case (Some reason)
      with p \<open>c = Some d\<close> "1.prems" have "pop_fresh_idle sh now (release_slot sh (note_expired reason s1)) = (g, s')"
        by (simp add: pop_fresh_idle.simps [of sh now s])
      with "1.IH" [OF p [symmetric] \<open>c = Some d\<close> Some]
      have "ledger_steps (idle_ids ident s1, {#}) (idle_ids ident s', got_ids ident g)" by simp
      with ids \<open>c = Some d\<close> steps_evict_last show ?thesis by (metis option.simps(5) rtranclp_trans)
    qed
  qed
qed

lemma steps_try_reserve: "try_reserve sh s = Some (h, s') \<Longrightarrow> h_conn h = None \<and> idle_ids ident s' = idle_ids ident s"
  by (auto simp: try_reserve_def Let_def split: if_splits)

lemma idle_ids_poll: "wait_ready_poll sh w wr s = (r, wr', s') \<Longrightarrow> idle_ids ident s' = idle_ids ident s"
  using wait_ready_poll_sel(1) [of sh w wr s] by (simp add: idle_ids_def)

text \<open>A step from a pool and no connection to a task and a pool.\<close>

definition runs_to :: "('c \<Rightarrow> 'i) \<Rightarrow> 'i list \<Rightarrow> 'i multiset \<Rightarrow> ('c, 'e) task \<times> ('c, nat) inner \<Rightarrow> bool" where
  "runs_to ident xs M x \<longleftrightarrow> ledger_steps (xs, M) (idle_ids ident (snd x), task_ids ident (fst x))"

lemma runs_to_pair [simp]:
  "runs_to ident xs M (t, s) \<longleftrightarrow> ledger_steps (xs, M) (idle_ids ident s, task_ids ident t)"
  by (simp add: runs_to_def)

lemma runs_to_trans: "ledger_steps (xs, M) (ys, N) \<Longrightarrow> runs_to ident ys N x \<Longrightarrow> runs_to ident xs M x"
  unfolding runs_to_def by (rule rtranclp_trans)

lemma runs_to_hand_out [simp]:
  "runs_to ident xs M (hand_out sh waited start now h s) \<longleftrightarrow> ledger_steps (xs, M) (idle_ids ident s, conn_ids ident (h_conn h))"
  by (simp add: hand_out_eq)

lemma runs_get_wait: "runs_to ident (idle_ids ident s) {#} (get_wait sh w t1 t2 start waited wr s :: ('c, 'e) task \<times> _)"
proof (induction sh w t1 t2 start waited wr s rule: get_wait.induct)
  case (1 sh w t1 t2 start waited wr s)
  obtain a wr' s1 where p: "wait_ready_poll sh w wr s = (a, wr', s1)" by (cases "wait_ready_poll sh w wr s")
  obtain g s2 where q: "pop_fresh_idle sh t1 (wait_ready_drop wr' s1) = (g, s2)"
    by (cases "pop_fresh_idle sh t1 (wait_ready_drop wr' s1)")
  have ids: "idle_ids ident s1 = idle_ids ident s" by (rule idle_ids_poll [OF p])
  have pop: "ledger_steps (idle_ids ident s, {#}) (idle_ids ident s2, got_ids ident g)"
    using steps_pop_fresh_idle [OF q, of ident] ids by simp
  show ?case
  proof (cases "\<not> closed sh \<and> a \<noteq> None \<and> g = None \<and> try_reserve sh s2 = None")
    case True
    then obtain b where "a = Some b" by blast
    with "1.IH" [OF p [symmetric] this refl _ q [symmetric]] True p q pop show ?thesis
      by (auto simp: get_wait.simps [of sh w t1 t2 start waited wr s] intro: runs_to_trans)
  next
    case False
    then show ?thesis
      using p q ids pop steps_try_reserve [of sh s2 _ _ ident]
      by (auto simp: get_wait.simps [of sh w t1 t2 start waited wr s] split: option.split)
  qed
qed

lemma runs_get_loop: "runs_to ident (idle_ids ident s) {#} (get_loop sh w t1 t2 start waited s)"
  by (simp add: get_loop_def runs_get_wait)

lemma runs_get_start: "runs_to ident (idle_ids ident s) {#} (get_start sh w t1 t2 s)"
proof -
  obtain g s1 where q: "pop_fresh_idle sh t1 s = (g, s1)" by (cases "pop_fresh_idle sh t1 s")
  with steps_pop_fresh_idle [OF q, of ident] show ?thesis
    by (auto simp: get_start_def runs_get_loop split: option.split intro: runs_to_trans [OF _ runs_get_loop])
qed

lemma runs_try_loop: "runs_to ident (idle_ids ident s) {#} (try_loop sh t1 t2 s)"
proof -
  obtain g s1 where q: "pop_fresh_idle sh t1 s = (g, s1)" by (cases "pop_fresh_idle sh t1 s")
  with steps_pop_fresh_idle [OF q, of ident] steps_try_reserve [of sh s1 _ _ ident] show ?thesis
    by (auto simp: try_loop_def split: option.split)
qed

lemma runs_warm_loop: "runs_to ident (idle_ids ident s) {#} (warm_loop sh made s)"
  using steps_try_reserve [of sh s _ _ ident] by (auto simp: warm_loop_def split: option.split)

lemma steps_reap: "ledger_steps (idle_ids ident s, M) (idle_ids ident (snd (reap sh now s)), M)"
proof (rule steps_evict)
  have "subseq (idle (snd (reap sh now s))) (idle s)" by (auto simp: reap_def reap_scan_eq Let_def release_slots_def)
  then show "subseq (idle_ids ident (snd (reap sh now s))) (idle_ids ident s)"
    unfolding idle_ids_def by (rule subseq_map)
qed

lemma steps_clear: "ledger_steps (idle_ids ident s, M) (idle_ids ident (snd (clear sh s)), M)"
proof (rule steps_evict)
  have "idle_ids ident (snd (clear sh s)) = []"
    by (auto simp: clear_def Let_def) (simp add: idle_ids_def)+
  then show "subseq (idle_ids ident (snd (clear sh s))) (idle_ids ident s)" by simp
qed

lemma steps_into_idle: "ledger_steps (idle_ids ident s, conn_ids ident (h_conn h)) (idle_ids ident (into_idle sh now h s), {#})"
  by (cases "h_conn h") (simp_all add: into_idle_def steps_park)

lemma steps_pooled_drop:
  assumes "\<forall>c. ident (snd (hb c)) = ident c"
  shows "ledger_steps (idle_ids ident s, conn_ids ident (p_conn p)) (idle_ids ident (pooled_drop hb sh n1 n2 p s), {#})"
proof (cases "p_conn p")
  case (Some c)
  obtain b r where hb: "hb (raw c) = (b, r)" by (cases "hb (raw c)")
  with assms have "ident r = ident (raw c)" by (metis snd_conv)
  with Some hb steps_give_up_all [of _ ident "Some c"] show ?thesis
    by (auto simp: pooled_drop_def Let_def steps_park split: option.split)
qed (simp add: pooled_drop_def)

text \<open>A dial that resolves fills an empty reservation; one that was not empty would lose what it had.\<close>

lemma runs_connected:
  "runs_to ident (idle_ids ident s) (add_mset (ident r) (conn_ids ident (h_conn h))) (get_connected sh t1 t2 r h start waited s)"
  "runs_to ident (idle_ids ident s) (add_mset (ident r) (conn_ids ident (h_conn h))) (try_connected sh t1 t2 r h s)"
  "runs_to ident (idle_ids ident s) (add_mset (ident r) (conn_ids ident (h_conn h))) (warm_connected sh t1 t2 r h made s)"
proof -
  have fill: "ledger_steps (idle_ids ident s, add_mset (ident r) (conn_ids ident (h_conn h))) (idle_ids ident s, {#ident r#})"
    using steps_give_up [of "idle_ids ident s" ident "h_conn h" "{#ident r#}"] by simp
  then show "runs_to ident (idle_ids ident s) (add_mset (ident r) (conn_ids ident (h_conn h))) (get_connected sh t1 t2 r h start waited s)"
    "runs_to ident (idle_ids ident s) (add_mset (ident r) (conn_ids ident (h_conn h))) (try_connected sh t1 t2 r h s)"
    by (simp_all add: get_connected_def try_connected_def fill_def)
  have "ledger_steps (idle_ids ident s, {#ident r#}) (idle_ids ident (into_idle sh t2 (fill r t1 h) (note_created s)), {#})"
    using steps_into_idle [of ident "note_created s" "fill r t1 h" sh t2] by (simp add: fill_def)
  with fill show "runs_to ident (idle_ids ident s) (add_mset (ident r) (conn_ids ident (h_conn h))) (warm_connected sh t1 t2 r h made s)"
    unfolding warm_connected_def by (blast intro: runs_to_trans runs_warm_loop)
qed

lemma runs_validated:
  assumes "\<forall>c. h_conn h = Some c \<longrightarrow> ident r = ident (raw c)"
  shows "runs_to ident (idle_ids ident s) (conn_ids ident (h_conn h)) (get_validated sh w t1 t2 r ok h start waited s)"
    and "runs_to ident (idle_ids ident s) (conn_ids ident (h_conn h)) (try_validated sh t1 t2 r ok h s)"
proof -
  have same: "conn_ids ident (map_option (raw_update (\<lambda>_. r)) (h_conn h)) = conn_ids ident (h_conn h)"
    using assms by (cases "h_conn h") simp_all
  have drop: "ledger_steps (idle_ids ident s, conn_ids ident (h_conn h)) (idle_ids ident (held_drop sh (set_raw r h) (note_broken s)), {#})"
    by simp
  show "runs_to ident (idle_ids ident s) (conn_ids ident (h_conn h)) (get_validated sh w t1 t2 r ok h start waited s)"
    by (simp add: get_validated_def same runs_to_trans [OF drop runs_get_loop])
  show "runs_to ident (idle_ids ident s) (conn_ids ident (h_conn h)) (try_validated sh t1 t2 r ok h s)"
    by (simp add: try_validated_def same runs_to_trans [OF drop runs_try_loop])
qed

lemma runs_resume: "on_resume sh w t1 t2 t s = Some x \<Longrightarrow> runs_to ident (idle_ids ident s) (task_ids ident t) x"
  by (cases t)
    (auto simp: on_resume_def runs_get_start runs_get_wait runs_get_loop try_start_def runs_try_loop warm_start_def
      runs_warm_loop maintain_start_def steps_reap intro: runs_to_trans [OF steps_reap runs_warm_loop])

lemma signal_same_conn:
  "signal_fits (same_conn ident) (Validity r ok) t \<longleftrightarrow> (\<forall>c. task_conn t = Some c \<longrightarrow> ident r = ident (raw c))"
  "signal_fits (same_conn ident) (Use r) t \<longleftrightarrow> (\<forall>c. task_conn t = Some c \<longrightarrow> ident r = ident (raw c))"
  by (auto simp: same_conn_def split: option.splits)

lemma task_step_runs:
  assumes hb: "\<forall>c. ident (snd (hb c)) = ident c" and "signal_fits (same_conn ident) sig t"
    and "task_step hb sh w t1 t2 sig t s = Some x"
  shows "runs_to ident (idle_ids ident s) (mset (opened_by ident sig) + task_ids ident t) x"
proof (cases sig)
  case Resume
  with assms show ?thesis by (simp add: runs_resume)
next
  case (Validity r ok)
  with assms have "\<forall>c. task_conn t = Some c \<longrightarrow> ident r = ident (raw c)" by (simp only: signal_same_conn)
  with assms Validity show ?thesis by (cases t) (auto simp: on_validity_def runs_validated)
next
  case (Connected r)
  with assms show ?thesis by (cases t) (auto simp: on_connected_def runs_connected)
next
  case (ConnectFailed e)
  with assms show ?thesis
    by (cases t) (auto simp: on_connect_failed_def get_connect_failed_def split: if_splits)
next
  case Elapsed
  with assms show ?thesis
    by (cases t) (auto simp: on_elapsed_def)
next
  case DropIt
  with assms steps_pooled_drop [OF hb] show ?thesis
    by (cases t) (auto simp: on_drop_def)
next
  case TakeIt
  with assms show ?thesis
    by (cases t) (auto simp: on_take_def pooled_take_def)
next
  case (Use r)
  with assms show ?thesis
    by (cases t) (auto simp: on_use_def same_conn_def pooled_deref_mut_def split: option.splits)
qed

section \<open>Threads\<close>

lemma tasks_ids_update:
  "i < length ts \<Longrightarrow>
   sum_list (map (task_ids ident) (ts[i := t])) =
     task_ids ident t + (sum_list (map (task_ids ident) (take i ts)) + sum_list (map (task_ids ident) (drop (Suc i) ts)))"
  by (simp add: upd_conv_take_nth_drop ac_simps)

lemma thread_step_ledger:
  assumes hb: "\<forall>c. ident (snd (hb c)) = ident c" and fits: "event_fits (same_conn ident) e th"
    and step: "thread_step hb e th = Some th'"
  shows "ledger_steps (fst (thread_ledger ident th), mset (opened_in ident e) + snd (thread_ledger ident th))
    (thread_ledger ident th')"
proof (cases e)
  case (OnTask i t1 t2 sig)
  then obtain t s where i: "i < length (th_tasks th)"
    and st: "task_step hb (th_shared th) i t1 t2 sig (th_tasks th ! i) (th_pool th) = Some (t, s)"
    and th': "th' = th\<lparr>th_pool := s, th_tasks := (th_tasks th)[i := t]\<rparr>"
    using step by (auto split: if_splits)
  let ?F = "sum_list (map (task_ids ident) (take i (th_tasks th))) + sum_list (map (task_ids ident) (drop (Suc i) (th_tasks th)))"
  have "ledger_steps (idle_ids ident (th_pool th), mset (opened_by ident sig) + task_ids ident (th_tasks th ! i))
      (idle_ids ident s, task_ids ident t)"
    using task_step_runs [OF hb _ st] fits OnTask i by simp
  from ledger_steps_frame [OF this, of ?F] show ?thesis
    using tasks_ids_update [OF i, of ident "th_tasks th ! i"] tasks_ids_update [OF i, of ident t] OnTask th'
    by (simp add: thread_ledger_def add.assoc)
next
  case (Call c)
  with step show ?thesis by (cases c) (auto simp: thread_ledger_def)
qed (use step in \<open>auto simp: thread_ledger_def steps_reap steps_clear\<close>)

lemma thread_run_total:
  assumes hb: "\<forall>c. ident (snd (hb c)) = ident c"
  shows "keeps_run hb ident evs th \<Longrightarrow> thread_run hb evs th = Some th' \<Longrightarrow>
    ledger_total (thread_ledger ident th') \<subseteq># mset (concat (map (opened_in ident) evs)) + ledger_total (thread_ledger ident th)"
proof (induction evs arbitrary: th)
  case (Cons e es)
  then obtain th1 where st: "thread_step hb e th = Some th1" and rn: "thread_run hb es th1 = Some th'"
    by (auto split: option.splits)
  have "ledger_total (thread_ledger ident th1) \<subseteq># mset (opened_in ident e) + ledger_total (thread_ledger ident th)"
    using ledger_steps_total [OF thread_step_ledger [OF hb _ st]] Cons.prems(1)
    by (simp add: ledger_total_def ac_simps)
  then have "mset (concat (map (opened_in ident) es)) + ledger_total (thread_ledger ident th1) \<subseteq>#
      mset (concat (map (opened_in ident) (e # es))) + ledger_total (thread_ledger ident th)"
    by (simp add: ac_simps)
  moreover have "ledger_total (thread_ledger ident th') \<subseteq># mset (concat (map (opened_in ident) es)) + ledger_total (thread_ledger ident th1)"
    using Cons.IH [OF _ rn] Cons.prems(1) st by simp
  ultimately show ?case by (rule subset_mset.order_trans [rotated])
qed simp

lemma thread_ledger_new [simp]: "thread_ledger ident (thread_new cfg features) = ([], {#})"
  by (simp add: thread_ledger_def thread_new_def idle_ids_def local_pool_new_def)

text \<open>In a ledger without repetition, a holder's connection is nobody else's.\<close>

lemma distinct_total_apart:
  assumes d: "\<forall>x. count (ledger_total (thread_ledger ident th)) x \<le> 1" and i: "i < length (th_tasks th)" "task_conn (th_tasks th ! i) = Some c"
  shows "ident (raw c) \<notin> set (idle_ids ident (th_pool th))"
    and "j < length (th_tasks th) \<Longrightarrow> j \<noteq> i \<Longrightarrow> task_conn (th_tasks th ! j) = Some b \<Longrightarrow> ident (raw b) \<noteq> ident (raw c)"
proof -
  let ?ts = "th_tasks th" and ?x = "ident (raw c)"
  let ?F = "sum_list (map (task_ids ident) (take i ?ts)) + sum_list (map (task_ids ident) (drop (Suc i) ?ts))"
  have "ledger_total (thread_ledger ident th) = mset (idle_ids ident (th_pool th)) + add_mset ?x ?F"
    using tasks_ids_update [OF i(1), of ident "?ts ! i"] i(2) by (simp add: ledger_total_def thread_ledger_def task_ids_def)
  then have none: "count (mset (idle_ids ident (th_pool th)) + ?F) ?x = 0"
    using d [rule_format, of ?x] by simp
  then show "?x \<notin> set (idle_ids ident (th_pool th))" by (simp add: count_mset_0_iff)
  assume j: "j < length ?ts" "j \<noteq> i" "task_conn (?ts ! j) = Some b"
  show "ident (raw b) \<noteq> ?x"
  proof
    assume eq: "ident (raw b) = ?x"
    have "?ts ! j \<in> set (take i ?ts) \<or> ?ts ! j \<in> set (drop (Suc i) ?ts)"
      using j(1,2) by (cases "j < i") (auto simp: in_set_conv_nth intro: exI [of _ j] exI [of _ "j - Suc i"])
    then have "?x \<in># ?F" using j(3) eq by (force simp: task_ids_def set_mset_sum_list)
    with none show False by (simp add: count_eq_zero_iff)
  qed
qed

section \<open>Exclusive leases\<close>

text \<open>Nothing is parked twice, parked while held, or held twice.\<close>

definition held_apart :: "('c \<Rightarrow> 'i) \<Rightarrow> ('c, 'e) thread \<Rightarrow> bool" where
  "held_apart ident th \<longleftrightarrow> distinct (idle_ids ident (th_pool th)) \<and>
    (\<forall>i < length (th_tasks th). \<forall>c. task_conn (th_tasks th ! i) = Some c \<longrightarrow>
       ident (raw c) \<notin> set (idle_ids ident (th_pool th)) \<and>
       (\<forall>j < length (th_tasks th). \<forall>b. j \<noteq> i \<longrightarrow> task_conn (th_tasks th ! j) = Some b \<longrightarrow> ident (raw b) \<noteq> ident (raw c)))"

text \<open>What the pool relies on: \<open>has_broken\<close>, which has the connection by mutable reference, does not exchange it.\<close>

locale tagged_connections =
  fixes hb :: "'c has_broken" and ident :: "'c \<Rightarrow> 'i"
  assumes same_returned: "ident (snd (hb c)) = ident c"
begin

lemma refines_ledger:
  "event_fits (same_conn ident) e th \<Longrightarrow> thread_step hb e th = Some th' \<Longrightarrow>
   ledger_steps (fst (thread_ledger ident th), mset (opened_in ident e) + snd (thread_ledger ident th)) (thread_ledger ident th')"
  using thread_step_ledger same_returned by blast

lemma opened_once:
  assumes "keeps_run hb ident evs (thread_new cfg features)"
    and "thread_run hb evs (thread_new cfg features) = Some th" and "distinct (concat (map (opened_in ident) evs))"
  shows "count (ledger_total (thread_ledger ident th)) x \<le> 1"
proof -
  have "ledger_total (thread_ledger ident th) \<subseteq># mset (concat (map (opened_in ident) evs))"
    using thread_run_total [OF _ assms(1,2)] same_returned by (simp add: ledger_total_def)
  then have "count (ledger_total (thread_ledger ident th)) x \<le> count (mset (concat (map (opened_in ident) evs))) x"
    by (rule mset_subset_eq_count)
  also have "\<dots> \<le> 1" using assms(3) by (simp add: distinct_count_atmost_1)
  finally show ?thesis .
qed

lemma apart:
  assumes "keeps_run hb ident evs (thread_new cfg features)"
    and "thread_run hb evs (thread_new cfg features) = Some th" and "distinct (concat (map (opened_in ident) evs))"
  shows "held_apart ident th"
proof -
  have once: "\<forall>x. count (ledger_total (thread_ledger ident th)) x \<le> 1" using opened_once [OF assms] by blast
  have "count (mset (idle_ids ident (th_pool th))) x \<le> 1" for x
    using once [rule_format, of x] by (simp add: ledger_total_def thread_ledger_def)
  then have "distinct (idle_ids ident (th_pool th))"
    by (auto simp: distinct_count_atmost_1 count_mset_0_iff not_less_eq_eq intro: le_antisym)
  then show ?thesis unfolding held_apart_def using distinct_total_apart [OF once] by blast
qed

end

interpretation http_tagged: tagged_connections origin_has_broken ident for ident
  by unfold_locales (simp add: origin_has_broken_def)

interpretation shard_tagged: tagged_connections shard_has_broken ident for ident
  by unfold_locales (simp add: shard_has_broken_def)

interpretation backend_tagged: tagged_connections backend_has_broken ident for ident
  by unfold_locales (simp add: backend_has_broken_def)

interpretation buffer_tagged: tagged_connections buffer_has_broken ident for ident
  by unfold_locales (simp add: buffer_has_broken_def)


text \<open>
  C13: A lease is exclusive. When every dial opens a connection of its own, then in any run of a thread no
  connection is parked twice, none is parked while a call or a lease holds it, and no two of them hold the
  same one.
\<close>

theorem exclusive_leases:
  assumes "\<forall>c. ident (snd (hb c)) = ident c" and "keeps_run hb ident evs (thread_new cfg features)"
    and "thread_run hb evs (thread_new cfg features) = Some th" and "distinct (concat (map (opened_in ident) evs))"
  shows "distinct (idle_ids ident (th_pool th)) \<and>
    (\<forall>i < length (th_tasks th). \<forall>c. task_conn (th_tasks th ! i) = Some c \<longrightarrow>
       ident (raw c) \<notin> set (idle_ids ident (th_pool th)) \<and>
       (\<forall>j < length (th_tasks th). \<forall>b. j \<noteq> i \<longrightarrow> task_conn (th_tasks th ! j) = Some b \<longrightarrow> ident (raw b) \<noteq> ident (raw c)))"
proof -
  have "tagged_connections hb ident" using assms(1) by unfold_locales simp
  from tagged_connections.apart [OF this assms(2-4)] show ?thesis unfolding held_apart_def .
qed

text \<open>The proxy of \<open>http_proxy.rs\<close>: an upstream serves one client at a time.\<close>

lemma http_upstream_serves_one:
  assumes "keeps_run origin_has_broken ident evs (thread_new cfg features)"
    and "thread_run origin_has_broken evs (thread_new cfg features) = Some th"
    and "distinct (concat (map (opened_in ident) evs))"
    and "i < length (th_tasks th)" "j < length (th_tasks th)" "i \<noteq> j"
    and "task_conn (th_tasks th ! i) = Some c" "task_conn (th_tasks th ! j) = Some b"
  shows "ident (raw b) \<noteq> ident (raw c)"
  using http_tagged.apart [OF assms(1-3)] assms(4-8) by (simp only: held_apart_def) blast

text \<open>Two calls dial, and the second lease is dropped.\<close>

definition same_socket :: "nat has_broken" where
  "same_socket c = (False, c)"

definition two_leases :: "(nat, nat) event list" where
  "two_leases =
     [Call CallGet, Call CallGet, OnTask 0 0 0 Resume, OnTask 1 0 0 Resume,
      OnTask 0 1 1 (Connected 5), OnTask 1 1 1 (Connected 7)]"

definition two_config :: pool_config where
  "two_config =
     \<lparr>max_size = 2, min_idle = 0, connection_timeout = 9, idle_timeout = None, max_lifetime = None,
      test_on_check_out = False, retry_connection = False\<rparr>"

definition two_thread :: "(nat, nat) thread" where
  "two_thread = the (thread_run same_socket two_leases (thread_new two_config True))"

lemma two_thread_run: "thread_run same_socket two_leases (thread_new two_config True) = Some two_thread"
proof -
  have "thread_run same_socket two_leases (thread_new two_config True) \<noteq> None" by code_simp
  then show ?thesis by (simp add: two_thread_def option.the_def split: option.splits)
qed

lemma two_thread_holds:
  "th_tasks two_thread =
     [Leased \<lparr>p_conn = Some \<lparr>raw = 5, created_at = 1, last_used = 1\<rparr>\<rparr>, Leased \<lparr>p_conn = Some \<lparr>raw = 7, created_at = 1, last_used = 1\<rparr>\<rparr>]"
  "idle (th_pool two_thread) = []"
  by code_simp+


theorem exclusive_leases_witness:
  "\<exists>c b. task_conn (th_tasks two_thread ! 0) = Some c \<and> task_conn (th_tasks two_thread ! 1) = Some b \<and> raw b \<noteq> raw c"
proof -
  have "keeps_run same_socket (\<lambda>c. c) two_leases (thread_new two_config True)" by code_simp
  moreover have "distinct (concat (map (opened_in (\<lambda>c. c)) two_leases))" by (simp add: two_leases_def)
  ultimately have "\<forall>i < length (th_tasks two_thread). \<forall>c. task_conn (th_tasks two_thread ! i) = Some c \<longrightarrow>
      (\<forall>j < length (th_tasks two_thread). \<forall>b. j \<noteq> i \<longrightarrow> task_conn (th_tasks two_thread ! j) = Some b \<longrightarrow> raw b \<noteq> raw c)"
    using exclusive_leases [OF _ _ two_thread_run, of "\<lambda>c. c"] by (simp add: same_socket_def)
  from this [rule_format, of 0 _ 1] two_thread_holds show ?thesis by simp
qed

end
