(* ===== verification/Wal_Pool.thy ===== *)
theory Wal_Pool
  imports Ownership Wal
begin

text \<open>
  The log server \<open>src/examples/wal.rs\<close> as a whole: its worker threads, each with its \<open>LocalPool\<close> of log
  segments, and the counter \<open>NEXT_SEGMENT\<close> they share. A dial draws the next number when it starts and
  opens the file later; a connection leases a segment, appends its records to it and drops the lease. The
  pool's ledger and the counter together keep every segment with one connection at a time, in the whole
  process; as a \<open>managed_resource\<close> (theory \<open>Leasing\<close>) every segment handed out takes records at its tail.
\<close>

section \<open>The process\<close>

type_synonym seg = "string \<times> wal"

text \<open>\<open>drawn\<close>: the dials in progress, by thread and call, with the number each has drawn.\<close>

record 'e wal_process =
  workers :: "(seg, 'e) thread list"
  drawn :: "((nat \<times> nat) \<times> u64) list"
  next_segment :: u64

definition wal_has_broken :: "seg has_broken" where
  "wal_has_broken w = (False, w)"

definition wal_process_new :: "pool_config \<Rightarrow> bool \<Rightarrow> nat \<Rightarrow> 'e wal_process" where
  "wal_process_new cfg features n =
     \<lparr>workers = replicate n (thread_new cfg features), drawn = [], next_segment = 0\<rparr>"

fun connecting :: "('c, 'e) task \<Rightarrow> bool" where
  "connecting (GetConnecting h start waited) = True"
| "connecting (TryConnecting h) = True"
| "connecting (WarmConnecting h made) = True"
| "connecting t = False"

text \<open>
  \<open>serve\<close> calls \<open>get\<close>, is polled, appends with the segment it holds, and drops it. \<open>Dial\<close> is the first poll of
  \<open>connect\<close>, \<open>DialEnds\<close> the end of its \<open>open\<close>, and \<open>Checked\<close> that of \<open>is_valid\<close>, which accepts.
\<close>

datatype 'e wal_event =
    Gets nat
  | Polled nat nat instant instant
  | TimesOut nat nat instant instant
  | Drops nat nat instant instant
  | Dial nat nat
  | DialEnds nat nat instant instant "'e option"
  | Checked nat nat instant instant
  | Serves nat nat instant instant "'e wal_turn list"

definition worker_conn :: "'e wal_process \<Rightarrow> nat \<Rightarrow> nat \<Rightarrow> seg option" where
  "worker_conn p i j =
     (if i < length (workers p) \<and> j < length (th_tasks (workers p ! i))
      then map_option raw (task_conn (th_tasks (workers p ! i) ! j)) else None)"

definition on_worker :: "nat \<Rightarrow> (seg, 'e) event \<Rightarrow> 'e wal_process \<Rightarrow> 'e wal_process option" where
  "on_worker i e p =
     (if i < length (workers p)
      then map_option (\<lambda>th. p\<lparr>workers := (workers p)[i := th]\<rparr>) (thread_step wal_has_broken e (workers p ! i))
      else None)"

text \<open>A call that is polled on, or dropped, gives up the dial it had in progress.\<close>

definition forget_dial :: "nat \<Rightarrow> nat \<Rightarrow> 'e wal_process \<Rightarrow> 'e wal_process" where
  "forget_dial i j p = p\<lparr>drawn := filter (\<lambda>d. fst d \<noteq> (i, j)) (drawn p)\<rparr>"

fun wal_step :: "string \<Rightarrow> bool \<Rightarrow> 'e wal_event \<Rightarrow> 'e wal_process \<Rightarrow> 'e wal_process option" where
  "wal_step dir sync (Gets i) p = on_worker i (Call CallGet) p"
| "wal_step dir sync (Polled i j t1 t2) p = on_worker i (OnTask j t1 t2 Resume) (forget_dial i j p)"
| "wal_step dir sync (TimesOut i j t1 t2) p = on_worker i (OnTask j t1 t2 Elapsed) (forget_dial i j p)"
| "wal_step dir sync (Drops i j t1 t2) p = on_worker i (OnTask j t1 t2 DropIt) (forget_dial i j p)"
| "wal_step dir sync (Dial i j) p =
     (if i < length (workers p) \<and> j < length (th_tasks (workers p ! i)) \<and> connecting (th_tasks (workers p ! i) ! j)
         \<and> map_of (drawn p) (i, j) = None
      then Some (p\<lparr>drawn := ((i, j), next_segment p) # drawn p,
                   next_segment := snd (wal_connect True dir (next_segment p))\<rparr>)
      else None)"
| "wal_step dir sync (DialEnds i j t1 t2 err) p =
     (case map_of (drawn p) (i, j) of
        None \<Rightarrow> None
      | Some k \<Rightarrow>
          on_worker i
            (OnTask j t1 t2
              (case (err, fst (wal_connect (err = None) dir k)) of
                 (None, Some seg) \<Rightarrow> Connected seg
               | (Some e, _) \<Rightarrow> ConnectFailed e))
            (forget_dial i j p))"
| "wal_step dir sync (Checked i j t1 t2) p =
     (case worker_conn p i j of
        None \<Rightarrow> None
      | Some w \<Rightarrow> on_worker i (OnTask j t1 t2 (Validity w True)) (forget_dial i j p))"
| "wal_step dir sync (Serves i j t1 t2 turns) p =
     (case worker_conn p i j of
        None \<Rightarrow> None
      | Some (path, w) \<Rightarrow> on_worker i (OnTask j t1 t2 (Use (path, snd (wal_serve sync turns w)))) (forget_dial i j p))"

fun wal_run :: "string \<Rightarrow> bool \<Rightarrow> 'e wal_event list \<Rightarrow> 'e wal_process \<Rightarrow> 'e wal_process option" where
  "wal_run dir sync [] p = Some p"
| "wal_run dir sync (e # es) p =
     (case wal_step dir sync e p of None \<Rightarrow> None | Some p' \<Rightarrow> wal_run dir sync es p')"

section \<open>Names\<close>

lemma segment_path_inj: "segment_path dir k = segment_path dir l \<Longrightarrow> k = l"
proof -
  assume "segment_path dir k = segment_path dir l"
  then have "show_nat (unat k) = show_nat (unat l)" by (simp add: segment_path_def)
  then have "parse_usize (show_nat (unat k)) = parse_usize (show_nat (unat l))" by simp
  then show ?thesis using parse_show_usize [OF u64_bound] by (simp add: word_unat_eq_iff)
qed

text \<open>The names of the first \<open>n\<close> segments.\<close>

definition first_paths :: "string \<Rightarrow> nat \<Rightarrow> string multiset" where
  "first_paths dir n = mset (map (\<lambda>k. segment_path dir (of_nat k)) [0..<n])"

lemma first_paths_once:
  assumes "n \<le> 2 ^ 64"
  shows "count (first_paths dir n) x \<le> 1"
proof -
  have "inj_on (\<lambda>k. segment_path dir (of_nat k :: u64)) {0..<n}"
  proof (rule inj_onI)
    fix k l assume kl: "k \<in> {0..<n}" "l \<in> {0..<n}" "segment_path dir (of_nat k :: u64) = segment_path dir (of_nat l)"
    then have "(of_nat k :: u64) = of_nat l" using segment_path_inj by blast
    then have "unat (of_nat k :: u64) = unat (of_nat l :: u64)" by simp
    moreover have "k < 2 ^ 64" "l < 2 ^ 64" using kl assms by auto
    ultimately show "k = l" by (simp add: unsigned_of_nat take_bit_nat_eq_self)
  qed
  then have "distinct (map (\<lambda>k. segment_path dir (of_nat k :: u64)) [0..<n])" by (simp add: distinct_map)
  then show ?thesis by (simp add: first_paths_def distinct_count_atmost_1)
qed

lemma first_paths_Suc: "first_paths dir (Suc n) = add_mset (segment_path dir (of_nat n)) (first_paths dir n)"
  by (simp add: first_paths_def)

section \<open>Every segment is somewhere once\<close>

text \<open>Where a segment may be: on a worker's ledger, or about to be opened by a dial.\<close>

definition on_workers :: "'e wal_process \<Rightarrow> string multiset" where
  "on_workers p = sum_list (map (\<lambda>th. ledger_total (thread_ledger fst th)) (workers p))"

definition being_opened :: "string \<Rightarrow> 'e wal_process \<Rightarrow> string multiset" where
  "being_opened dir p = mset (map (\<lambda>d. segment_path dir (snd d)) (drawn p))"

definition wal_inv :: "string \<Rightarrow> nat \<Rightarrow> 'e wal_process \<Rightarrow> bool" where
  "wal_inv dir n p \<longleftrightarrow>
     next_segment p = of_nat n \<and> on_workers p + being_opened dir p \<subseteq># first_paths dir n"

interpretation wal_tagged: tagged_connections wal_has_broken "fst :: seg \<Rightarrow> string"
  by unfold_locales (simp add: wal_has_broken_def)

lemma forget_dial_sel [simp]:
  "workers (forget_dial i j p) = workers p" "next_segment (forget_dial i j p) = next_segment p"
  "drawn (forget_dial i j p) = filter (\<lambda>d. fst d \<noteq> (i, j)) (drawn p)"
  "on_workers (forget_dial i j p) = on_workers p"
  by (simp_all add: forget_dial_def on_workers_def)

lemma being_opened_forget: "being_opened dir (forget_dial i j p) \<subseteq># being_opened dir p"
  by (simp add: being_opened_def multiset_filter_subset image_mset_subseteq_mono)

text \<open>Ending a dial moves its segment out of the ones being opened.\<close>

lemma being_opened_ends:
  assumes "map_of (drawn p) (i, j) = Some k"
  shows "add_mset (segment_path dir k) (being_opened dir (forget_dial i j p)) \<subseteq># being_opened dir p"
proof -
  have "((i, j), k) \<in># filter_mset (\<lambda>d. fst d = (i, j)) (mset (drawn p))"
    using map_of_SomeD [OF assms] by simp
  then have "{#((i, j), k)#} \<subseteq># filter_mset (\<lambda>d. fst d = (i, j)) (mset (drawn p))" by simp
  then have "add_mset ((i, j), k) (filter_mset (\<lambda>d. fst d \<noteq> (i, j)) (mset (drawn p))) \<subseteq># mset (drawn p)"
    using multiset_partition [of "mset (drawn p)" "\<lambda>d. fst d = (i, j)"]
    by (metis add_mset_add_single subset_mset.add_left_mono union_commute)
  from image_mset_subseteq_mono [OF this, of "\<lambda>d. segment_path dir (snd d)"] show ?thesis
    by (simp add: being_opened_def)
qed

lemma sum_list_update_mset:
  "i < length xs \<Longrightarrow>
   sum_list (map f (xs[i := x])) = f x + (sum_list (map f (take i xs)) + sum_list (map f (drop (Suc i) xs)))"
  for f :: "'a \<Rightarrow> 'b multiset"
  by (simp add: upd_conv_take_nth_drop ac_simps)

text \<open>A worker's event adds to the ledgers only what it opens.\<close>

lemma on_worker_total:
  assumes "on_worker i e p = Some p'" and "event_fits (same_conn fst) e (workers p ! i)"
  shows "on_workers p' \<subseteq># mset (opened_in fst e) + on_workers p"
    and "drawn p' = drawn p" and "next_segment p' = next_segment p"
proof -
  from assms(1) obtain th where i: "i < length (workers p)"
    and st: "thread_step wal_has_broken e (workers p ! i) = Some th" and p': "p' = p\<lparr>workers := (workers p)[i := th]\<rparr>"
    by (auto simp: on_worker_def split: if_splits)
  have "ledger_total (thread_ledger fst th) \<subseteq># mset (opened_in fst e) + ledger_total (thread_ledger fst (workers p ! i))"
    using ledger_steps_total [OF wal_tagged.refines_ledger [OF assms(2) st]] by (simp add: ledger_total_def ac_simps)
  then show "on_workers p' \<subseteq># mset (opened_in fst e) + on_workers p"
    using sum_list_update_mset [OF i, of "\<lambda>th. ledger_total (thread_ledger fst th)" th]
      sum_list_update_mset [OF i, of "\<lambda>th. ledger_total (thread_ledger fst th)" "workers p ! i"]
    by (simp add: on_workers_def p' add.assoc [symmetric])
  show "drawn p' = drawn p" "next_segment p' = next_segment p" by (simp_all add: p')
qed

lemma worker_conn_fits:
  assumes "worker_conn p i j = Some w" "ident r = ident w"
  shows "event_fits (same_conn ident) (OnTask j t1 t2 (Validity r ok)) (workers p ! i)"
    and "event_fits (same_conn ident) (OnTask j t1 t2 (Use r)) (workers p ! i)"
  using assms by (auto simp: worker_conn_def same_conn_def split: if_splits option.splits)

lemma wal_inv_less:
  assumes "wal_inv dir n p" "next_segment p' = next_segment p"
    and "on_workers p' + being_opened dir p' \<subseteq># on_workers p + being_opened dir p"
  shows "wal_inv dir n p'"
  using assms subset_mset.order_trans unfolding wal_inv_def by metis

text \<open>An event that opens nothing keeps the invariant; so does one that opens what its dial has drawn.\<close>

lemma wal_inv_quiet:
  assumes "wal_inv dir n p" and "on_worker i e (forget_dial i j p) = Some p'"
    and "event_fits (same_conn fst) e (workers p ! i)" and "opened_in fst e = []"
  shows "wal_inv dir n p'"
proof -
  have "event_fits (same_conn fst) e (workers (forget_dial i j p) ! i)" using assms(3) by simp
  note w = on_worker_total [OF assms(2) this]
  have "on_workers p' \<subseteq># on_workers p" using w(1) assms(4) by simp
  moreover have "being_opened dir p' \<subseteq># being_opened dir p"
    using being_opened_forget [of dir i j p] w(2) by (simp add: being_opened_def)
  ultimately have "on_workers p' + being_opened dir p' \<subseteq># on_workers p + being_opened dir p"
    by (rule subset_mset.add_mono)
  with w(3) show ?thesis by (intro wal_inv_less [OF assms(1)]) simp_all
qed

lemma wal_inv_opened:
  assumes "wal_inv dir n p" and "map_of (drawn p) (i, j) = Some k"
    and "on_worker i (OnTask j t1 t2 (Connected (segment_path dir k, w))) (forget_dial i j p) = Some p'"
  shows "wal_inv dir n p'"
proof -
  have "event_fits (same_conn fst) (OnTask j t1 t2 (Connected (segment_path dir k, w))) th" for th :: "(seg, 'a) thread"
    by (simp add: same_conn_def)
  note t = on_worker_total [OF assms(3) this]
  have "on_workers p' \<subseteq># add_mset (segment_path dir k) (on_workers p)" using t(1) by simp
  then have "on_workers p' + being_opened dir p' \<subseteq># on_workers p + add_mset (segment_path dir k) (being_opened dir (forget_dial i j p))"
    using t(2) by (simp add: being_opened_def subset_mset.add_mono)
  also have "\<dots> \<subseteq># on_workers p + being_opened dir p" using being_opened_ends [OF assms(2)] by simp
  finally show ?thesis using t(3) by (intro wal_inv_less [OF assms(1)]) simp_all
qed

lemma wal_inv_gets:
  assumes "wal_inv dir n p" "on_worker i (Call CallGet) p = Some p'"
  shows "wal_inv dir n p'"
proof -
  have "event_fits (same_conn fst) (Call CallGet) (workers p ! i)" by simp
  note t = on_worker_total [OF assms(2) this]
  have "on_workers p' + being_opened dir p \<subseteq># on_workers p + being_opened dir p" using t(1) by simp
  moreover have "being_opened dir p' = being_opened dir p" by (simp add: being_opened_def t(2))
  ultimately show ?thesis using t(3) by (intro wal_inv_less [OF assms(1)]) simp_all
qed

lemma wal_inv_dial:
  assumes "wal_inv dir n p" "wal_step dir sync (Dial i j) p = Some p'"
  shows "wal_inv dir (Suc n) p'"
  using assms by (auto simp: wal_inv_def wal_connect_def on_workers_def being_opened_def first_paths_Suc split: if_splits)

lemma wal_step_inv:
  assumes inv: "wal_inv dir n p" and st: "wal_step dir sync e p = Some p'"
  shows "\<exists>m \<le> Suc n. wal_inv dir m p'"
proof (cases e)
  case (Dial i j)
  with inv st wal_inv_dial [of dir n p sync i j p'] show ?thesis by blast
next
  case (DialEnds i j t1 t2 err)
  then obtain k where k: "map_of (drawn p) (i, j) = Some k" using st by (auto split: option.splits)
  have "wal_inv dir n p'"
  proof (cases err)
    case None
    with DialEnds k st show ?thesis by (intro wal_inv_opened [OF inv k]) (simp add: wal_connect_def)
  next
    case (Some x)
    with DialEnds k st show ?thesis by (intro wal_inv_quiet [OF inv, of i "OnTask j t1 t2 (ConnectFailed x)" j]) simp_all
  qed
  then show ?thesis using le_Suc_eq by blast
next
  case (Checked i j t1 t2)
  then obtain w where w: "worker_conn p i j = Some w" using st by (auto split: option.splits)
  have "wal_inv dir n p'"
    using Checked st w by (intro wal_inv_quiet [OF inv _ worker_conn_fits(1) [OF w refl, of fst]]) simp_all
  then show ?thesis using le_Suc_eq by blast
next
  case (Serves i j t1 t2 turns)
  then obtain path w where w: "worker_conn p i j = Some (path, w)" using st by (auto split: option.splits)
  let ?r = "(path, snd (wal_serve sync turns w))"
  have "wal_inv dir n p'"
    using Serves st w by (intro wal_inv_quiet [OF inv _ worker_conn_fits(2) [OF w, of fst ?r]]) simp_all
  then show ?thesis using le_Suc_eq by blast
qed (use inv st wal_inv_gets wal_inv_quiet [OF inv] in \<open>force simp: le_Suc_eq\<close>)+

lemma wal_run_inv:
  "wal_inv dir n p \<Longrightarrow> wal_run dir sync evs p = Some p' \<Longrightarrow> \<exists>m \<le> n + length evs. wal_inv dir m p'"
proof (induction evs arbitrary: n p)
  case (Cons e es)
  then obtain p1 where st: "wal_step dir sync e p = Some p1" and rn: "wal_run dir sync es p1 = Some p'"
    by (auto split: option.splits)
  obtain m where m: "m \<le> Suc n" "wal_inv dir m p1" using wal_step_inv [OF Cons.prems(1) st] by blast
  obtain l where "l \<le> m + length es" "wal_inv dir l p'" using Cons.IH [OF m(2) rn] by blast
  with m(1) show ?case by (intro exI [of _ l]) simp
qed auto

lemma wal_inv_new: "wal_inv dir 0 (wal_process_new cfg features n)"
proof -
  have "sum_list (map (\<lambda>th. ledger_total (thread_ledger fst th)) (replicate n (thread_new cfg features :: (seg, 'e) thread))) = {#}"
    by (induction n) (simp_all add: ledger_total_def)
  then show ?thesis by (simp add: wal_inv_def wal_process_new_def on_workers_def being_opened_def)
qed

section \<open>One holder in the process\<close>

lemma held_in_ledger:
  assumes "j < length (th_tasks th)" "task_conn (th_tasks th ! j) = Some c"
  shows "ident (raw c) \<in># ledger_total (thread_ledger ident th)"
  using tasks_ids_update [OF assms(1), of ident "th_tasks th ! j"] assms(2)
  by (simp add: ledger_total_def thread_ledger_def task_ids_def)

lemma idle_in_ledger: "x \<in> set (idle_ids ident (th_pool th)) \<Longrightarrow> x \<in># ledger_total (thread_ledger ident th)"
  by (simp add: ledger_total_def thread_ledger_def)

lemma sum_list_two:
  fixes f :: "'a \<Rightarrow> 'b multiset"
  assumes "i < length xs" "j < length xs" "i \<noteq> j" "x \<in># f (xs ! i)" "x \<in># f (xs ! j)"
  shows "2 \<le> count (sum_list (map f xs)) x"
proof -
  let ?rest = "sum_list (map f (take i xs)) + sum_list (map f (drop (Suc i) xs))"
  have "sum_list (map f xs) = f (xs ! i) + ?rest" using sum_list_update_mset [OF assms(1), of f "xs ! i"] by simp
  moreover have "xs ! j \<in> set (take i xs) \<or> xs ! j \<in> set (drop (Suc i) xs)"
    using assms(1-3) by (cases "j < i") (auto simp: in_set_conv_nth intro: exI [of _ j] exI [of _ "j - Suc i"])
  then have "x \<in># ?rest" using assms(5) by (force simp: set_mset_sum_list)
  moreover have "0 < count (f (xs ! i)) x" "0 < count ?rest x" using assms(4) \<open>x \<in># ?rest\<close> by (simp_all only: count_greater_zero_iff)
  ultimately have "count (sum_list (map f xs)) x = count (f (xs ! i)) x + count ?rest x" by (simp only: count_union)
  with \<open>0 < count (f (xs ! i)) x\<close> \<open>0 < count ?rest x\<close> show ?thesis by linarith
qed

lemma wal_inv_once:
  assumes "wal_inv dir m p" "m \<le> 2 ^ 64"
  shows "count (on_workers p) x \<le> 1"
proof -
  have "on_workers p \<subseteq># first_paths dir m"
    using assms(1) subset_mset.order_trans [OF mset_subset_eq_add_left] unfolding wal_inv_def by blast
  then have "count (on_workers p) x \<le> count (first_paths dir m) x" by (rule mset_subset_eq_count)
  also have "\<dots> \<le> 1" by (rule first_paths_once [OF assms(2)])
  finally show ?thesis .
qed

lemma worker_ledger_once:
  assumes "\<forall>x. count (on_workers p) x \<le> 1" "i < length (workers p)"
  shows "\<forall>x. count (ledger_total (thread_ledger fst (workers p ! i))) x \<le> 1"
proof
  fix x
  let ?f = "\<lambda>th. ledger_total (thread_ledger fst th)"
  have "on_workers p = ?f (workers p ! i) + (sum_list (map ?f (take i (workers p))) + sum_list (map ?f (drop (Suc i) (workers p))))"
    using sum_list_update_mset [OF assms(2), of ?f "workers p ! i"] by (simp add: on_workers_def)
  then show "count (?f (workers p ! i)) x \<le> 1" using assms(1) [rule_format, of x] by (simp only: count_union)
qed

text \<open>
  C14: In the log server no two connections ever append to the same segment. However the workers' calls, dials
  and leases interleave, and whatever opens, writes and syncs fail, two different calls or leases anywhere in
  the process hold different files, and a file that is held is parked in no worker's pool.
\<close>

theorem segments_not_shared:
  assumes "wal_run dir sync evs (wal_process_new cfg features n) = Some p" and "length evs \<le> 2 ^ 64"
  shows "(\<forall>i j i' j' c b. worker_conn p i j = Some c \<and> worker_conn p i' j' = Some b \<and> (i, j) \<noteq> (i', j') \<longrightarrow> fst b \<noteq> fst c) \<and>
    (\<forall>i j i' c. worker_conn p i j = Some c \<and> i' < length (workers p) \<longrightarrow>
       fst c \<notin> set (idle_ids fst (th_pool (workers p ! i'))))"
proof -
  obtain m where m: "m \<le> 0 + length evs" "wal_inv dir m p" using wal_run_inv [OF wal_inv_new assms(1)] by blast
  have "m \<le> 2 ^ 64" using le_trans [of m "length evs"] m(1) assms(2) by simp
  then have once: "\<forall>x. count (on_workers p) x \<le> 1" using wal_inv_once [OF m(2)] by blast
  have two: False if "i < length (workers p)" "i' < length (workers p)" "i \<noteq> i'"
    "x \<in># ledger_total (thread_ledger fst (workers p ! i))" "x \<in># ledger_total (thread_ledger fst (workers p ! i'))" for i i' x
    using sum_list_two [of i "workers p" i' x "\<lambda>th. ledger_total (thread_ledger fst th)"] that once [rule_format, of x]
    by (simp add: on_workers_def)
  have held: "\<exists>d. i < length (workers p) \<and> j < length (th_tasks (workers p ! i)) \<and>
      task_conn (th_tasks (workers p ! i) ! j) = Some d \<and> raw d = c" if "worker_conn p i j = Some c" for i j c
    using that by (auto simp: worker_conn_def split: if_splits)
  have "fst b \<noteq> fst c" if "worker_conn p i j = Some c" "worker_conn p i' j' = Some b" "(i, j) \<noteq> (i', j')" for i j i' j' c b
  proof (cases "i = i'")
    case True
    then show ?thesis
      using held [OF that(1)] held [OF that(2)] that(3) distinct_total_apart(2) [OF worker_ledger_once [OF once]] by blast
  next
    case False
    then show ?thesis using held [OF that(1)] held [OF that(2)] two held_in_ledger [where ident = fst] by metis
  qed
  moreover have "fst c \<notin> set (idle_ids fst (th_pool (workers p ! i')))"
    if "worker_conn p i j = Some c" "i' < length (workers p)" for i j i' c
    using held [OF that(1)] that(2) two held_in_ledger [where ident = fst] idle_in_ledger [where ident = fst]
      distinct_total_apart(1) [OF worker_ledger_once [OF once]] by metis
  ultimately show ?thesis by blast
qed

text \<open>Two workers dial at once; the second one's file opens first.\<close>

definition two_dials :: "nat wal_event list" where
  "two_dials =
     [Gets 0, Polled 0 0 0 0, Dial 0 0, Gets 1, Polled 1 0 0 0, Dial 1 0, DialEnds 1 0 1 1 None,
      DialEnds 0 0 1 1 None, Serves 0 0 2 2 []]"

definition two_dials_end :: "nat wal_process" where
  "two_dials_end = the (wal_run ''/wal'' True two_dials (wal_process_new two_config False 2))"

lemma two_dials_run: "wal_run ''/wal'' True two_dials (wal_process_new two_config False 2) = Some two_dials_end"
proof -
  have "wal_run ''/wal'' True two_dials (wal_process_new two_config False 2) \<noteq> None" by code_simp
  then show ?thesis by (simp add: two_dials_end_def option.the_def split: option.splits)
qed

theorem segments_not_shared_witness:
  "\<exists>c b. worker_conn two_dials_end 0 0 = Some c \<and> worker_conn two_dials_end 1 0 = Some b \<and> fst b \<noteq> fst c"
proof -
  have "worker_conn two_dials_end 0 0 \<noteq> None" "worker_conn two_dials_end 1 0 \<noteq> None" by code_simp+
  then obtain c b where cb: "worker_conn two_dials_end 0 0 = Some c" "worker_conn two_dials_end 1 0 = Some b" by blast
  have "length two_dials \<le> 2 ^ 64" by (simp add: two_dials_def)
  from conjunct1 [OF segments_not_shared [OF two_dials_run this], rule_format, of 0 0 c 1 0 b] cb show ?thesis by simp
qed

section \<open>What a connection leases\<close>

text \<open>
  \<open>connect\<close> makes an empty log, \<open>is_valid\<close> accepts, and a lease is served with until the connection ends, as
  long as the offset stays in 64 bits. A segment is fit when its tail is within its file, which is what makes
  serving it append to its log.
\<close>

definition wal_manager :: "bool \<Rightarrow> seg manager" where
  "wal_manager sync =
     \<lparr>opened = (\<lambda>r. \<exists>dir k. fst (wal_connect True dir k) = Some r),
      checked = (\<lambda>c ok r. r = c \<and> ok),
      used = (\<lambda>c r. \<exists>turns :: unit wal_turn list.
        unat (offset (snd c)) + appended turns < 2 ^ 64 \<and> r = (fst c, snd (wal_serve sync turns (snd c))))\<rparr>"

interpretation seg_pool: managed_resource wal_has_broken "wal_manager sync" "\<lambda>c. wal_ok (snd c)" "\<lambda>c. wal_ok (snd c)" for sync
proof unfold_locales
  fix c r :: seg
  assume ok: "wal_ok (snd c)" and "used (wal_manager sync) c r"
  then obtain turns :: "unit wal_turn list" where room: "unat (offset (snd c)) + appended turns < 2 ^ 64"
    and r: "snd r = snd (wal_serve sync turns (snd c))" by (auto simp: wal_manager_def)
  from wal_serve_log [OF ok room surjective_pairing] r show "wal_ok (snd r)" by simp
qed (auto simp: wal_manager_def wal_connect_def wal_has_broken_def wal_ok_def)

text \<open>So every segment a checkout hands out, in any run of a worker, takes the next records at its tail.\<close>

lemma leased_segment_appends:
  assumes "managed_run wal_has_broken (wal_manager sync) (thread_new cfg features) th"
    and "event_fits (wal_manager sync) (OnTask i t1 t2 sig) th"
    and "thread_step wal_has_broken (OnTask i t1 t2 sig) th = Some th'" and "handed_out i th th' = Some c"
    and "unat (offset (snd (raw c))) + appended ts < 2 ^ 64" and "wal_serve sync ts (snd (raw c)) = (es, w')"
  shows "log_of w' = log_of (snd (raw c)) @ concat (map bytes es)"
  using wal_serve_log [OF seg_pool.handed_out_fit [OF assms(1-4)] assms(5,6)] by blast

end
