(* ===== verification/Float64.thy ===== *)
theory Float64
  imports Complex_Main "HOL-Library.Log_Nat"
begin

text \<open>
  The arithmetic on \<open>f64\<close> the load generators compute their reports with. A finite value is the rational
  it stands for; an operation is the exact one followed by rounding to the nearest representable value,
  ties to the even one. Only values that are not negative occur, all far below the largest \<open>f64\<close>. Rounding
  is monotone, and exact on whole numbers and halves of up to 53 bits.
\<close>

section \<open>Binary floating point\<close>

type_synonym f64 = rat

text \<open>The exponent: \<open>2 powi binade x \<le> x\<close> and \<open>x\<close> is below twice that.\<close>

definition binade :: "rat \<Rightarrow> int" where
  "binade x =
     (let (a, b) = quotient_of x; e = int (floorlog 2 (nat a)) - int (floorlog 2 (nat b))
      in if x < 2 powi e then e - 1 else e)"

definition round_even :: "rat \<Rightarrow> int" where
  "round_even y =
     (let f = \<lfloor>y\<rfloor>; d = y - of_int f in if d < 1 / 2 \<or> d = 1 / 2 \<and> even f then f else f + 1)"

text \<open>53 bits of significand, and subnormals below \<open>2 powi -1022\<close>.\<close>

definition ulp :: "rat \<Rightarrow> rat" where
  "ulp x = 2 powi (max (binade x) (-1022) - 52)"

definition f64_round :: "rat \<Rightarrow> f64" where
  "f64_round x = (if x \<le> 0 then 0 else of_int (round_even (x / ulp x)) * ulp x)"

definition f64_of :: "nat \<Rightarrow> f64" where
  "f64_of n = f64_round (of_nat n)"

definition f64_sub :: "f64 \<Rightarrow> f64 \<Rightarrow> f64" where
  "f64_sub a b = f64_round (a - b)"

definition f64_mul :: "f64 \<Rightarrow> f64 \<Rightarrow> f64" where
  "f64_mul a b = f64_round (a * b)"

text \<open>A quotient: by zero it is no number, or infinite.\<close>

datatype f64_result = Number f64 | Infinity | NaN

definition f64_div :: "f64 \<Rightarrow> f64 \<Rightarrow> f64_result" where
  "f64_div a b = (if b = 0 then if a = 0 then NaN else Infinity else Number (f64_round (a / b)))"

text \<open>\<open>f64::round\<close> takes halves away from zero; \<open>as usize\<close> of a whole number keeps it.\<close>

definition f64_round_usize :: "f64 \<Rightarrow> nat" where
  "f64_round_usize x = nat \<lfloor>x + 1 / 2\<rfloor>"

section \<open>Rounding\<close>

lemma quotient_pos:
  assumes "0 < x" "quotient_of x = (a, b)"
  shows "0 < a" "0 < b" "x = of_int a / of_int b"
proof -
  show b: "0 < b" using quotient_of_denom_pos [OF assms(2)] .
  show x: "x = of_int a / of_int b" using quotient_of_div [OF assms(2)] .
  show "0 < a" using assms(1) b unfolding x by (simp add: zero_less_divide_iff)
qed

lemma floorlog_powi:
  assumes "0 < (a::int)"
  shows "(2::rat) powi (int (floorlog 2 (nat a)) - 1) \<le> of_int a" "(of_int a :: rat) < 2 powi int (floorlog 2 (nat a))"
proof -
  let ?l = "floorlog 2 (nat a)"
  have l: "2 ^ (?l - 1) \<le> nat a \<and> nat a < 2 ^ ?l" using floorlog_bounds [of "nat a" 2] assms by simp
  have pos: "0 < ?l" using floorlog_eq_zero_iff [of 2 "nat a"] assms by simp
  have a: "(of_int a :: rat) = of_nat (nat a)" using assms by simp
  have "(of_nat (2 ^ (?l - 1)) :: rat) \<le> of_nat (nat a)" "(of_nat (nat a) :: rat) < of_nat (2 ^ ?l)"
    using l by (simp_all only: of_nat_le_iff of_nat_less_iff)
  moreover have "int ?l - 1 = int (?l - 1)" using pos by simp
  ultimately show "(2::rat) powi (int ?l - 1) \<le> of_int a" "(of_int a :: rat) < 2 powi int ?l"
    unfolding a by (simp_all del: of_nat_diff)
qed

lemma binade_bounds:
  assumes "0 < x"
  shows "2 powi binade x \<le> x" "x < 2 powi (binade x + 1)"
proof -
  obtain a b where q: "quotient_of x = (a, b)" by fastforce
  note ab = quotient_pos [OF assms q]
  let ?la = "int (floorlog 2 (nat a))" and ?lb = "int (floorlog 2 (nat b))"
  define e where "e = ?la - ?lb"
  have b: "(0::rat) < of_int b" using ab by simp
  have "(2::rat) powi (e - 1) * of_int b \<le> 2 powi (e - 1) * 2 powi ?lb"
    using floorlog_powi [OF ab(2)] by (intro mult_left_mono) auto
  also have "\<dots> = 2 powi (?la - 1)" unfolding e_def by (subst power_int_add [symmetric]) simp_all
  also have "\<dots> \<le> of_int a" using floorlog_powi [OF ab(1)] by simp
  finally have lo: "2 powi (e - 1) \<le> x" unfolding ab(3) using b by (simp add: le_divide_eq)
  have "of_int a < (2::rat) powi ?la" using floorlog_powi [OF ab(1)] by simp
  also have "\<dots> = 2 powi (e + 1) * 2 powi (?lb - 1)" unfolding e_def by (subst power_int_add [symmetric]) simp_all
  also have "\<dots> \<le> 2 powi (e + 1) * of_int b"
    using floorlog_powi [OF ab(2)] by (intro mult_left_mono) auto
  finally have hi: "x < 2 powi (e + 1)" unfolding ab(3) using b by (simp add: divide_less_eq)
  from lo hi show "2 powi binade x \<le> x" "x < 2 powi (binade x + 1)"
    by (auto simp: binade_def q e_def Let_def)
qed

lemma binade_less:
  assumes "0 < x" "x < 2 powi k"
  shows "binade x < k"
proof (rule ccontr)
  assume "\<not> binade x < k"
  then have "(2::rat) powi k \<le> 2 powi binade x" by (intro power_int_increasing) simp_all
  with binade_bounds(1) [OF assms(1)] assms(2) show False by simp
qed

lemma binade_mono: "0 < x \<Longrightarrow> x \<le> y \<Longrightarrow> binade x \<le> binade y"
  using binade_bounds(2) [of y] binade_less [of x "binade y + 1"] by force

lemma round_even_of_int [simp]: "round_even (of_int k) = k"
  by (simp add: round_even_def)

lemma round_even_bounds: "\<lfloor>y\<rfloor> \<le> round_even y" "round_even y \<le> \<lfloor>y\<rfloor> + 1"
  by (simp_all add: round_even_def Let_def)

lemma round_even_mono:
  assumes "x \<le> y"
  shows "round_even x \<le> round_even y"
proof (cases "\<lfloor>x\<rfloor> = \<lfloor>y\<rfloor>")
  case True
  with assms show ?thesis by (auto simp: round_even_def Let_def)
next
  case False
  then have "\<lfloor>x\<rfloor> + 1 \<le> \<lfloor>y\<rfloor>" using floor_mono [OF assms] by linarith
  then show ?thesis using round_even_bounds(2) [of x] round_even_bounds(1) [of y] by linarith
qed

lemma round_even_ge: "of_int k \<le> y \<Longrightarrow> k \<le> round_even y"
  using round_even_mono [of "of_int k" y] by simp

lemma round_even_le: "y \<le> of_int k \<Longrightarrow> round_even y \<le> k"
  using round_even_mono [of y "of_int k"] by simp

lemma ulp_pos [simp]: "0 < ulp x"
  by (simp add: ulp_def)

lemma f64_round_nonneg [simp]: "0 \<le> f64_round x"
  using round_even_ge [of 0 "x / ulp x"] ulp_pos [of x] by (auto simp: f64_round_def less_imp_le)

text \<open>A multiple of the spacing is a bound of the rounded value when it is one of the exact value.\<close>

lemma f64_round_ge: "0 < x \<Longrightarrow> of_int k * ulp x \<le> x \<Longrightarrow> of_int k * ulp x \<le> f64_round x"
  using round_even_ge [of k "x / ulp x"] by (simp add: f64_round_def le_divide_eq)

lemma f64_round_le: "0 < x \<Longrightarrow> x \<le> of_int k * ulp x \<Longrightarrow> f64_round x \<le> of_int k * ulp x"
  using round_even_le [of "x / ulp x" k] by (simp add: f64_round_def divide_le_eq)

text \<open>A power of two times a whole number is a multiple of every smaller power of two.\<close>

lemma powi_multiple:
  assumes "k \<le> e"
  obtains j where "of_int m * 2 powi e = of_int j * (2::rat) powi k"
proof
  have "(2::rat) powi e = 2 ^ nat (e - k) * 2 powi k"
    using assms power_int_add [of "2::rat" "e - k" k] by (simp add: power_int_def)
  then show "of_int m * 2 powi e = of_int (m * 2 ^ nat (e - k)) * (2::rat) powi k" by simp
qed

lemma f64_round_powi_ge:
  assumes "0 < x" "2 powi k \<le> x" "-1022 \<le> k"
  shows "2 powi k \<le> f64_round x"
proof (cases "max (binade x) (-1022) - 52 \<le> k")
  case True
  then obtain j where "of_int 1 * 2 powi k = of_int j * ulp x" unfolding ulp_def by (rule powi_multiple)
  with f64_round_ge [of x j] assms show ?thesis by simp
next
  case False
  then have k: "k < binade x - 52" using assms(3) by simp
  then have "max (binade x) (-1022) - 52 \<le> binade x" "k \<le> binade x" using assms(3) by linarith+
  then obtain j where "of_int 1 * 2 powi binade x = of_int j * ulp x" unfolding ulp_def using powi_multiple by blast
  with f64_round_ge [of x j] binade_bounds(1) [OF assms(1)] have "2 powi binade x \<le> f64_round x" using assms(1) by simp
  moreover have "(2::rat) powi k \<le> 2 powi binade x" using \<open>k \<le> binade x\<close> by (simp add: power_int_increasing)
  ultimately show ?thesis by simp
qed

lemma f64_round_powi_le:
  assumes "0 < x" "x \<le> 2 powi k" "-1022 \<le> k"
  shows "f64_round x \<le> 2 powi k"
proof (cases "max (binade x) (-1022) - 52 \<le> k")
  case True
  then obtain j where "of_int 1 * 2 powi k = of_int j * ulp x" unfolding ulp_def by (rule powi_multiple)
  with f64_round_le [of x j] assms show ?thesis by simp
next
  case False
  then have "(2::rat) powi k < 2 powi binade x" using assms(3) by (intro power_int_strict_increasing) auto
  then show ?thesis using binade_bounds(1) [OF assms(1)] assms(2) by simp
qed

lemma f64_round_mono:
  assumes "x \<le> y"
  shows "f64_round x \<le> f64_round y"
proof (cases "0 < x")
  case True
  then have y: "0 < y" using assms by simp
  show ?thesis
  proof (cases "max (binade x) (-1022) = max (binade y) (-1022)")
    case True
    then have u: "ulp x = ulp y" by (simp add: ulp_def)
    have "round_even (x / ulp y) \<le> round_even (y / ulp y)"
      by (rule round_even_mono) (simp add: assms divide_right_mono less_imp_le)
    with \<open>0 < x\<close> y u show ?thesis by (simp add: f64_round_def mult_right_mono less_imp_le)
  next
    case False
    then have b: "max (binade x) (-1022) < binade y" using binade_mono [OF True assms] by linarith
    have "x \<le> 2 powi binade y"
      using binade_bounds(2) [OF True] b power_int_increasing [of "binade x + 1" "binade y" "2::rat"] by simp
    then have "f64_round x \<le> 2 powi binade y" using f64_round_powi_le [OF True] b by simp
    also have "\<dots> \<le> f64_round y" using f64_round_powi_ge [OF y binade_bounds(1) [OF y]] b by simp
    finally show ?thesis .
  qed
qed (simp add: f64_round_def [of x])

text \<open>What fits 53 bits is not rounded.\<close>

lemma f64_round_exact:
  assumes "0 \<le> m" "m < 2 ^ 53" "-1074 \<le> e"
  shows "f64_round (of_int m * 2 powi e) = of_int m * 2 powi e"
proof (cases "m = 0")
  case False
  let ?x = "of_int m * 2 powi e :: rat"
  have pos: "0 < ?x" using assms False by simp
  have "(of_int m :: rat) < of_int (2 ^ 53)" using assms(2) by (simp only: of_int_less_iff)
  then have "?x < 2 powi 53 * 2 powi e" by (intro mult_strict_right_mono) simp_all
  also have "\<dots> = 2 powi (53 + e)" by (subst power_int_add) simp_all
  finally have "binade ?x < 53 + e" using binade_less [OF pos] by simp
  then have "max (binade ?x) (-1022) - 52 \<le> e" using assms(3) by simp
  then obtain j where "?x = of_int j * ulp ?x" unfolding ulp_def by (rule powi_multiple)
  then show ?thesis using f64_round_ge [OF pos, of j] f64_round_le [OF pos, of j] by simp
qed (simp add: f64_round_def)

lemma int_less_53:
  assumes "n < 2 ^ 53"
  shows "int n < 2 ^ 53"
proof -
  have "int n < int (2 ^ 53)" using assms by (simp only: of_nat_less_iff)
  then show ?thesis by (simp only: of_nat_power of_nat_numeral)
qed

lemma f64_round_nat:
  assumes "n < 2 ^ 53"
  shows "f64_round (of_nat n) = of_nat n"
  using f64_round_exact [OF of_nat_0_le_iff int_less_53 [OF assms], of 0] by (simp only: power_int_0_right of_int_of_nat_eq mult_1_right)

lemma f64_round_half:
  assumes "n < 2 ^ 53"
  shows "f64_round (of_nat n * (1 / 2)) = of_nat n * (1 / 2)"
proof -
  have "(2::rat) powi -1 = 1 / 2" by simp
  then show ?thesis
    using f64_round_exact [OF of_nat_0_le_iff int_less_53 [OF assms], of "-1"] by (simp only: of_int_of_nat_eq)
qed

end
