(* ===== verification/Latency_Report.thy ===== *)
theory Latency_Report
  imports Load_Start Kvload Float64
begin

text \<open>
  What the load generators print: \<open>main\<close> of \<open>load.rs\<close>, \<open>load_wal.rs\<close>, \<open>load_file.rs\<close>, \<open>load_churn.rs\<close> and
  \<open>kvload.rs\<close> after the joins. A percentile is an index computed in floating point, over the
  model of \<open>f64\<close> in \<open>Float64\<close>. The digits \<open>{:.1}\<close> prints are left out.
\<close>

section \<open>The report\<close>

definition pct_index :: "nat \<Rightarrow> f64 \<Rightarrow> nat" where
  "pct_index n p = f64_round_usize (f64_mul (f64_sub (f64_of n) 1) p)"

definition micros :: "u64 \<Rightarrow> f64" where
  "micros l = f64_round (f64_of (unat l) / 1000)"

text \<open>The closure \<open>pct\<close>; \<open>None\<close> when \<open>all[idx]\<close> panics.\<close>

definition pct :: "u64 list \<Rightarrow> f64 \<Rightarrow> f64 option" where
  "pct lats p =
     (let n = length lats
      in if n = 0 then Some 0
         else let idx = pct_index n p in if idx < n then Some (micros (lats ! idx)) else None)"

text \<open>The literals \<open>0.50\<close>, \<open>0.90\<close>, \<open>0.99\<close>, \<open>0.999\<close> and \<open>1.0\<close>.\<close>

definition quantiles :: "f64 list" where
  "quantiles = map f64_round [1 / 2, 9 / 10, 99 / 100, 999 / 1000, 1]"

text \<open>The options printed first, then requests, their rate, and the percentiles in microseconds.\<close>

record 'o report =
  rep_opts :: 'o
  rep_failed :: nat
  requests :: nat
  rate :: f64_result
  latency_us :: "f64 list"

definition summary :: "'o \<Rightarrow> nat \<Rightarrow> nat \<Rightarrow> nat \<Rightarrow> u64 list \<Rightarrow> 'o report option" where
  "summary opt secs nfailed reqs lats =
     map_option
       (\<lambda>us. \<lparr>rep_opts = opt, rep_failed = nfailed, requests = reqs,
              rate = f64_div (f64_of reqs) (f64_of secs), latency_us = us\<rparr>)
       (those (map (pct lats) quantiles))"

definition load_report :: "'a load_opts \<Rightarrow> u64 list \<times> nat \<Rightarrow> 'a load_opts report option" where
  "load_report opt r = summary opt (Load.seconds opt) (snd r) (length (fst r)) (fst r)"

definition load_wal_report :: "'a wal_opts \<Rightarrow> u64 list \<times> nat \<Rightarrow> 'a wal_opts report option" where
  "load_wal_report opt r = summary opt (wal_seconds opt) (snd r) (length (fst r)) (fst r)"

definition load_file_report :: "'a file_opts \<Rightarrow> u64 list \<times> nat \<Rightarrow> 'a file_opts report option" where
  "load_file_report opt r = summary opt (file_seconds opt) (snd r) (length (fst r)) (fst r)"

definition load_churn_report :: "'a churn_opts \<Rightarrow> u64 list \<times> nat \<Rightarrow> 'a churn_opts report option" where
  "load_churn_report opt r = summary opt (churn_seconds opt) (snd r) (length (fst r)) (fst r)"

text \<open>\<open>kvload.rs\<close> counts operations, several to a round trip, and prints the mismatches too.\<close>

definition kvload_report :: "'a opts \<Rightarrow> totals \<Rightarrow> ('a opts \<times> u64) report option" where
  "kvload_report opt t =
     summary (opt, total_mismatches t) (unat (Kvload.seconds opt)) (failed t) (unat (total_ops t)) (all_latencies t)"

text \<open>
  The whole programs, as far as the run of their threads has got: \<open>main\<close> fails on its command line or its
  set-up, waits for a thread that has not ended, panics, or prints. A thread of \<open>load_file.rs\<close> may itself
  have panicked, which is \<open>None\<close> as its result; the first join that meets it panics too.
\<close>

datatype ('e, 'r) program_end = Fails 'e | Waiting | Panics | Prints 'r

definition print_report :: "'r option \<Rightarrow> ('e, 'r) program_end" where
  "print_report r = (case r of None \<Rightarrow> Panics | Some rep \<Rightarrow> Prints rep)"

definition load_program :: "(string \<Rightarrow> 'a option) \<Rightarrow> string list \<Rightarrow> ('e io_error, 'e io_error + u64 list) load_run
    \<Rightarrow> ('e io_error, 'a load_opts report) program_end" where
  "load_program parse_addr args s =
     (case load_parse parse_addr args of
        Inl e \<Rightarrow> Fails e
      | Inr opt \<Rightarrow> (case load_main s of None \<Rightarrow> Waiting | Some r \<Rightarrow> print_report (load_report opt r)))"

definition load_wal_program :: "(string \<Rightarrow> 'a option) \<Rightarrow> string list \<Rightarrow> ('e io_error, 'e io_error + u64 list) load_run
    \<Rightarrow> ('e io_error, 'a wal_opts report) program_end" where
  "load_wal_program parse_addr args s =
     (case load_wal_parse parse_addr args of
        Inl e \<Rightarrow> Fails e
      | Inr opt \<Rightarrow> (case load_main s of None \<Rightarrow> Waiting | Some r \<Rightarrow> print_report (load_wal_report opt r)))"

definition load_churn_program :: "(string \<Rightarrow> 'a option) \<Rightarrow> string list \<Rightarrow> ('e io_error, 'e io_error + u64 list) load_run
    \<Rightarrow> ('e io_error, 'a churn_opts report) program_end" where
  "load_churn_program parse_addr args s =
     (case load_churn_parse parse_addr args of
        Inl e \<Rightarrow> Fails e
      | Inr opt \<Rightarrow> (case load_main s of None \<Rightarrow> Waiting | Some r \<Rightarrow> print_report (load_churn_report opt r)))"

fun join_or_panic :: "('e, ('e + u64 list) option) client_state list \<Rightarrow> ('e, u64 list \<times> nat) program_end" where
  "join_or_panic [] = Prints ([], 0)"
| "join_or_panic (Finished_with None # cs) = Panics"
| "join_or_panic (c # cs) =
     (case (c, join_or_panic cs) of
        (Refused_with e, Prints (lats, nfailed)) \<Rightarrow> Prints (lats, nfailed + 1)
      | (Finished_with (Some (Inl e)), Prints (lats, nfailed)) \<Rightarrow> Prints (lats, nfailed + 1)
      | (Finished_with (Some (Inr l)), Prints (lats, nfailed)) \<Rightarrow> Prints (l @ lats, nfailed)
      | (Refused_with e, r) \<Rightarrow> r
      | (Finished_with x, r) \<Rightarrow> r
      | _ \<Rightarrow> Waiting)"

definition load_file_program :: "(string \<Rightarrow> 'a option) \<Rightarrow> string option \<Rightarrow> bool \<Rightarrow> (string \<Rightarrow> bool) \<Rightarrow> string list
    \<Rightarrow> (string \<Rightarrow> string option) \<Rightarrow> ('e io_error, ('e io_error + u64 list) option) load_run
    \<Rightarrow> ('e io_error, 'a file_opts report) program_end \<times> (string \<Rightarrow> string option)" where
  "load_file_program parse_addr file_dir_var dir_ok writable args fs s =
     (case load_file_parse parse_addr file_dir_var args of
        Inl e \<Rightarrow> (Fails e, fs)
      | Inr opt \<Rightarrow>
          (case setup_files dir_ok writable opt fs of
             (Some e, fs1) \<Rightarrow> (Fails e, fs1)
           | (None, fs1) \<Rightarrow>
               (case join_or_panic (clients s) of
                  Fails e \<Rightarrow> Fails e
                | Waiting \<Rightarrow> Waiting
                | Panics \<Rightarrow> Panics
                | Prints (lats, nfailed) \<Rightarrow> print_report (load_file_report opt (sort lats, nfailed)), fs1)))"

text \<open>\<open>kvload.rs\<close>: \<open>ws\<close> are the results of the threads joined so far.\<close>

definition kvload_program :: "(string \<Rightarrow> 'a list option) \<Rightarrow> string list \<Rightarrow> ('e io_error + conn_result) list
    \<Rightarrow> ('e io_error, ('a opts \<times> u64) report) program_end" where
  "kvload_program resolve args ws =
     (case Kvload.parse resolve args of
        Inl e \<Rightarrow> Fails e
      | Inr opt \<Rightarrow>
          if length ws < Kvload.conns opt then Waiting
          else print_report
            (kvload_report opt
              (gather_results ws \<lparr>all_latencies = [], total_ops = 0, failed = 0, total_mismatches = 0\<rparr>)))"

section \<open>Percentiles\<close>

lemma f64_round_one [simp]: "f64_round 1 = 1"
  using f64_round_nat [of 1] by (simp only: of_nat_1) simp

lemma f64_round_one_half: "f64_round (1 / 2) = 1 / 2"
  using f64_round_half [of 1] by (simp only: of_nat_1 mult_1_left) simp

lemma quantiles_sorted: "sorted_wrt (\<le>) quantiles"
  by (simp add: quantiles_def f64_round_mono del: f64_round_one)

lemma quantiles_le_one: "p \<in> set quantiles \<Longrightarrow> p \<le> 1"
  using f64_round_mono [of _ 1] by (auto simp: quantiles_def)

text \<open>With at most 53 bits of length nothing is lost before the product.\<close>

lemma last_index_exact:
  assumes "0 < n" "n < 2 ^ 53"
  shows "f64_sub (f64_of n) 1 = of_nat (n - 1)"
proof -
  have "(of_nat n :: rat) - 1 = of_nat (n - 1)" using assms(1) by (simp add: of_nat_diff)
  moreover have "n - 1 < 2 ^ 53" using assms(2) by (rule le_less_trans [OF diff_le_self])
  ultimately show ?thesis by (simp only: f64_sub_def f64_of_def f64_round_nat assms(2))
qed

lemma pct_index_mono: "0 < n \<Longrightarrow> n < 2 ^ 53 \<Longrightarrow> p \<le> q \<Longrightarrow> pct_index n p \<le> pct_index n q"
  unfolding pct_index_def f64_round_usize_def f64_mul_def
  by (intro nat_mono floor_mono add_right_mono f64_round_mono) (simp add: last_index_exact mult_left_mono)

lemma pct_index_max:
  assumes "0 < n" "n < 2 ^ 53"
  shows "pct_index n 1 = n - 1"
proof -
  have "n - 1 < 2 ^ 53" using assms(2) by (rule le_less_trans [OF diff_le_self])
  then have "pct_index n 1 = nat \<lfloor>(of_nat (n - 1) :: rat) + 1 / 2\<rfloor>"
    by (simp only: pct_index_def f64_mul_def f64_round_usize_def last_index_exact [OF assms] mult_1_right f64_round_nat)
  also have "\<lfloor>(of_nat (n - 1) :: rat) + 1 / 2\<rfloor> = int (n - 1)" by (simp add: floor_unique del: of_nat_diff)
  finally show ?thesis by simp
qed

lemma pct_index_median:
  assumes "0 < n" "n < 2 ^ 53"
  shows "pct_index n (f64_round (1 / 2)) = n div 2"
proof -
  have "n - 1 < 2 ^ 53" using assms(2) by (rule le_less_trans [OF diff_le_self])
  then have "pct_index n (f64_round (1 / 2)) = nat \<lfloor>(of_nat (n - 1) :: rat) * (1 / 2) + 1 / 2\<rfloor>"
    by (simp only: pct_index_def f64_mul_def f64_round_usize_def last_index_exact [OF assms] f64_round_one_half f64_round_half)
  also have "(of_nat (n - 1) :: rat) * (1 / 2) + 1 / 2 = of_nat n / of_nat 2"
    using assms(1) by (simp add: of_nat_diff field_simps)
  finally show ?thesis by (simp only: floor_divide_of_nat_eq nat_int)
qed

lemma micros_mono:
  assumes "a \<le> b"
  shows "micros a \<le> micros b"
proof -
  have "(of_nat (unat a) :: rat) \<le> of_nat (unat b)" using assms by (simp only: word_le_nat_alt of_nat_le_iff)
  then show ?thesis unfolding micros_def f64_of_def by (intro f64_round_mono divide_right_mono) simp_all
qed

lemma pct_in_range:
  assumes "lats \<noteq> []" "length lats < 2 ^ 53" "p \<le> 1"
  shows "pct_index (length lats) p < length lats" "pct lats p = Some (micros (lats ! pct_index (length lats) p))"
proof -
  have "pct_index (length lats) p \<le> length lats - 1"
    using pct_index_mono [of "length lats" p 1] pct_index_max [of "length lats"] assms by simp
  then show "pct_index (length lats) p < length lats" 
    using assms(1) by (cases lats) simp_all
  then show "pct lats p = Some (micros (lats ! pct_index (length lats) p))" using assms(1) by (simp add: pct_def Let_def)
qed

lemma those_map_Some: "(\<And>x. x \<in> set xs \<Longrightarrow> f x = Some (g x)) \<Longrightarrow> those (map f xs) = Some (map g xs)"
  by (induction xs) simp_all

lemma all_pcts:
  assumes "lats \<noteq> []" "length lats < 2 ^ 53"
  shows "those (map (pct lats) quantiles) = Some (map (\<lambda>p. micros (lats ! pct_index (length lats) p)) quantiles)"
  using pct_in_range [OF assms] quantiles_le_one by (intro those_map_Some) blast

lemma pcts_sorted:
  assumes "sorted lats" "lats \<noteq> []" "length lats < 2 ^ 53"
  shows "sorted (map (\<lambda>p. micros (lats ! pct_index (length lats) p)) quantiles)"
proof -
  let ?at = "\<lambda>p. micros (lats ! pct_index (length lats) p)"
  have "?at p \<le> ?at q" if "p \<le> q" "q \<in> set quantiles" for p q
    using that assms pct_in_range(1) [OF assms(2,3) quantiles_le_one [OF that(2)]]
    by (intro micros_mono sorted_nth_mono pct_index_mono) simp_all
  with quantiles_sorted show ?thesis by (auto simp: sorted_wrt_map intro: sorted_wrt_mono_rel)
qed

lemma no_latencies: "those (map (pct []) quantiles) = Some [0, 0, 0, 0, 0]"
  by (simp add: pct_def quantiles_def)

section \<open>Every report\<close>

text \<open>
  What the last line promises: five figures in ascending order, the first the (upper) median and the last
  the largest latency; zeros when nothing was measured.
\<close>

definition describes :: "u64 list \<Rightarrow> f64 list \<Rightarrow> bool" where
  "describes lats us \<longleftrightarrow>
     length us = 5 \<and> sorted us \<and>
     (if lats = [] then last us = 0
      else hd us = micros (lats ! (length lats div 2)) \<and> last us = micros (last lats) \<and>
           list_all (\<lambda>l. micros l \<le> last us) lats)"

definition reported :: "nat \<Rightarrow> nat \<Rightarrow> u64 list \<Rightarrow> 'o report option \<Rightarrow> bool" where
  "reported nfailed reqs lats r =
     (case r of
        None \<Rightarrow> False
      | Some rep \<Rightarrow> rep_failed rep = nfailed \<and> requests rep = reqs \<and> describes lats (latency_us rep))"

lemma summary_reported:
  assumes "sorted lats" "length lats < 2 ^ 53"
  shows "reported nfailed reqs lats (summary opt secs nfailed reqs lats)"
proof (cases "lats = []")
  case True
  then show ?thesis by (simp add: reported_def summary_def describes_def no_latencies)
next
  case False
  let ?us = "map (\<lambda>p. micros (lats ! pct_index (length lats) p)) quantiles"
  have n: "0 < length lats" using False by simp
  have "hd ?us = micros (lats ! (length lats div 2))"
    using pct_index_median [OF n assms(2)] by (simp add: quantiles_def)
  moreover have last: "last ?us = micros (last lats)"
    using pct_index_max [OF n assms(2)] False by (simp add: quantiles_def last_conv_nth)
  moreover have "micros l \<le> last ?us" if "l \<in> set lats" for l
    unfolding last using assms(1) that by (auto simp: in_set_conv_nth last_conv_nth [OF False] intro!: micros_mono sorted_nth_mono)
  ultimately show ?thesis
    using False all_pcts [OF False assms(2)] pcts_sorted [OF assms(1) False assms(2)]
    by (simp add: reported_def summary_def describes_def list_all_iff) (simp add: quantiles_def)
qed

lemma gather_results_sorted: "sorted (all_latencies (gather_results ws t))"
  by (induction ws t rule: gather_results.induct) simp_all

text \<open>
  C21: Every load generator that gets to its report prints it, and prints the truth. For up to \<open>2 ^ 53\<close>
  latencies no percentile's index, though computed in floating point, falls outside the vector; the
  figures p50, p90, p99, p99.9 and max are in ascending order, p50 is the upper median and max the largest
  latency measured; the failed clients and the requests are those counted by the joins.
\<close>

theorem reports_describe_run:
  assumes "load_main s = Some (lats, nfailed)" and "length lats < 2 ^ 53"
    and "length (all_latencies (gather_results ws t)) < 2 ^ 53"
  shows "reported nfailed (length lats) lats (load_report opt1 (lats, nfailed)) \<and>
    reported nfailed (length lats) lats (load_wal_report opt2 (lats, nfailed)) \<and>
    reported nfailed (length lats) lats (load_file_report opt3 (lats, nfailed)) \<and>
    reported nfailed (length lats) lats (load_churn_report opt4 (lats, nfailed)) \<and>
    (let total = gather_results ws t
     in reported (failed total) (unat (total_ops total)) (all_latencies total) (kvload_report opt5 total))"
proof -
  have "sorted lats" using assms(1) by (auto simp: load_main_def)
  note r = summary_reported [OF this assms(2)] summary_reported [OF gather_results_sorted assms(3)]
  show ?thesis
    by (simp only: load_report_def load_wal_report_def load_file_report_def load_churn_report_def kvload_report_def
        Let_def fst_conv snd_conv r simp_thms)
qed

definition measured_run :: "(nat, nat + u64 list) load_run" where
  "measured_run = \<lparr>clients = [Finished_with (Inr [9000]), Finished_with (Inl 7), Finished_with (Inr [1500, 2500])], arrived = 0\<rparr>"

definition churn_example :: "unit churn_opts" where
  "churn_example = \<lparr>churn_addr = (), churn_conns = 3, churn_seconds = 0\<rparr>"

theorem reports_describe_run_witness:
  "\<exists>rep. load_churn_report churn_example ([1500, 2500, 9000], 1) = Some rep \<and>
     hd (latency_us rep) = micros 2500 \<and> last (latency_us rep) = micros 9000"
proof -
  have main: "load_main measured_run = Some ([1500, 2500, 9000], 1)" by code_simp
  have "length [1500, 2500, 9000 :: u64] < 2 ^ 53" by simp
  moreover have "length (all_latencies (gather_results [] \<lparr>all_latencies = [], total_ops = 0, failed = 0, total_mismatches = 0\<rparr>)) < 2 ^ 53"
    by simp
  ultimately have "reported 1 (length [1500, 2500, 9000 :: u64]) [1500, 2500, 9000]
      (load_churn_report churn_example ([1500, 2500, 9000], 1))"
    by (rule conjunct1 [OF conjunct2 [OF conjunct2 [OF conjunct2 [OF reports_describe_run [OF main]]]]])
  then show ?thesis by (auto simp: reported_def describes_def split: option.splits)
qed

section \<open>A churn run\<close>

lemma load_loop_length:
  "load_loop fresh data turns inbox lat = Inr l \<Longrightarrow> length l = length lat + length turns"
  by (induction fresh data turns inbox lat rule: load_loop.induct) (auto simp: Let_def split: if_splits)

abbreviation churn_loops :: "(nat \<Rightarrow> (bool \<times> bool \<times> string \<times> u64) list) \<Rightarrow> nat \<Rightarrow> 'e io_error + u64 list" where
  "churn_loops turns i \<equiv> load_churn_loop i (turns i)"

definition measured :: "(nat \<Rightarrow> 'e + u64 list) \<Rightarrow> nat \<Rightarrow> u64 list" where
  "measured looped n = sort (concat (map (\<lambda>i. case looped i of Inl e \<Rightarrow> [] | Inr l \<Rightarrow> l) [0..<n]))"

definition errors_of :: "(nat \<Rightarrow> 'e + u64 list) \<Rightarrow> nat \<Rightarrow> nat" where
  "errors_of looped n = length (filter (\<lambda>i. case looped i of Inl e \<Rightarrow> True | Inr l \<Rightarrow> False) [0..<n])"

lemma measured_length:
  assumes "\<And>i. case looped i of Inl e \<Rightarrow> True | Inr l \<Rightarrow> length l \<le> size_of i"
  shows "length (measured looped n) \<le> (\<Sum>i < n. size_of i)"
proof (induction n)
  case (Suc n)
  have "length (case looped n of Inl e \<Rightarrow> [] | Inr l \<Rightarrow> l) \<le> size_of n"
    using assms [of n] by (auto split: sum.splits)
  with Suc show ?case by (simp add: measured_def)
qed (simp add: measured_def)


text \<open>One client, one turn, the byte comes back after 5000 ns.\<close>

definition one_turn :: "nat \<Rightarrow> (bool \<times> bool \<times> string \<times> u64) list" where
  "one_turn i = [(True, True, [char_of i], 5000)]"

definition one_client_args :: "string list" where
  "one_client_args = [''127.0.0.1:7000'', ''--conns'', ''1'']"

definition one_client_run :: "(nat io_error, nat io_error + u64 list) load_run" where
  "one_client_run = \<lparr>clients = [Finished_with (Inr [5000])], arrived = 0\<rparr>"

lemma one_client_reaches: "load_reaches (\<lambda>i. None) (churn_loops one_turn) 1 one_client_run"
proof -
  let ?loops = "churn_loops one_turn :: nat \<Rightarrow> nat io_error + u64 list"
  let ?s1 = "\<lparr>clients = [Measuring], arrived = 0\<rparr> :: (nat io_error, nat io_error + u64 list) load_run"
  have "load_step (\<lambda>i. None) ?loops 1 (load_start 1) ?s1"
    using load_step.waits [of 0 "load_start 1" "\<lambda>i. None" ?loops 1] by (simp add: load_start_def barrier_wait_def)
  moreover have "?loops 0 = Inr [5000]" by (simp add: load_churn_loop_def one_turn_def)
  then have "load_step (\<lambda>i. None) ?loops 1 ?s1 one_client_run"
    using load_step.measured [of 0 ?s1 "\<lambda>i. None" ?loops 1] by (simp add: one_client_run_def)
  ultimately show ?thesis by (blast intro: load_reaches.intros)
qed


end
