(* ===== verification/Summaries.thy ===== *)
theory Summaries
  imports Latency_Report Example_Start Fd_Pipe Fanout_Requests
begin

text \<open>
  The ends of \<open>fanout_requests.rs\<close> and \<open>fd_pipe.rs\<close>: \<open>main\<close> from the arguments to the lines it prints, over the
  runs of \<open>Fanout_Requests\<close> and \<open>Fd_Pipe\<close>. The time a run takes is given.
\<close>

section \<open>Elapsed time\<close>

definition as_secs_f64 :: "duration \<Rightarrow> f64" where
  "as_secs_f64 d =
     f64_round (f64_of (d div 1000000000) + f64_round (f64_of (d mod 1000000000) / 1000000000))"

section \<open>The fan-out\<close>

record fan_report =
  done_requests :: nat
  done_secs :: f64
  done_rate :: f64_result
  echoed_bytes :: u64
  opened_total :: u64
  peak_in_use :: u32
  report_cap :: u32
  final_state :: "pool_state option"

text \<open>\<open>main\<close> awaits the clients one by one, then prints; the state only with \<open>metrics\<close>.\<close>

definition fanout_report :: "'a fan_plan \<Rightarrow> bool \<Rightarrow> duration \<Rightarrow> ('c, 'e) fan \<Rightarrow> ('x io_error, fan_report) program_end" where
  "fanout_report plan features elapsed fs =
     (if list_all (\<lambda>c. c = Fanout_Requests.Returned) (fr_clients fs)
      then Prints
        \<lparr>done_requests = plan_requests plan, done_secs = as_secs_f64 elapsed,
         done_rate = f64_div (f64_of (plan_requests plan)) (as_secs_f64 elapsed), echoed_bytes = fr_bytes fs,
         opened_total = fr_opens fs, peak_in_use = fr_peak fs, report_cap = max_size (plan_pool plan),
         final_state = (if features then Some (local_state (th_pool (fr_thread fs))) else None)\<rparr>
      else Waiting)"

text \<open>The events are what the tasks do with the plan; \<open>None\<close> says they are no run of it.\<close>

definition fanout_requests_main ::
  "bool \<Rightarrow> bool \<Rightarrow> 'x + 'a \<Rightarrow> string list \<Rightarrow> duration \<Rightarrow> ('c, 'e) fan_event list
    \<Rightarrow> ('x io_error, fan_report) program_end option" where
  "fanout_requests_main features rt_down own args elapsed evs =
     (case fanout_requests_start rt_down own args of
        Inl (MainErr e) \<Rightarrow> Some (Fails e)
      | Inl m \<Rightarrow> Some Panics
      | Inr plan \<Rightarrow>
          (case fan_new features (max_size (plan_pool plan)) (plan_clients plan) of
             None \<Rightarrow> Some Panics
           | Some fs \<Rightarrow>
               map_option (fanout_report plan features elapsed)
                 (fan_run (plan_requests plan) (plan_size plan) evs fs)))"

text \<open>The peak it prints is within the capacity it prints.\<close>

lemma fanout_printed_peak:
  assumes "fanout_requests_main features rt_down (own :: 'x + 'a) args elapsed evs = Some (Prints rep)"
    and "3 * length evs < 2 ^ 64 - 2"
  shows "peak_in_use rep \<le> report_cap rep \<and> report_cap rep = unwrap_or (arg parse_u32 2 args) 8"
proof -
  obtain plan fs fs' where plan: "fanout_requests_start rt_down own args = Inr plan"
    and new: "fan_new features (max_size (plan_pool plan)) (plan_clients plan) = Some fs"
    and run: "fan_run (plan_requests plan) (plan_size plan) evs fs = Some fs'"
    and rep: "fanout_report plan features elapsed fs' = (Prints rep :: ('x io_error, fan_report) program_end)"
    using assms(1) by (auto simp: fanout_requests_main_def split: sum.splits main_end.splits option.splits)
  obtain cfg where cap: "max_size cfg = max_size (plan_pool plan)"
    and inv: "fan_inv cfg features (plan_requests plan) 0 fs"
    using fan_inv_new [OF new] by blast
  have "fan_inv cfg features (plan_requests plan) (0 + 3 * length evs) fs'"
    using assms(2) by (intro fan_run_inv [OF inv run]) simp
  then have "fr_peak fs' \<le> max_size (plan_pool plan)" using cap by (simp add: fan_inv_def)
  with rep fanout_plan_pool [OF plan] show ?thesis by (auto simp: fanout_report_def split: if_splits)
qed

text \<open>
  The number of requests it prints as done is the number asked for, made or not: here the only client's \<open>get\<close>
  times out, the client returns, and two requests are reported with no upstream opened.
\<close>

definition gives_up :: "(nat, nat) fan_event list" where
  "gives_up = [FirstPoll 0 0 0, GetPolled 0 (from_secs 30) (from_secs 30) Elapsed]"

lemma done_counts_unmade_requests:
  "\<exists>rep. fanout_requests_main False False (Inr () :: nat + unit) [''x'', ''2'', ''1'', ''1'', ''1''] 1000000000 gives_up
     = Some (Prints rep) \<and> done_requests rep = 2 \<and> opened_total rep = 0 \<and> echoed_bytes rep = 0"
  by (simp add: fanout_requests_main_def fanout_requests_start_def fanout_report_def gives_up_def fan_evals arg_def
      nth_arg_def parse_u32_def parse_usize_def char_digit_def unwrap_or_def sized_pool_def)

section \<open>The pipe\<close>

text \<open>The records and their size, from the arguments.\<close>

definition pipe_plan :: "string list \<Rightarrow> nat \<times> nat" where
  "pipe_plan args = (unwrap_or (arg parse_usize 1 args) 100000, unwrap_or (arg parse_usize 2 args) 256)"

record pipe_report =
  piped_records :: nat
  piped_size :: nat
  piped_total :: u64
  piped_secs :: f64
  piped_rate :: f64_result

text \<open>
  \<open>main\<close> of \<open>fd_pipe.rs\<close>: the pool of 64 buffers, the runtime, the pipe, then the run as far as it has got, \<open>s\<close>.
  A write that failed is returned; otherwise the consumer's tally is printed, whether its loop ended at the end
  of file or at a read error.
\<close>

definition fd_pipe_main :: "bool \<Rightarrow> 'x option \<Rightarrow> string list \<Rightarrow> duration \<Rightarrow> piping
    \<Rightarrow> ('x io_error, pipe_report) program_end" where
  "fd_pipe_main rt_down pipe_err args elapsed s =
     (case sized_pool 64 of
        None \<Rightarrow> Panics
      | Some cfg \<Rightarrow>
          if rt_down then Panics
          else (case pipe_err of
                  Some e \<Rightarrow> Fails (Os e)
                | None \<Rightarrow>
                    let (messages, sz) = pipe_plan args
                    in if Fd_Pipe.failed s then Fails (BrokenPipe ''write'')
                       else if pipe_over s
                       then Prints
                         \<lparr>piped_records = messages, piped_size = sz, piped_total = tally s,
                          piped_secs = as_secs_f64 elapsed,
                          piped_rate = f64_div (f64_of messages) (as_secs_f64 elapsed)\<rparr>
                       else Waiting))"

text \<open>The printed total is the product of the two figures printed before it, unless a read failed.\<close>

lemma fd_pipe_prints_product:
  assumes "fd_pipe_main rt_down pipe_err args elapsed s = Prints rep"
    and "pipe_run pipe_room (fst (pipe_plan args)) (snd (pipe_plan args)) es piping_new = Some s" and "drain s \<noteq> ReadError"
  shows "piped_total rep = of_nat (piped_records rep * piped_size rep)"
proof -
  obtain messages sz where plan: "pipe_plan args = (messages, sz)" by fastforce
  have inv: "pipe_inv messages sz s" using pipe_run_inv [OF pipe_inv_new assms(2)] plan by simp
  have over: "pipe_over s" "\<not> Fd_Pipe.failed s"
    and rep: "piped_records rep = messages" "piped_size rep = sz" "piped_total rep = tally s"
    using assms(1) plan by (auto simp: fd_pipe_main_def split: option.splits if_splits)
  with inv assms(3) show ?thesis
    by (cases "drain s") (auto simp: pipe_inv_def pipe_over_def taken_up_def unwritten_def)
qed

end
