(* ===== verification/Spec2Isabelle.thy ===== *)
theory Spec2Isabelle
  imports Registry Pool_Operations Observer Listener Workers
    Leasing Fanout_Requests Kvload Warmup Fd_Pipe
    Load_Start Tokio_Echo Echo_Stats Example_Start
    Ownership Wal_Pool Summaries
begin

text \<open>
  A verification of \<open>compio-pool\<close>, a connection pool for thread-per-core runtimes, and of the servers
  and load generators of its repository that run over it.

  \<^bold>\<open>The program.\<close> A \<open>Pool\<close> (\<open>src/src/pool.rs\<close>) is a configuration, a manager and a shutdown flag
  shared by every thread. Each thread calls \<open>Pool::local\<close> once and gets a \<open>LocalPool\<close>, which is not
  \<open>Send\<close>: an idle list, a count of slots in use and a FIFO of parked calls, all touched by one thread
  only. What crosses threads is the flag and, with the feature \<open>metrics\<close>, one block of atomic counters
  per \<open>LocalPool\<close> that any thread may read. Connections come from a user's \<open>ManageConnection\<close>
  (\<open>src/src/manage.rs\<close>). \<open>src/src/builder.rs\<close>, \<open>cpu.rs\<close>, \<open>listener.rs\<close> and \<open>workers.rs\<close> configure a
  pool, choose cores, bind one listener per core and start one pinned thread per core.

  \<^bold>\<open>The pool.\<close>
  \<^item> \<open>Prelude\<close>: machine integers, clock, \<open>Vec\<close> and \<open>VecDeque\<close> operations, shared lemmas.
  \<^item> \<open>Manage\<close>, \<open>Builder\<close>: \<open>RunError\<close>, \<open>PoolConfig\<close>, the setters and \<open>build\<close>.
  \<^item> \<open>Metrics\<close>: \<open>Metrics\<close>, \<open>State\<close>, \<open>Statistics\<close>, \<open>retire_into\<close>; the locale \<open>snapshot_algebra\<close>.
  \<^item> \<open>Waiters\<close>: \<open>register\<close>, \<open>unregister\<close>, \<open>wake\<close>, \<open>wake_all\<close>; the locale \<open>wake_queue\<close>, whose ledger
    accounts for every ticket.
  \<^item> \<open>Local_Pool\<close>: \<open>Inner\<close>, \<open>Held\<close>, \<open>PooledConnection\<close>, \<open>WaitReady\<close>, \<open>reap\<close>, \<open>clear\<close>, \<open>pop_fresh_idle\<close>,
    \<open>try_reserve\<close>, as functions on the record \<open>inner\<close>.
  \<^item> \<open>Tasks\<close>: \<open>get\<close>, \<open>get_inner\<close>, \<open>try_get\<close>, \<open>warm\<close>, \<open>maintain\<close> as state machines over their await points;
    \<open>thread_step\<close> runs one event (a call, a resumption, a cancellation, a timeout, maintenance, shutdown)
    and \<open>thread_run\<close> a list of them, which is any interleaving a single-threaded executor can make.
  \<^item> \<open>Registry\<close>: \<open>Pool\<close>, \<open>Shared\<close>, the registry of weak blocks, \<open>Inner::drop\<close>, and a scrape racing a drop.

  What is shown of it. \<open>Accounting\<close> and \<open>Rationing\<close> move the two halves of the invariant across every
  operation (slots, gauges and counters add up; while somebody waits, at least as many wake-ups are
  outstanding as there is room). \<open>Thread_Inv\<close> and \<open>Thread_Runs\<close> lift them from one task with an arbitrary
  frame to whole threads (locale \<open>framed_tasks\<close>), and \<open>Pool_Properties\<close> reads the guarantees of any run
  off: the slot bound, no lost wake-up, no orphan in the queue, gauges and counters that match, no leak.
  \<open>Pool_Operations\<close> gives the behaviour of each operation branch by branch, and that a resumed call
  never stalls. \<open>Walks\<close> (locale \<open>pool_walk\<close>) derives what every step keeps because each primitive update
  does. \<open>Observer\<close> shows a run is the same with and without \<open>metrics\<close>. \<open>Registry\<close> relates the totals the
  pool reports to what its threads report, over drops. \<open>Ownership\<close> has the abstract specification of a
  \<open>LocalPool\<close>, a ledger of what is parked and what is held; every event of a thread is a sequence of its
  steps (locale \<open>tagged_connections\<close>), so a lease is exclusive.

  \<^bold>\<open>Around the pool.\<close> \<open>Cpu\<close> (\<open>cores\<close>, \<open>affinity_mask\<close>, \<open>CoreSet\<close>, locale \<open>narrowing\<close>), \<open>Listener\<close>
  (\<open>bind_reuseport\<close> as a sequence of socket calls) and \<open>Workers\<close> (\<open>PerCore\<close>, \<open>Workers\<close>); \<open>Text\<close> has the
  standard library's text handling they and the servers use.

  \<^bold>\<open>The servers and clients\<close> under \<open>src/examples\<close> and \<open>src/crates/deadpool-baseline/examples\<close>.
  \<^item> \<open>Streams\<close>: a connection with a read buffer; the locales \<open>message_reader\<close> and \<open>message_codec\<close> derive
    lossless reading of a sequence of messages, however it is cut into segments, from one message.
  \<^item> \<open>Http_Proxy\<close>: framing of requests and responses, the proxy loop, the origin. No byte of one client's
    exchange is left on an upstream given back; a length is accepted only when unambiguous.
  \<^item> \<open>Scatter_Gather\<close>: lines, shards, the merged answer in shard order.
  \<^item> \<open>Redis_Proxy\<close>, \<open>Kvload\<close>: the line protocol in front of Redis and the generator that drives it, each
    alone and one against the other.
  \<^item> \<open>Wal\<close>: the log servers; a pooled segment is an append-only log, and an acknowledged record is durable.
  \<^item> \<open>Wal_Pool\<close>: the whole log server, its workers' pools and the counter they share; a segment is with one
    connection at a time in the process.
  \<^item> \<open>File_Server\<close>, \<open>Load\<close>: the static-file servers, the clients, and a file fetched through both.
  \<^item> \<open>Echo\<close>: the echo, relay and fan-out loops.
  \<^item> \<open>Leasing\<close>: the pool together with the managers of \<open>http_proxy.rs\<close>, \<open>scatter_gather.rs\<close>, \<open>tcp_pool.rs\<close>
    and \<open>echo.rs\<close>. The locale \<open>managed_resource\<close> states what the pool and a manager owe each other; from it
    every connection a checkout gets is fit, in any run.
  \<^item> \<open>Fanout_Requests\<close>: the client tasks of \<open>fanout_requests.rs\<close> over the model of the pool; the upstreams
    in use and their peak stay within the capacity.
  \<^item> \<open>Warmup\<close>: the tour of \<open>warmup.rs\<close> over the model of the pool: a burst after \<open>warm\<close> opens only what is
    missing, and every line the program prints.
  \<^item> \<open>Fd_Pipe\<close>: the producer and consumer of \<open>fd_pipe.rs\<close> over a bounded pipe; no run is endless, none
    deadlocks, and all bytes arrive.
  \<^item> \<open>Load_Start\<close>: the client threads of the load generators and their barrier, as a step relation: all
    measure or none, and one refused client stops the report for good.
    When nobody can be refused, every run comes to its report.
  \<^item> \<open>Float64\<close>, \<open>Latency_Report\<close>: \<open>f64\<close> with its rounding, and what the load generators print with it; their
    whole \<open>main\<close>s. The percentiles are in range, in order, and end at the largest latency.
  \<^item> \<open>Summaries\<close>: \<open>main\<close> of \<open>fanout_requests.rs\<close> and \<open>fd_pipe.rs\<close> up to the lines they print.
  \<^item> \<open>Tokio_Start\<close>, \<open>Tokio_Echo\<close>, \<open>Echo_Stats\<close>: \<open>main\<close>, \<open>run_percore\<close> and \<open>run_default\<close> of the baseline servers,
    what they pool (locale \<open>recycled_resource\<close>), the thread-local buffers of \<open>echo_tpc.rs\<close>, and the counters of
    \<open>echo.rs\<close> under every interleaving.
  \<^item> \<open>Example_Start\<close>: \<open>main\<close> of the compio servers, on \<open>PerCore\<close>, on threads of their own and on one thread, and
    the datagram loop of \<open>udp_echo.rs\<close>. The servers that start threads themselves do what \<open>PerCore\<close> does.

  \<^bold>\<open>Correspondence.\<close> A \<open>struct\<close> is a record, an \<open>enum\<close> a datatype, a method a function that takes and
  returns the record; \<open>Drop\<close> implementations are operations their owner's exit runs. Clock readings, the
  outcomes of a manager's futures and of system calls are arguments of the step that observes them, so a
  theorem holds for all of them. Errors are values of sums and options; a panic is \<open>None\<close> or an outcome of its own.

  \<^bold>\<open>Bounds.\<close> \<open>u32\<close> and \<open>u64\<close> are words. Ticket numbers are 64 bits wide and never reused within \<open>2 ^ 64 - 2\<close>
  events, which is the length \<open>reaches\<close> allows a run. An idle list is shorter than \<open>2 ^ 32\<close> because it is
  bounded by \<open>max_size\<close>. The log's offset is a \<open>u64\<close>; a run writes fewer than \<open>2 ^ 64\<close> bytes. No function has
  fuel: the loops of the pool terminate by a measure, and a server's loop is driven by the script of what
  its environment does, one entry per turn, so it ends when the script does. A loop that never returns in the
  code is said to be still serving, or its \<open>main\<close> to wait, with what it has done so far. A finite \<open>f64\<close> is the
  rational it stands for; a report's indices are exact for up to \<open>2 ^ 53\<close> latencies.

  \<^bold>\<open>Not modelled.\<close> \<open>src/src/lib.rs\<close> declares modules. The \<open>Debug\<close> implementations and \<open>Pool::manager\<close>
  hold no logic. The memory order of atomics is not modelled: the only concurrent reads are those of the
  counters, interleaved one access at a time in \<open>race_step\<close> and in \<open>Echo_Stats\<close>. Of the examples, the
  digits a number is printed with and the once-a-second statistics line of the tokio echo server are left out,
  and \<open>sched_setaffinity\<close> enters only as the core a worker was given. The tests are
  programs about the pool and not part of it. The crates \<open>deadpool\<close>, \<open>redis\<close>, \<open>compio\<close> and \<open>tokio\<close> are
  not in the repository; what is used of them is a parameter.
\<close>

section \<open>From the builder to the first checkout\<close>

text \<open>
  C28: \<open>Builder::build\<close> refuses exactly a zero \<open>max_size\<close>. A configuration it accepts can always
  serve: \<open>min_idle\<close> is within \<open>max_size\<close>, and the first \<open>get\<close> on a fresh thread gets to dial
  at once instead of waiting.
\<close>

theorem built_pool_serves:
  "(build b = Inl ZeroMaxSize \<longleftrightarrow> max_size (config b) = 0) \<and>
   (\<forall>cfg. build b = Inr cfg \<longrightarrow>
      min_idle cfg \<le> max_size cfg \<and>
      acquiring (fst (get_start \<lparr>conf = cfg, closed = False\<rparr> w t1 t2 (local_pool_new features))))"
proof -
  have "build b = Inl ZeroMaxSize \<longleftrightarrow> max_size (config b) = 0"
    by (simp add: build_def Let_def)
  then show ?thesis
    by (auto simp: valid_config_def dest!: build_valid intro!: fresh_get_acquires)
qed

theorem built_pool_serves_witness:
  "\<exists>cfg. build (set_max_size 2 (set_min_idle 5 builder_new)) = Inr cfg \<and> min_idle cfg \<le> max_size cfg"
proof -
  obtain cfg where b: "build (set_max_size 2 (set_min_idle 5 builder_new)) = Inr cfg"
    by (simp add: build_def builder_defs builder_new_def Let_def)
  with built_pool_serves [of "set_max_size 2 (set_min_idle 5 builder_new)"] show ?thesis by blast
qed

section \<open>Reported averages\<close>

text \<open>
  The reported average wait is the total over the number of checkouts that waited, rounded
  down, and zero when none did, as long as fewer than \<open>2 ^ 32\<close> checkouts have waited.
\<close>

theorem average_wait_is_average:
  assumes "unat (get_waited st) < 2 ^ 32"
  shows "average_wait_time st
    = (if get_waited st = 0 then 0 else total_wait_time st div unat (get_waited st))"
proof -
  have u: "unat (ucast (get_waited st) :: u32) = unat (get_waited st)"
    using assms by (rule average_wait_time_ucast)
  then have "(ucast (get_waited st) :: u32) = 0 \<longleftrightarrow> get_waited st = 0"
    by (simp add: unat_eq_0 [symmetric])
  with u show ?thesis by (simp add: average_wait_time_def duration_checked_div_def)
qed

theorem average_wait_is_average_witness:
  "average_wait_time (statistics_default\<lparr>get_waited := 4, total_wait_time := 10\<rparr>) = 2"
  using average_wait_is_average [of "statistics_default\<lparr>get_waited := 4, total_wait_time := 10\<rparr>"]
  by simp

text \<open>
  At \<open>2 ^ 32\<close> waited checkouts the divisor, truncated to 32 bits, is zero, and the average is
  reported as zero whatever the total.
\<close>

theorem average_wait_truncates:
  "average_wait_time (st\<lparr>get_waited := 2 ^ 32\<rparr>) = 0"
  by (simp add: average_wait_time_def duration_checked_div_def)

end
